(* ===== verification/Messaging_Prelude.thy ===== *)
theory Messaging_Prelude
  imports Main "HOL-Library.Word"
begin

text \<open>
  The shared vocabulary of the development: the parts of the Go language and of its standard
  library that every component uses, and the generic lemmas on them.

  \<^item> Go strings are \<^typ>\<open>string\<close> (lists of bytes); a \<open>[]byte\<close> is a \<open>byte_slice\<close>,
    an optional byte list whose \<^const>\<open>None\<close> is the nil slice; a Go map is a partial function,
    and iterating over it visits its keys in an order the language leaves open
    (\<open>iteration_of\<close>).
  \<^item> \<open>int64\<close> values (counters, durations, loop variables whose overflow matters) are
    \<^typ>\<open>64 word\<close>, read with \<^const>\<open>sint\<close>.
  \<^item> A channel that is only ever closed is a \<open>signal_chan\<close>; closing it twice is a Go
    panic. A buffered channel is a list with a capacity (\<open>try_send\<close>, \<open>try_recv\<close>).
  \<^item> Panics are values of \<open>go_panic\<close>, returned in a sum type.
  \<^item> \<open>reachable\<close> and the locales \<open>step_invariant\<close> and \<open>forward_simulation\<close> carry every
    invariant proof over a step relation and the refinements between step relations.
\<close>

named_theorems go_simps "characteristic equations of the language model"
named_theorems inv_intros "preservation of component invariants"

section \<open>Bytes, slices and copying\<close>

type_synonym byte = "8 word"
type_synonym byte_slice = "byte list option"
type_synonym int64 = "64 word"
type_synonym time = int

definition slice_bytes :: "byte_slice \<Rightarrow> byte list" where
  "slice_bytes s = (case s of None \<Rightarrow> [] | Some bs \<Rightarrow> bs)"

definition slice_len :: "byte_slice \<Rightarrow> nat" where
  "slice_len s = length (slice_bytes s)"

definition make_bytes :: "nat \<Rightarrow> byte list" where
  "make_bytes n = replicate n 0"

definition go_copy :: "'a list \<Rightarrow> 'a list \<Rightarrow> 'a list" where
  "go_copy dst src = take (length dst) src @ drop (length src) dst"

definition string_bytes :: "string \<Rightarrow> byte list" where
  "string_bytes s = map (\<lambda>c. of_nat (of_char c)) s"

lemma slice_bytes_simps [simp]:
  "slice_bytes None = []" "slice_bytes (Some bs) = bs"
  by (simp_all add: slice_bytes_def)

lemma length_go_copy [simp]: "length (go_copy dst src) = length dst"
  by (simp add: go_copy_def)

lemma go_copy_full: "length dst = length src \<Longrightarrow> go_copy dst src = src"
  by (simp add: go_copy_def)

lemma slice_len_simps [simp]: "slice_len None = 0" "slice_len (Some bs) = length bs"
  by (simp_all add: slice_len_def)

lemma copy_of_made_list [simp]: "go_copy (make_bytes (length bs)) bs = bs"
  by (simp add: go_copy_full make_bytes_def)

lemma copy_of_made [simp]: "go_copy (make_bytes (slice_len s)) (slice_bytes s) = slice_bytes s"
  by (simp add: go_copy_full make_bytes_def slice_len_def)

section \<open>Maps\<close>

definition map_slice :: "('k \<rightharpoonup> 'v list) \<Rightarrow> 'k \<Rightarrow> 'v list" where
  "map_slice m k = (case m k of None \<Rightarrow> [] | Some vs \<Rightarrow> vs)"

definition iteration_of :: "('k \<rightharpoonup> 'v) \<Rightarrow> 'k list \<Rightarrow> bool" where
  "iteration_of m ks \<longleftrightarrow> distinct ks \<and> set ks = dom m"

lemma map_slice_simps [simp]:
  "m k = None \<Longrightarrow> map_slice m k = []"
  "m k = Some vs \<Longrightarrow> map_slice m k = vs"
  "map_slice Map.empty k = []"
  by (simp_all add: map_slice_def)

lemma map_slice_upd [simp]:
  "map_slice (m(k \<mapsto> vs)) k' = (if k' = k then vs else map_slice m k')"
  by (simp add: map_slice_def)

lemma map_slice_del [simp]:
  "map_slice (m(k := None)) k' = (if k' = k then [] else map_slice m k')"
  by (simp add: map_slice_def)

lemma iteration_ofD:
  assumes "iteration_of m ks"
  shows "distinct ks" "set ks = dom m" "k \<in> set ks \<longleftrightarrow> m k \<noteq> None"
  using assms by (auto simp: iteration_of_def)

lemma iteration_of_empty [simp]: "iteration_of Map.empty ks \<longleftrightarrow> ks = []"
  by (auto simp: iteration_of_def)

section \<open>Loops over slices\<close>

text \<open>
  The loop \<open>for i, x := range xs { if P x { xs[i] = f x; break } }\<close>.
\<close>

fun update_first :: "('a \<Rightarrow> bool) \<Rightarrow> ('a \<Rightarrow> 'a) \<Rightarrow> 'a list \<Rightarrow> 'a list" where
  "update_first P f [] = []"
| "update_first P f (x # xs) = (if P x then f x # xs else x # update_first P f xs)"

lemma update_first_none: "(\<And>x. x \<in> set xs \<Longrightarrow> \<not> P x) \<Longrightarrow> update_first P f xs = xs"
  by (induction xs) auto

lemma map_update_first:
  "(\<And>x. P x \<Longrightarrow> g (f x) = g x) \<Longrightarrow> map g (update_first P f xs) = map g xs"
  by (induction xs) auto

lemma update_first_unique:
  assumes "distinct (map g xs)"
  shows "update_first (\<lambda>x. g x = k) f xs = map (\<lambda>x. if g x = k then f x else x) xs"
  using assms
proof (induction xs)
  case (Cons x xs)
  show ?case
  proof (cases "g x = k")
    case True
    with Cons.prems have "\<And>y. y \<in> set xs \<Longrightarrow> g y \<noteq> k" by (metis distinct.simps(2) image_eqI list.simps(9) set_map)
    with True show ?thesis by (simp add: map_idI)
  next
    case False
    with Cons show ?thesis by simp
  qed
qed simp

lemma update_first_eq_append:
  assumes "\<And>x. x \<in> set xs \<Longrightarrow> \<not> P x"
  shows "update_first P f (xs @ ys) = xs @ update_first P f ys"
  using assms by (induction xs) auto

section \<open>Panics and channels\<close>

datatype go_panic =
    CloseOfClosedChannel
  | InconsistentlyTypedStore
  | NilDereference

datatype signal_chan = ChanOpen | ChanClosed

fun close_chan :: "signal_chan \<Rightarrow> go_panic + signal_chan" where
  "close_chan ChanOpen = Inr ChanClosed"
| "close_chan ChanClosed = Inl CloseOfClosedChannel"

definition try_send :: "nat \<Rightarrow> 'a list \<Rightarrow> 'a \<Rightarrow> 'a list option" where
  "try_send cap q x = (if length q < cap then Some (q @ [x]) else None)"

fun try_recv :: "'a list \<Rightarrow> ('a \<times> 'a list) option" where
  "try_recv [] = None"
| "try_recv (x # q) = Some (x, q)"

lemma try_send_Some: "try_send cap q x = Some q' \<longleftrightarrow> length q < cap \<and> q' = q @ [x]"
  by (auto simp: try_send_def)

lemma try_recv_None: "try_recv q = None \<longleftrightarrow> q = []"
  by (cases q) simp_all

lemma try_recv_Some: "try_recv q = Some (x, q') \<longleftrightarrow> q = x # q'"
  by (cases q) auto

lemma try_send_bound: "try_send cap q x = Some q' \<Longrightarrow> length q' \<le> cap"
  by (auto simp: try_send_Some)

section \<open>Decimal rendering: the verb \<open>%d\<close>\<close>

definition digit_char :: "nat \<Rightarrow> char" where
  "digit_char d = char_of (48 + d)"

fun dec_of_nat :: "nat \<Rightarrow> string" where
  "dec_of_nat n =
     (if n < 10 then [digit_char n] else dec_of_nat (n div 10) @ [digit_char (n mod 10)])"

declare dec_of_nat.simps [simp del]

definition fmt_d :: "int \<Rightarrow> string" where
  "fmt_d i = (if i < 0 then ''-'' @ dec_of_nat (nat (- i)) else dec_of_nat (nat i))"

definition digit_val :: "char \<Rightarrow> nat" where
  "digit_val c = of_char c - 48"

definition nat_of_dec :: "string \<Rightarrow> nat" where
  "nat_of_dec s = foldl (\<lambda>n c. 10 * n + digit_val c) 0 s"

lemma digit_val_digit_char: "d < 10 \<Longrightarrow> digit_val (digit_char d) = d"
  by (simp add: digit_val_def digit_char_def)

lemma dec_of_nat_nonempty: "dec_of_nat n \<noteq> []"
  by (subst dec_of_nat.simps) simp

lemma dec_of_nat_roundtrip: "nat_of_dec (dec_of_nat n) = n"
proof (induction n rule: dec_of_nat.induct)
  case (1 n)
  then show ?case
    by (cases "n < 10")
       (simp_all add: dec_of_nat.simps [of n] nat_of_dec_def digit_val_digit_char)
qed

lemma dec_of_nat_inject: "dec_of_nat m = dec_of_nat n \<longleftrightarrow> m = n"
  by (metis dec_of_nat_roundtrip)

section \<open>Signed 64-bit integers\<close>

lemma sint_suc:
  assumes "sint (i::int64) < 2 ^ 63 - 1"
  shows "sint (i + 1) = sint i + 1"
proof -
  have "- (2 ^ 63) \<le> sint i" using sint_ge [of i] by simp
  with assms show ?thesis
    by (simp add: sint_word_add signed_take_bit_int_eq_self)
qed

lemma sint_of_int64: "- (2 ^ 63) \<le> k \<Longrightarrow> k < 2 ^ 63 \<Longrightarrow> sint (of_int k :: int64) = k"
  by (simp add: sint_sbintrunc' signed_take_bit_int_eq_self)

lemma sint_of_nat64: "int n < 2 ^ 63 \<Longrightarrow> sint (of_nat n :: int64) = int n"
  using sint_of_int64 [of "int n"] by simp

section \<open>Calendar rendering: \<open>t.UTC().Format(time.RFC3339)\<close>\<close>

text \<open>
  A \<open>time\<close> counts nanoseconds from the Unix epoch, in UTC. The date is computed from the
  number of days in the proleptic Gregorian calendar, in years that start on the first of March.
\<close>

definition civil_from_days :: "int \<Rightarrow> int \<times> int \<times> int" where
  "civil_from_days days =
     (let z = days + 719468; era = z div 146097; doe = z mod 146097;
          yoe = (doe - doe div 1460 + doe div 36524 - doe div 146096) div 365;
          doy = doe - (365 * yoe + yoe div 4 - yoe div 100);
          mp = (5 * doy + 2) div 153;
          d = doy - (153 * mp + 2) div 5 + 1;
          m = (if mp < 10 then mp + 3 else mp - 9);
          y = yoe + era * 400
      in (if m \<le> 2 then y + 1 else y, m, d))"

text \<open>The zero value of \<open>time.Time\<close>: the first of January of the year 1.\<close>

definition zero_time :: time where
  "zero_time = - 62135596800000000000"

definition pad_zeros :: "nat \<Rightarrow> string \<Rightarrow> string" where
  "pad_zeros n s = replicate (n - length s) CHR ''0'' @ s"

definition append_int :: "int \<Rightarrow> nat \<Rightarrow> string" where
  "append_int i width =
     (if i < 0 then ''-'' @ pad_zeros width (dec_of_nat (nat (- i))) else pad_zeros width (dec_of_nat (nat i)))"

definition format_rfc3339 :: "time \<Rightarrow> string" where
  "format_rfc3339 t =
     (let secs = t div 1000000000; days = secs div 86400; r = secs mod 86400;
          (y, m, d) = civil_from_days days
      in append_int y 4 @ ''-'' @ append_int m 2 @ ''-'' @ append_int d 2 @ ''T'' @
         append_int (r div 3600) 2 @ '':'' @ append_int (r mod 3600 div 60) 2 @ '':'' @
         append_int (r mod 60) 2 @ ''Z'')"

lemma format_rfc3339_examples:
  "format_rfc3339 0 = ''1970-01-01T00:00:00Z''"
  "format_rfc3339 1700000000123456789 = ''2023-11-14T22:13:20Z''"
  "format_rfc3339 951782400000000000 = ''2000-02-29T00:00:00Z''"
  by code_simp+

section \<open>Step relations and their invariants\<close>

inductive reachable :: "('s \<Rightarrow> bool) \<Rightarrow> ('s \<Rightarrow> 's \<Rightarrow> bool) \<Rightarrow> 's \<Rightarrow> bool"
  for init :: "'s \<Rightarrow> bool" and step :: "'s \<Rightarrow> 's \<Rightarrow> bool" where
  start: "init s \<Longrightarrow> reachable init step s"
| step: "reachable init step s \<Longrightarrow> step s t \<Longrightarrow> reachable init step t"

locale step_invariant =
  fixes init :: "'s \<Rightarrow> bool"
    and step :: "'s \<Rightarrow> 's \<Rightarrow> bool"
    and inv :: "'s \<Rightarrow> bool"
  assumes inv_init: "init s \<Longrightarrow> inv s"
    and inv_step: "inv s \<Longrightarrow> step s t \<Longrightarrow> inv t"
begin

lemma inv_reachable: "reachable init step s \<Longrightarrow> inv s"
  by (induction rule: reachable.induct) (blast intro: inv_init inv_step)+

lemma inv_rtranclp: "step\<^sup>*\<^sup>* s t \<Longrightarrow> inv s \<Longrightarrow> inv t"
  by (induction rule: rtranclp_induct) (blast intro: inv_step)+

end

lemma reachable_rtranclp:
  assumes "reachable init step s" and "step\<^sup>*\<^sup>* s t"
  shows "reachable init step t"
  using assms(2) by (induction rule: rtranclp_induct) (auto intro: assms(1) reachable.step)

text \<open>
  A forward simulation: each step of one system is matched by steps of the other, so that every
  reachable state is related to a reachable state there.
\<close>

locale forward_simulation =
  fixes start :: "'s \<Rightarrow> bool" and step :: "'s \<Rightarrow> 's \<Rightarrow> bool"
    and start' :: "'v \<Rightarrow> bool" and step' :: "'v \<Rightarrow> 'v \<Rightarrow> bool"
    and sim :: "'s \<Rightarrow> 'v \<Rightarrow> bool"
  assumes sim_start: "start s \<Longrightarrow> \<exists>v. start' v \<and> sim s v"
    and sim_step: "sim s v \<Longrightarrow> step s t \<Longrightarrow> \<exists>v'. step'\<^sup>*\<^sup>* v v' \<and> sim t v'"
begin

lemma simulated: "reachable start step s \<Longrightarrow> \<exists>v. reachable start' step' v \<and> sim s v"
proof (induction rule: reachable.induct)
  case (start s)
  then show ?case using sim_start by (blast intro: reachable.start)
next
  case (step s t)
  then obtain v v' where v: "reachable start' step' v" "step'\<^sup>*\<^sup>* v v'" "sim t v'" using sim_step by blast
  from reachable_rtranclp [OF v(1,2)] v(3) show ?case by blast
qed

end

text \<open>
  A functional refinement: an object whose methods return a response and a new state answers
  every call as its specification does, so it answers every sequence of calls so.
\<close>

fun run_calls :: "('op \<Rightarrow> 's \<Rightarrow> 'r \<times> 's) \<Rightarrow> 'op list \<Rightarrow> 's \<Rightarrow> 'r list \<times> 's" where
  "run_calls call [] s = ([], s)"
| "run_calls call (op # ops) s =
     (let (r, s') = call op s; (rs, s'') = run_calls call ops s' in (r # rs, s''))"

locale functional_refinement =
  fixes call :: "'op \<Rightarrow> 's \<Rightarrow> 'r \<times> 's"
    and spec :: "'op \<Rightarrow> 'a \<Rightarrow> 'r \<times> 'a"
    and abstract :: "'s \<Rightarrow> 'a"
    and inv :: "'s \<Rightarrow> bool"
  assumes call_inv: "inv s \<Longrightarrow> inv (snd (call op s))"
    and call_refines: "inv s \<Longrightarrow> spec op (abstract s) = (fst (call op s), abstract (snd (call op s)))"
begin

lemma run_refines:
  "inv s \<Longrightarrow> run_calls spec ops (abstract s) =
     (fst (run_calls call ops s), abstract (snd (run_calls call ops s)))"
proof (induction ops arbitrary: s)
  case (Cons op ops)
  from Cons.IH [OF call_inv [OF Cons.prems]] call_refines [OF Cons.prems, of op] show ?case
    by (simp add: case_prod_unfold Let_def)
qed simp

end

end
