(* ===== verification/I18n.thy ===== *)
theory I18n
  imports Messaging_Prelude
begin

text \<open>
  The translation seam: \<open>pkg/i18n/translator.go\<close> (the \<open>Translator\<close> interface and its
  \<open>NoopTranslator\<close>) and the package-level wiring of \<open>pkg/broker/i18n_wiring.go\<close>, which
  keeps the active translator in a \<open>sync/atomic.Value\<close>.

  An interface value is a concrete type and the behaviour of its method \<open>T\<close>.
  \<open>NoopTranslator\<close> has no fields, so its behaviour is fixed; any other implementation is an
  \<open>OtherTranslator\<close> with the name of its type and an arbitrary \<open>T\<close>. An
  \<open>atomic.Value\<close> accepts only values of the concrete type it first received
  (\<open>Store\<close> panics otherwise); \<^const>\<open>None\<close> is the value before the first \<open>Store\<close>.
  Parameters of \<open>T\<close> are a map from names to values; the type variable is the type of
  error values, which are among them.
\<close>

section \<open>The Translator interface\<close>

datatype 'e any = AnyInt int | AnyString string | AnyError 'e

type_synonym 'e params = "string \<rightharpoonup> 'e any"

datatype 'e Translator =
    NoopTranslator
  | OtherTranslator string "string \<Rightarrow> 'e params \<Rightarrow> string"

fun T :: "'e Translator \<Rightarrow> string \<Rightarrow> 'e params \<Rightarrow> string" where
  "T NoopTranslator key ps = key"
| "T (OtherTranslator ty f) key ps = f key ps"

datatype go_type = TypeNoop | TypeOther string

fun concrete_type :: "'e Translator \<Rightarrow> go_type" where
  "concrete_type NoopTranslator = TypeNoop"
| "concrete_type (OtherTranslator ty f) = TypeOther ty"

section \<open>The package-level translator\<close>

type_synonym 'e atomic_value = "'e Translator option"

fun atomic_Store :: "'e atomic_value \<Rightarrow> 'e Translator \<Rightarrow> go_panic + 'e atomic_value" where
  "atomic_Store None t = Inr (Some t)"
| "atomic_Store (Some t0) t =
     (if concrete_type t0 = concrete_type t then Inr (Some t) else Inl InconsistentlyTypedStore)"

definition resetTranslator :: "'e atomic_value \<Rightarrow> go_panic + 'e atomic_value" where
  "resetTranslator v = atomic_Store v NoopTranslator"

definition SetTranslator ::
  "'e atomic_value \<Rightarrow> 'e Translator option \<Rightarrow> go_panic + 'e atomic_value" where
  "SetTranslator v t = (case t of None \<Rightarrow> resetTranslator v | Some t' \<Rightarrow> atomic_Store v t')"

definition tr :: "'e atomic_value \<Rightarrow> 'e Translator" where
  "tr v = (case v of None \<Rightarrow> NoopTranslator | Some t \<Rightarrow> t)"

text \<open>
  The package variable after \<open>init()\<close> and a sequence of \<open>SetTranslator\<close> calls; a call
  that panics leaves the stored value as it was.
\<close>

fun pkg_run :: "'e atomic_value \<Rightarrow> 'e Translator option list \<Rightarrow> 'e atomic_value" where
  "pkg_run v [] = v"
| "pkg_run v (t # ts) =
     (case SetTranslator v t of Inl p \<Rightarrow> pkg_run v ts | Inr v' \<Rightarrow> pkg_run v' ts)"

definition pkg_init :: "'e atomic_value" where
  "pkg_init = (case resetTranslator None of Inl p \<Rightarrow> None | Inr v \<Rightarrow> v)"

lemma concrete_type_Noop [simp]: "concrete_type t = TypeNoop \<longleftrightarrow> t = NoopTranslator"
  by (cases t) auto

lemma pkg_init_simp [simp]: "pkg_init = Some NoopTranslator"
  by (simp add: pkg_init_def resetTranslator_def)

lemma tr_simps [simp]: "tr None = NoopTranslator" "tr (Some t) = t"
  by (simp_all add: tr_def)

lemma SetTranslator_from_Noop:
  "SetTranslator (Some NoopTranslator) t =
     (if t = None \<or> t = Some NoopTranslator then Inr (Some NoopTranslator)
      else Inl InconsistentlyTypedStore)"
proof (cases t)
  case None
  then show ?thesis by (simp add: SetTranslator_def resetTranslator_def)
next
  case (Some t')
  then show ?thesis by (cases t') (simp_all add: SetTranslator_def)
qed

lemma pkg_run_Noop [simp]: "pkg_run (Some NoopTranslator) ts = Some NoopTranslator"
  by (induction ts) (simp_all add: SetTranslator_from_Noop split: if_splits)

end
