(* ===== verification/Errors.thy ===== *)
theory Errors
  imports I18n
begin

text \<open>
  The error system of \<open>pkg/broker/errors.go\<close>: error codes, sentinel errors,
  \<open>BrokerError\<close>, \<open>MultiError\<close>, and the classification helpers, together with the parts
  of the standard packages \<open>errors\<close> and \<open>fmt\<close> they use.

  A non-nil Go \<open>error\<close> is a \<open>go_error\<close>; the nil error is \<^const>\<open>None\<close> of
  \<open>go_error option\<close>. \<open>ErrorString\<close> stands for any error without an \<open>Unwrap\<close> or
  \<open>Is\<close> method that is not one of the sentinels (\<open>errors.New\<close>, \<open>fmt.Errorf\<close>
  without \<open>%w\<close>, the errors of user code), \<open>WrapError\<close> for \<open>fmt.Errorf\<close> with
  \<open>%w\<close>. \<open>errors.Is\<close> is modelled at the targets whose comparison does not depend on
  the identity of a heap object: the sentinels, and \<open>*BrokerError\<close> values, which
  \<open>BrokerError.Is\<close> compares by code.
\<close>

section \<open>Codes and sentinels\<close>

type_synonym ErrorCode = string

definition ErrCodeConnectionFailed :: ErrorCode where "ErrCodeConnectionFailed = ''CONNECTION_FAILED''"
definition ErrCodeConnectionClosed :: ErrorCode where "ErrCodeConnectionClosed = ''CONNECTION_CLOSED''"
definition ErrCodeConnectionTimeout :: ErrorCode where "ErrCodeConnectionTimeout = ''CONNECTION_TIMEOUT''"
definition ErrCodeAuthFailed :: ErrorCode where "ErrCodeAuthFailed = ''AUTHENTICATION_FAILED''"
definition ErrCodePublishFailed :: ErrorCode where "ErrCodePublishFailed = ''PUBLISH_FAILED''"
definition ErrCodePublishTimeout :: ErrorCode where "ErrCodePublishTimeout = ''PUBLISH_TIMEOUT''"
definition ErrCodeSubscribeFailed :: ErrorCode where "ErrCodeSubscribeFailed = ''SUBSCRIBE_FAILED''"
definition ErrCodeConsumerCanceled :: ErrorCode where "ErrCodeConsumerCanceled = ''CONSUMER_CANCELED''"
definition ErrCodeHandlerError :: ErrorCode where "ErrCodeHandlerError = ''HANDLER_ERROR''"
definition ErrCodeMessageTooLarge :: ErrorCode where "ErrCodeMessageTooLarge = ''MESSAGE_TOO_LARGE''"
definition ErrCodeMessageExpired :: ErrorCode where "ErrCodeMessageExpired = ''MESSAGE_EXPIRED''"
definition ErrCodeMessageInvalid :: ErrorCode where "ErrCodeMessageInvalid = ''MESSAGE_INVALID''"
definition ErrCodeInvalidConfig :: ErrorCode where "ErrCodeInvalidConfig = ''INVALID_CONFIG''"
definition ErrCodeBrokerUnavailable :: ErrorCode where "ErrCodeBrokerUnavailable = ''BROKER_UNAVAILABLE''"
definition ErrCodeOperationCanceled :: ErrorCode where "ErrCodeOperationCanceled = ''OPERATION_CANCELED''"

lemmas code_defs = ErrCodeConnectionFailed_def ErrCodeConnectionClosed_def
  ErrCodeConnectionTimeout_def ErrCodeAuthFailed_def ErrCodePublishFailed_def
  ErrCodePublishTimeout_def ErrCodeSubscribeFailed_def ErrCodeConsumerCanceled_def
  ErrCodeHandlerError_def ErrCodeMessageTooLarge_def ErrCodeMessageExpired_def
  ErrCodeMessageInvalid_def ErrCodeInvalidConfig_def ErrCodeBrokerUnavailable_def
  ErrCodeOperationCanceled_def

datatype sentinel =
    ErrConnectionFailed | ErrConnectionClosed | ErrConnectionTimeout | ErrAuthFailed
  | ErrNotConnected | ErrPublishFailed | ErrPublishTimeout | ErrSubscribeFailed
  | ErrConsumerCanceled | ErrHandlerError | ErrMessageTooLarge | ErrMessageExpired
  | ErrMessageInvalid | ErrInvalidConfig | ErrBrokerUnavailable | ErrOperationCanceled
  | ErrTopicNotFound | ErrQueueNotFound

fun sentinel_text :: "sentinel \<Rightarrow> string" where
  "sentinel_text ErrConnectionFailed = ''connection failed''"
| "sentinel_text ErrConnectionClosed = ''connection closed''"
| "sentinel_text ErrConnectionTimeout = ''connection timeout''"
| "sentinel_text ErrAuthFailed = ''authentication failed''"
| "sentinel_text ErrNotConnected = ''not connected to broker''"
| "sentinel_text ErrPublishFailed = ''publish failed''"
| "sentinel_text ErrPublishTimeout = ''publish timeout''"
| "sentinel_text ErrSubscribeFailed = ''subscribe failed''"
| "sentinel_text ErrConsumerCanceled = ''consumer canceled''"
| "sentinel_text ErrHandlerError = ''message handler error''"
| "sentinel_text ErrMessageTooLarge = ''message too large''"
| "sentinel_text ErrMessageExpired = ''message expired''"
| "sentinel_text ErrMessageInvalid = ''invalid message''"
| "sentinel_text ErrInvalidConfig = ''invalid configuration''"
| "sentinel_text ErrBrokerUnavailable = ''broker unavailable''"
| "sentinel_text ErrOperationCanceled = ''operation canceled''"
| "sentinel_text ErrTopicNotFound = ''topic not found''"
| "sentinel_text ErrQueueNotFound = ''queue not found''"

section \<open>Error values\<close>

datatype go_error =
    Sentinel sentinel
  | ErrorString string
  | WrapError string go_error
  | BrokerError (Code: ErrorCode) (ErrMessage: string) (Cause: "go_error option") (Retryable: bool)
  | MultiError "go_error option list"

fun isRetryable :: "ErrorCode \<Rightarrow> bool" where
  "isRetryable code =
     (code = ErrCodeConnectionFailed \<or> code = ErrCodeConnectionTimeout \<or>
      code = ErrCodePublishTimeout \<or> code = ErrCodeBrokerUnavailable)"

definition NewBrokerError :: "ErrorCode \<Rightarrow> string \<Rightarrow> go_error option \<Rightarrow> go_error" where
  "NewBrokerError code message cause = BrokerError code message cause (isRetryable code)"

text \<open>\<open>Unwrap\<close>: the next error of the chain, for every kind of error.\<close>

fun BrokerError_Unwrap :: "go_error \<Rightarrow> go_error option" where
  "BrokerError_Unwrap (BrokerError code message cause r) = cause"
| "BrokerError_Unwrap _ = None"

fun MultiError_Unwrap :: "go_error option list \<Rightarrow> go_error option" where
  "MultiError_Unwrap [] = None"
| "MultiError_Unwrap (e # es) = e"

fun errors_Unwrap :: "go_error \<Rightarrow> go_error option" where
  "errors_Unwrap (WrapError s e) = Some e"
| "errors_Unwrap (BrokerError code message cause r) =
     BrokerError_Unwrap (BrokerError code message cause r)"
| "errors_Unwrap (MultiError es) = MultiError_Unwrap es"
| "errors_Unwrap _ = None"

lemma MultiError_Unwrap_size:
  "MultiError_Unwrap es = Some e \<Longrightarrow> size e < Suc (size_list (size_option size) es)"
  by (cases es) auto

lemma errors_Unwrap_size: "errors_Unwrap e = Some e' \<Longrightarrow> size e' < size e"
  by (cases e) (auto dest: MultiError_Unwrap_size)

section \<open>\<open>errors.Is\<close> and \<open>errors.As\<close>\<close>

datatype is_target = TargetSentinel sentinel | TargetBroker ErrorCode

text \<open>
  \<open>errors.Is\<close>: compare, ask the error's own \<open>Is\<close> method, then unwrap. The \<open>Is\<close>
  method of \<open>BrokerError\<close> compares codes when the target is a \<open>*BrokerError\<close> and
  otherwise calls \<open>errors.Is\<close> on the cause: the search is its first argument, and \<open>errors_Is\<close>
  passes itself. No other error of the package has the method.
\<close>

fun BrokerError_Is :: "(go_error \<Rightarrow> is_target \<Rightarrow> bool) \<Rightarrow> go_error \<Rightarrow> is_target \<Rightarrow> bool" where
  "BrokerError_Is search (BrokerError code message cause r) target =
     (case target of
        TargetBroker code' \<Rightarrow> code = code'
      | TargetSentinel s \<Rightarrow> (case cause of None \<Rightarrow> False | Some e \<Rightarrow> search e target))"
| "BrokerError_Is search _ target = False"

lemma BrokerError_Is_cong [fundef_cong]:
  assumes "err = err'" and "target = target'"
    and "\<And>code m e r. err' = BrokerError code m (Some e) r \<Longrightarrow> search e target' = search' e target'"
  shows "BrokerError_Is search err target = BrokerError_Is search' err' target'"
  using assms by (cases err') (auto split: is_target.split option.split)

function errors_Is :: "go_error \<Rightarrow> is_target \<Rightarrow> bool" where
  "errors_Is err target =
     ((case err of
         Sentinel s \<Rightarrow> target = TargetSentinel s
       | BrokerError code message cause r \<Rightarrow> BrokerError_Is errors_Is err target
       | _ \<Rightarrow> False)
      \<or> (case errors_Unwrap err of None \<Rightarrow> False | Some e \<Rightarrow> errors_Is e target))"
  by pat_completeness auto
termination
  by (relation "measure (\<lambda>(e, t). size e)") (auto dest: errors_Unwrap_size MultiError_Unwrap_size)

declare errors_Is.simps [simp del]

function errors_As_Broker :: "go_error \<Rightarrow> go_error option" where
  "errors_As_Broker err =
     (case err of
        BrokerError code message cause r \<Rightarrow> Some err
      | _ \<Rightarrow> (case errors_Unwrap err of None \<Rightarrow> None | Some e \<Rightarrow> errors_As_Broker e))"
  by pat_completeness auto
termination
  by (relation "measure size") (auto dest: errors_Unwrap_size MultiError_Unwrap_size)

declare errors_As_Broker.simps [simp del]

definition IsBrokerError :: "go_error option \<Rightarrow> bool" where
  "IsBrokerError err = (case err of None \<Rightarrow> False | Some e \<Rightarrow> errors_As_Broker e \<noteq> None)"

definition GetBrokerError :: "go_error option \<Rightarrow> go_error option" where
  "GetBrokerError err = (case err of None \<Rightarrow> None | Some e \<Rightarrow> errors_As_Broker e)"

definition IsRetryableError :: "go_error option \<Rightarrow> bool" where
  "IsRetryableError err = (case GetBrokerError err of Some be \<Rightarrow> Retryable be | None \<Rightarrow> False)"

definition errors_Is_opt :: "go_error option \<Rightarrow> is_target \<Rightarrow> bool" where
  "errors_Is_opt err target = (case err of None \<Rightarrow> False | Some e \<Rightarrow> errors_Is e target)"

definition IsConnectionError :: "go_error option \<Rightarrow> bool" where
  "IsConnectionError err =
     ((case GetBrokerError err of
         Some be \<Rightarrow>
           Code be = ErrCodeConnectionFailed \<or> Code be = ErrCodeConnectionClosed \<or>
           Code be = ErrCodeConnectionTimeout \<or> Code be = ErrCodeAuthFailed
       | None \<Rightarrow> False)
      \<or> errors_Is_opt err (TargetSentinel ErrConnectionFailed)
      \<or> errors_Is_opt err (TargetSentinel ErrConnectionClosed)
      \<or> errors_Is_opt err (TargetSentinel ErrConnectionTimeout))"

section \<open>Rendering\<close>

type_synonym translator = "go_error option Translator"

definition panic_text :: string where
  "panic_text =
     ''%!v(PANIC=Error method: runtime error: invalid memory address or nil pointer dereference)''"

text \<open>
  The verb \<open>%v\<close> applied to an error prints what its \<open>Error\<close> method returns, and
  reports a panic of that method in the text.
\<close>

definition fmt_v :: "go_panic + string \<Rightarrow> string" where
  "fmt_v r = (case r of Inr s \<Rightarrow> s | Inl p \<Rightarrow> panic_text)"

definition multi_error_key :: string where
  "multi_error_key = ''messaging_broker_multi_error''"

fun Error :: "translator \<Rightarrow> go_error \<Rightarrow> go_panic + string" where
  "Error tn (Sentinel s) = Inr (sentinel_text s)"
| "Error tn (ErrorString s) = Inr s"
| "Error tn (WrapError s e) = Inr s"
| "Error tn (BrokerError code message None r) = Inr (''['' @ code @ ''] '' @ message)"
| "Error tn (BrokerError code message (Some c) r) =
     Inr (''['' @ code @ ''] '' @ message @ '': '' @ fmt_v (Error tn c))"
| "Error tn (MultiError []) = Inr ''no errors''"
| "Error tn (MultiError [None]) = Inl NilDereference"
| "Error tn (MultiError [Some e]) = Error tn e"
| "Error tn (MultiError (e # e' # es)) =
     (let n = int (length (e # e' # es));
          rendered = T tn multi_error_key
            [''count'' \<mapsto> AnyInt n, ''first'' \<mapsto> AnyError e]
      in if rendered = multi_error_key
         then Inr (''multiple errors ('' @ fmt_d n @ ''): '' @
                   (case e of None \<Rightarrow> ''<nil>'' | Some f \<Rightarrow> fmt_v (Error tn f)))
         else Inr rendered)"

text \<open>\<open>fmt.Errorf("prefix: %w", err)\<close>\<close>

definition Errorf_w :: "translator \<Rightarrow> string \<Rightarrow> go_error \<Rightarrow> go_error" where
  "Errorf_w tn prefix e = WrapError (prefix @ '': '' @ fmt_v (Error tn e)) e"

section \<open>MultiError\<close>

definition NewMultiError :: "go_error option list \<Rightarrow> go_error option list" where
  "NewMultiError errs = errs"

definition MultiError_Add :: "go_error option list \<Rightarrow> go_error option \<Rightarrow> go_error option list" where
  "MultiError_Add errs err = (case err of None \<Rightarrow> errs | Some e \<Rightarrow> errs @ [Some e])"

definition MultiError_HasErrors :: "go_error option list \<Rightarrow> bool" where
  "MultiError_HasErrors errs \<longleftrightarrow> length errs > 0"

definition MultiError_ErrorOrNil :: "go_error option list \<Rightarrow> go_error option" where
  "MultiError_ErrorOrNil errs = (if MultiError_HasErrors errs then Some (MultiError errs) else None)"

section \<open>The chain of an error\<close>

text \<open>
  The reference against which the searches are proved, read off the values alone: a wrapped error
  is followed by what it wraps, a \<open>BrokerError\<close> by its cause, an aggregate by its first error.
  \<open>matches\<close> tells which errors match a target by themselves.
\<close>

fun error_chain :: "go_error \<Rightarrow> go_error list" where
  "error_chain (Sentinel s) = [Sentinel s]"
| "error_chain (ErrorString t) = [ErrorString t]"
| "error_chain (WrapError t e) = WrapError t e # error_chain e"
| "error_chain (BrokerError code m cause r) =
     BrokerError code m cause r # (case cause of None \<Rightarrow> [] | Some e \<Rightarrow> error_chain e)"
| "error_chain (MultiError []) = [MultiError []]"
| "error_chain (MultiError (None # es)) = [MultiError (None # es)]"
| "error_chain (MultiError (Some e # es)) = MultiError (Some e # es) # error_chain e"

fun matches :: "is_target \<Rightarrow> go_error \<Rightarrow> bool" where
  "matches (TargetSentinel s) (Sentinel s') = (s = s')"
| "matches (TargetBroker c) (BrokerError code message cause r) = (c = code)"
| "matches _ _ = False"

fun is_broker :: "go_error \<Rightarrow> bool" where
  "is_broker (BrokerError code message cause r) = True"
| "is_broker _ = False"

lemma errors_Is_chain: "errors_Is err target \<longleftrightarrow> (\<exists>e \<in> set (error_chain err). matches target e)"
  by (induction err rule: error_chain.induct; subst errors_Is.simps; cases target) (auto split: option.splits)

lemma errors_As_Broker_chain: "errors_As_Broker err = find is_broker (error_chain err)"
  by (induction err rule: error_chain.induct; subst errors_As_Broker.simps) (auto split: option.splits)

section \<open>Classification of wrapped and aggregated errors\<close>

lemma errors_Is_simps [simp]:
  "errors_Is (Sentinel s) t \<longleftrightarrow> t = TargetSentinel s"
  "\<not> errors_Is (ErrorString m) t"
  "errors_Is (WrapError m e) t \<longleftrightarrow> errors_Is e t"
  "errors_Is (MultiError []) t \<longleftrightarrow> False"
  "errors_Is (MultiError (None # es)) t \<longleftrightarrow> False"
  "errors_Is (MultiError (Some e # es)) t \<longleftrightarrow> errors_Is e t"
  by (cases t; auto simp: errors_Is_chain)+

lemma errors_Is_Broker_simps [simp]:
  "errors_Is (BrokerError code m cause r) (TargetSentinel s) \<longleftrightarrow>
     (\<exists>c. cause = Some c \<and> errors_Is c (TargetSentinel s))"
  "errors_Is (BrokerError code m cause r) (TargetBroker code') \<longleftrightarrow>
     code = code' \<or> (\<exists>c. cause = Some c \<and> errors_Is c (TargetBroker code'))"
  by (cases cause; auto simp: errors_Is_chain)+

lemma errors_As_Broker_simps [simp]:
  "errors_As_Broker (Sentinel s) = None"
  "errors_As_Broker (ErrorString m) = None"
  "errors_As_Broker (WrapError m e) = errors_As_Broker e"
  "errors_As_Broker (BrokerError code m cause r) = Some (BrokerError code m cause r)"
  "errors_As_Broker (MultiError []) = None"
  "errors_As_Broker (MultiError (None # es)) = None"
  "errors_As_Broker (MultiError (Some e # es)) = errors_As_Broker e"
  by (cases "cause"; simp add: errors_As_Broker_chain)+

lemmas error_class_defs = IsBrokerError_def GetBrokerError_def IsRetryableError_def
  IsConnectionError_def errors_Is_opt_def NewBrokerError_def

lemma IsRetryableError_simps [simp]:
  "\<not> IsRetryableError None"
  "\<not> IsRetryableError (Some (Sentinel s))"
  "\<not> IsRetryableError (Some (ErrorString m))"
  "IsRetryableError (Some (WrapError m e)) = IsRetryableError (Some e)"
  "IsRetryableError (Some (BrokerError code m cause r)) = r"
  by (simp_all add: error_class_defs)

lemma fmt_v_simps [simp]: "fmt_v (Inr s) = s" "fmt_v (Inl p) = panic_text"
  by (simp_all add: fmt_v_def)

lemma MultiError_ErrorOrNil_simps [simp]:
  "MultiError_ErrorOrNil [] = None"
  "MultiError_ErrorOrNil (e # es) = Some (MultiError (e # es))"
  by (simp_all add: MultiError_ErrorOrNil_def MultiError_HasErrors_def)

lemma MultiError_Add_simps [simp]:
  "MultiError_Add errs None = errs"
  "MultiError_Add errs (Some e) = errs @ [Some e]"
  by (simp_all add: MultiError_Add_def)

section \<open>Properties\<close>

text \<open>
  C34: the searches follow the chain of an error. Start from any error and go from a wrapped error
  to what it wraps, from a \<open>BrokerError\<close> to its cause and from an aggregate to its first error.
  \<open>errors.Is\<close>, with the \<open>Is\<close> and \<open>Unwrap\<close> methods of the package in its loop, succeeds exactly when one of
  these errors is the sentinel sought or a \<open>BrokerError\<close> with the code sought; \<open>GetBrokerError\<close>
  returns the first \<open>BrokerError\<close> among them, and \<open>IsBrokerError\<close> tells whether there is one.
\<close>

theorem error_searches_follow_the_chain:
  "(errors_Is err target \<longleftrightarrow> (\<exists>e \<in> set (error_chain err). matches target e)) \<and>
   GetBrokerError (Some err) = find is_broker (error_chain err) \<and>
   IsBrokerError (Some err) = list_ex is_broker (error_chain err)"
proof -
  have "(find is_broker es \<noteq> None) = list_ex is_broker es" for es
    by (induction es) auto
  then show ?thesis
    by (simp add: errors_Is_chain errors_As_Broker_chain GetBrokerError_def IsBrokerError_def)
qed

text \<open>
  The error code of a new \<open>BrokerError\<close> alone decides whether it is retryable, whatever
  its cause and however often it is wrapped with \<open>%w\<close>: exactly the four transient codes are.
\<close>

lemma retryable_by_code:
  "IsRetryableError (Some (Errorf_w tn prefix (NewBrokerError code m cause))) \<longleftrightarrow>
     code \<in> {ErrCodeConnectionFailed, ErrCodeConnectionTimeout, ErrCodePublishTimeout,
             ErrCodeBrokerUnavailable}"
  by (simp add: Errorf_w_def NewBrokerError_def)

text \<open>
  A \<open>BrokerError\<close> is a connection error exactly when its code is one of the four
  connection codes or its cause is one of three sentinels. The sentinel
  \<open>ErrAuthFailed\<close> itself is not recognised, although its code is.
\<close>

lemma connection_error_by_code_or_cause:
  "(IsConnectionError (Some (NewBrokerError code m cause)) \<longleftrightarrow>
      code \<in> {ErrCodeConnectionFailed, ErrCodeConnectionClosed, ErrCodeConnectionTimeout,
              ErrCodeAuthFailed} \<or>
      (\<exists>c s. cause = Some c \<and> errors_Is c (TargetSentinel s) \<and>
             s \<in> {ErrConnectionFailed, ErrConnectionClosed, ErrConnectionTimeout})) \<and>
   \<not> IsConnectionError (Some (Sentinel ErrAuthFailed))"
  by (auto simp: error_class_defs)

text \<open>
  An aggregated error exposes its first error only. Classification and search see the
  first element, later ones never matter, and with the default translator the text of two or
  more errors is the legacy message with their number and the first error's text.
\<close>

lemma multi_error_exposes_first:
  "IsRetryableError (Some (MultiError (Some e # es))) = IsRetryableError (Some e) \<and>
   errors_Is (MultiError (Some e # es)) target = errors_Is e target \<and>
   Error NoopTranslator (MultiError (Some e # e' # es)) =
     Inr (''multiple errors ('' @ fmt_d (int (length es) + 2) @ ''): '' @
          fmt_v (Error NoopTranslator e))"
  by (simp add: error_class_defs add.commute)

text \<open>
  C35: \<open>SetTranslator\<close> cannot install a translator. \<open>init\<close> stores a
  \<open>NoopTranslator\<close> in the \<open>atomic.Value\<close>, so a call with any other implementation
  panics, and after every sequence of calls \<open>tr\<close> still returns the \<open>NoopTranslator\<close>.
\<close>

theorem SetTranslator_never_takes_effect:
  "SetTranslator (pkg_run pkg_init calls) (Some (OtherTranslator ty f)) =
     Inl InconsistentlyTypedStore \<and>
   tr (pkg_run pkg_init calls) = NoopTranslator"
  by (simp add: SetTranslator_from_Noop)

end
