(* ===== verification/Message.thy ===== *)
theory Message
  imports Errors
begin

text \<open>
  The core types of \<open>pkg/broker/broker.go\<close>: broker types, the \<open>Message\<close> struct with its
  constructors and methods, the common broker \<open>Config\<close>; and the parts of the run-time
  environment that the components share: the UUID generator and the clock (parameters of the
  model, collected in a \<open>runtime\<close>) and contexts.

  A message is the value behind a \<open>*Message\<close>. Methods that mutate the receiver return the
  updated value. \<open>Key\<close> and \<open>Value\<close> keep the difference between a nil and an empty
  slice, \<open>Headers\<close> the one between a nil and an empty map.
\<close>

section \<open>Run-time environment\<close>

text \<open>
  \<open>uuid.New().String()\<close> and \<open>time.Now().UTC()\<close> are read at a counter that grows with
  every call, so that two calls of a run are two different readings.
\<close>

record runtime =
  uuid_New :: "nat \<Rightarrow> string"
  time_Now :: "nat \<Rightarrow> time"

definition unique_uuids :: "runtime \<Rightarrow> bool" where
  "unique_uuids rt \<longleftrightarrow> inj (uuid_New rt)"

text \<open>A concrete environment, at which the hypotheses of the theorems are seen to hold.\<close>

definition rt_example :: runtime where
  "rt_example = \<lparr>uuid_New = (\<lambda>n. replicate n CHR ''u''), time_Now = int\<rparr>"

lemma unique_uuids_example [simp]: "unique_uuids rt_example"
  by (auto simp: unique_uuids_def rt_example_def inj_def dest: arg_cong [where f = length])

record go_context =
  ctx_deadline :: "time option"
  ctx_err :: "go_error option"

definition context_Background :: go_context where
  "context_Background = \<lparr>ctx_deadline = None, ctx_err = None\<rparr>"

definition WithTimeout :: "time \<Rightarrow> go_context \<Rightarrow> int64 \<Rightarrow> go_context" where
  "WithTimeout now ctx timeout =
     ctx\<lparr>ctx_deadline :=
       (case ctx_deadline ctx of
          None \<Rightarrow> Some (now + sint timeout)
        | Some d \<Rightarrow> Some (min d (now + sint timeout)))\<rparr>"

section \<open>Broker types\<close>

type_synonym BrokerType = string

definition BrokerTypeKafka :: BrokerType where "BrokerTypeKafka = ''kafka''"
definition BrokerTypeRabbitMQ :: BrokerType where "BrokerTypeRabbitMQ = ''rabbitmq''"
definition BrokerTypeInMemory :: BrokerType where "BrokerTypeInMemory = ''inmemory''"

definition BrokerType_String :: "BrokerType \<Rightarrow> string" where
  "BrokerType_String bt = bt"

definition BrokerType_IsValid :: "BrokerType \<Rightarrow> bool" where
  "BrokerType_IsValid bt \<longleftrightarrow>
     bt = BrokerTypeKafka \<or> bt = BrokerTypeRabbitMQ \<or> bt = BrokerTypeInMemory"

section \<open>Messages\<close>

record message =
  ID :: string
  Topic :: string
  Key :: byte_slice
  Value :: byte_slice
  Headers :: "(string \<rightharpoonup> string) option"
  Timestamp :: time

definition NewMessage :: "string \<Rightarrow> time \<Rightarrow> string \<Rightarrow> byte_slice \<Rightarrow> message" where
  "NewMessage uid now topic val =
     \<lparr>ID = uid, Topic = topic, Key = None, Value = val, Headers = Some Map.empty, Timestamp = now\<rparr>"

definition NewMessageWithKey ::
  "string \<Rightarrow> time \<Rightarrow> string \<Rightarrow> byte_slice \<Rightarrow> byte_slice \<Rightarrow> message" where
  "NewMessageWithKey uid now topic key val = (NewMessage uid now topic val)\<lparr>Key := key\<rparr>"

definition NewMessageWithID ::
  "string \<Rightarrow> time \<Rightarrow> string \<Rightarrow> string \<Rightarrow> byte_slice \<Rightarrow> message" where
  "NewMessageWithID uid now mid topic val = (NewMessage uid now topic val)\<lparr>ID := mid\<rparr>"

definition SetHeader :: "string \<Rightarrow> string \<Rightarrow> message \<Rightarrow> message" where
  "SetHeader key val m =
     (let m' = (case Headers m of None \<Rightarrow> m\<lparr>Headers := Some Map.empty\<rparr> | Some h \<Rightarrow> m)
      in m'\<lparr>Headers := map_option (\<lambda>h. h(key \<mapsto> val)) (Headers m')\<rparr>)"

definition GetHeader :: "message \<Rightarrow> string \<Rightarrow> string" where
  "GetHeader m key =
     (case Headers m of
        None \<Rightarrow> ''''
      | Some h \<Rightarrow> (case h key of None \<Rightarrow> '''' | Some v \<Rightarrow> v))"

definition WithKey :: "byte_slice \<Rightarrow> message \<Rightarrow> message" where
  "WithKey key m = m\<lparr>Key := key\<rparr>"

definition WithStringKey :: "string \<Rightarrow> message \<Rightarrow> message" where
  "WithStringKey key m = m\<lparr>Key := Some (string_bytes key)\<rparr>"

definition Clone :: "message \<Rightarrow> message" where
  "Clone m =
     \<lparr>ID = ID m, Topic = Topic m,
      Key = Some (go_copy (make_bytes (slice_len (Key m))) (slice_bytes (Key m))),
      Value = Some (go_copy (make_bytes (slice_len (Value m))) (slice_bytes (Value m))),
      Headers = Headers m,
      Timestamp = Timestamp m\<rparr>"

section \<open>The common configuration\<close>

record broker_Config =
  Brokers :: "string list"
  ClientID :: string

fun has_empty :: "string list \<Rightarrow> bool" where
  "has_empty [] = False"
| "has_empty (b # bs) = (if b = '''' then True else has_empty bs)"

definition broker_Config_Validate :: "broker_Config \<Rightarrow> go_error option" where
  "broker_Config_Validate c =
     (if length (Brokers c) = 0 then Some (Sentinel ErrInvalidConfig)
      else if has_empty (Brokers c) then Some (Sentinel ErrInvalidConfig)
      else if ClientID c = '''' then Some (Sentinel ErrInvalidConfig)
      else None)"

definition broker_DefaultConfig :: broker_Config where
  "broker_DefaultConfig = \<lparr>Brokers = [''localhost:9092''], ClientID = ''messaging-client''\<rparr>"

lemma has_empty_iff: "has_empty bs \<longleftrightarrow> '''' \<in> set bs"
  by (induction bs) auto

section \<open>Content of a message\<close>

text \<open>
  What a reader of a message sees: its identity, topic, key and value bytes, and the value of
  every header. Nil and empty slices and maps have the same content.
\<close>

definition same_content :: "message \<Rightarrow> message \<Rightarrow> bool" where
  "same_content m m' \<longleftrightarrow>
     ID m = ID m' \<and> slice_bytes (Key m) = slice_bytes (Key m') \<and>
     slice_bytes (Value m) = slice_bytes (Value m') \<and> GetHeader m = GetHeader m'"

lemma Clone_simps [simp]:
  "ID (Clone m) = ID m" "Topic (Clone m) = Topic m"
  "Key (Clone m) = Some (slice_bytes (Key m))" "Value (Clone m) = Some (slice_bytes (Value m))"
  "Headers (Clone m) = Headers m" "Timestamp (Clone m) = Timestamp m"
  by (simp_all add: Clone_def)

lemma Clone_idem [simp]: "Clone (Clone m) = Clone m"
  by (simp add: Clone_def)

lemma GetHeader_Clone [simp]: "GetHeader (Clone m) = GetHeader m"
  by (rule ext) (simp add: GetHeader_def)

lemma GetHeader_update [simp]:
  "GetHeader (m\<lparr>Topic := t\<rparr>) = GetHeader m" "GetHeader (m\<lparr>Timestamp := ts\<rparr>) = GetHeader m"
  "GetHeader (m\<lparr>Key := k\<rparr>) = GetHeader m" "GetHeader (m\<lparr>Value := v\<rparr>) = GetHeader m"
  "GetHeader (m\<lparr>ID := i\<rparr>) = GetHeader m"
  by (simp_all add: GetHeader_def fun_eq_iff)

lemma GetHeader_SetHeader [simp]: "GetHeader (SetHeader k v m) = (GetHeader m)(k := v)"
  by (rule ext) (auto simp: GetHeader_def SetHeader_def Let_def split: option.splits)

lemma SetHeader_simps [simp]:
  "ID (SetHeader k v m) = ID m" "Topic (SetHeader k v m) = Topic m"
  "Key (SetHeader k v m) = Key m" "Value (SetHeader k v m) = Value m"
  "Timestamp (SetHeader k v m) = Timestamp m"
  by (auto simp: SetHeader_def Let_def split: option.splits)

lemma same_content_refl [simp]: "same_content m m"
  by (simp add: same_content_def)

lemma same_content_trans: "same_content a b \<Longrightarrow> same_content b c \<Longrightarrow> same_content a c"
  by (simp add: same_content_def)

lemma same_content_Clone [simp]: "same_content (Clone m) m" "same_content m (Clone m)"
  by (simp_all add: same_content_def)

section \<open>Properties\<close>

text \<open>
  \<open>Validate\<close> accepts exactly the configurations with at least one broker, no empty
  broker address and a client id, reports every other one as \<open>ErrInvalidConfig\<close>, and
  accepts the default configuration.
\<close>

lemma broker_Config_Validate_correct:
  "(broker_Config_Validate c = None \<longleftrightarrow>
      Brokers c \<noteq> [] \<and> '''' \<notin> set (Brokers c) \<and> ClientID c \<noteq> '''') \<and>
   broker_Config_Validate c \<in> {None, Some (Sentinel ErrInvalidConfig)} \<and>
   broker_Config_Validate broker_DefaultConfig = None"
  by (auto simp: broker_Config_Validate_def broker_DefaultConfig_def has_empty_iff)

end
