(* ===== verification/Codecs.thy ===== *)
theory Codecs
  imports Message
begin

text \<open>
  The serializers and compressors of \<open>pkg/producer/producer.go\<close>.

  A value of the interface \<open>Serializer\<close> or \<open>Compressor\<close> is the record of its methods;
  each implementation is a function that builds such a record from its fields. Results are Go's
  pairs of a value and an error. \<open>encoding/json\<close> and \<open>compress/gzip\<close> are arguments.
  The locale \<open>compressor\<close> is the contract of a compressor: what it compresses, it can
  decompress.
\<close>

section \<open>Serializers\<close>

record 'v Serializer =
  Serialize :: "'v \<Rightarrow> byte_slice \<times> go_error option"
  Deserialize :: "byte_slice \<Rightarrow> 'v \<Rightarrow> go_error option \<times> 'v"
  ContentType :: string

record 'v json_pkg =
  json_Marshal :: "'v \<Rightarrow> byte_slice \<times> go_error option"
  json_Unmarshal :: "byte_slice \<Rightarrow> 'v \<Rightarrow> go_error option \<times> 'v"

definition JSONSerializer :: "'v json_pkg \<Rightarrow> 'v Serializer" where
  "JSONSerializer json =
     \<lparr>Serialize = json_Marshal json, Deserialize = json_Unmarshal json, ContentType = ''application/json''\<rparr>"

definition ProtobufSerializer ::
  "('v \<Rightarrow> byte_slice \<times> go_error option) option \<Rightarrow> (byte_slice \<Rightarrow> 'v \<Rightarrow> go_error option \<times> 'v) option \<Rightarrow>
   'v Serializer" where
  "ProtobufSerializer MarshalFunc UnmarshalFunc =
     \<lparr>Serialize = (\<lambda>v. case MarshalFunc of
          None \<Rightarrow> (None, Some (ErrorString ''protobuf marshal function not set'')) | Some f \<Rightarrow> f v),
      Deserialize = (\<lambda>data v. case UnmarshalFunc of
          None \<Rightarrow> (Some (ErrorString ''protobuf unmarshal function not set''), v) | Some f \<Rightarrow> f data v),
      ContentType = ''application/x-protobuf''\<rparr>"

definition AvroSerializer ::
  "('v \<Rightarrow> byte_slice \<times> go_error option) option \<Rightarrow> (byte_slice \<Rightarrow> 'v \<Rightarrow> go_error option \<times> 'v) option \<Rightarrow>
   'v Serializer" where
  "AvroSerializer MarshalFunc UnmarshalFunc =
     \<lparr>Serialize = (\<lambda>v. case MarshalFunc of
          None \<Rightarrow> (None, Some (ErrorString ''avro marshal function not set'')) | Some f \<Rightarrow> f v),
      Deserialize = (\<lambda>data v. case UnmarshalFunc of
          None \<Rightarrow> (Some (ErrorString ''avro unmarshal function not set''), v) | Some f \<Rightarrow> f data v),
      ContentType = ''application/avro''\<rparr>"

section \<open>Compressors\<close>

record Compressor =
  Compress :: "byte_slice \<Rightarrow> byte_slice \<times> go_error option"
  Decompress :: "byte_slice \<Rightarrow> byte_slice \<times> go_error option"
  Algorithm :: string

text \<open>
  The writer under a gzip stream: the buffer of \<open>Compress\<close>, another \<open>bytes.Buffer\<close> that
  the factory made, or any other writer. The package gives the error of a level, what a write and
  a close do to the writer, and how a stream is read back.
\<close>

datatype go_writer = BytesBuffer "byte list" | OtherWriter string

record gzip_pkg =
  NewWriterLevel :: "int64 \<Rightarrow> go_error option"
  gz_Write :: "int64 \<Rightarrow> byte list \<Rightarrow> go_writer \<Rightarrow> go_error option \<times> go_writer"
  gz_Close :: "int64 \<Rightarrow> byte list \<Rightarrow> go_writer \<Rightarrow> go_error option \<times> go_writer"
  gz_NewReader :: "byte list \<Rightarrow> go_error option"
  gz_ReadAll :: "byte list \<Rightarrow> byte_slice \<times> go_error option"

definition DefaultCompression :: int64 where
  "DefaultCompression = - 1"

definition gzip_Compress ::
  "gzip_pkg \<Rightarrow> translator \<Rightarrow> int64 \<Rightarrow> go_writer option \<Rightarrow> byte_slice \<Rightarrow> byte_slice \<times> go_error option" where
  "gzip_Compress gz tn Level writerFactory data =
     (let level = (if Level = 0 then DefaultCompression else Level);
          target = (case writerFactory of None \<Rightarrow> BytesBuffer [] | Some w \<Rightarrow> w)
      in case NewWriterLevel gz level of
           Some err \<Rightarrow> (None, Some (Errorf_w tn ''gzip writer creation failed'' err))
         | None \<Rightarrow>
             (case gz_Write gz level (slice_bytes data) target of
                (Some err, _) \<Rightarrow> (None, Some (Errorf_w tn ''gzip write failed'' err))
              | (None, t1) \<Rightarrow>
                  (case gz_Close gz level (slice_bytes data) t1 of
                     (Some err, _) \<Rightarrow> (None, Some (Errorf_w tn ''gzip close failed'' err))
                   | (None, t2) \<Rightarrow>
                       (case t2 of BytesBuffer bs \<Rightarrow> (Some bs, None) | OtherWriter _ \<Rightarrow> (None, None)))))"

definition gzip_Decompress :: "gzip_pkg \<Rightarrow> translator \<Rightarrow> byte_slice \<Rightarrow> byte_slice \<times> go_error option" where
  "gzip_Decompress gz tn data =
     (case gz_NewReader gz (slice_bytes data) of
        Some err \<Rightarrow> (None, Some (Errorf_w tn ''gzip reader creation failed'' err))
      | None \<Rightarrow> gz_ReadAll gz (slice_bytes data))"

definition GzipCompressor :: "gzip_pkg \<Rightarrow> translator \<Rightarrow> int64 \<Rightarrow> go_writer option \<Rightarrow> Compressor" where
  "GzipCompressor gz tn Level writerFactory =
     \<lparr>Compress = gzip_Compress gz tn Level writerFactory, Decompress = gzip_Decompress gz tn,
      Algorithm = ''gzip''\<rparr>"

definition pass_through ::
  "(byte_slice \<Rightarrow> byte_slice \<times> go_error option) option \<Rightarrow> byte_slice \<Rightarrow> byte_slice \<times> go_error option" where
  "pass_through f data = (case f of None \<Rightarrow> (data, None) | Some g \<Rightarrow> g data)"

definition SnappyCompressor ::
  "(byte_slice \<Rightarrow> byte_slice \<times> go_error option) option \<Rightarrow>
   (byte_slice \<Rightarrow> byte_slice \<times> go_error option) option \<Rightarrow> Compressor" where
  "SnappyCompressor CompressFunc DecompressFunc =
     \<lparr>Compress = pass_through CompressFunc, Decompress = pass_through DecompressFunc, Algorithm = ''snappy''\<rparr>"

definition LZ4Compressor ::
  "(byte_slice \<Rightarrow> byte_slice \<times> go_error option) option \<Rightarrow>
   (byte_slice \<Rightarrow> byte_slice \<times> go_error option) option \<Rightarrow> Compressor" where
  "LZ4Compressor CompressFunc DecompressFunc =
     \<lparr>Compress = pass_through CompressFunc, Decompress = pass_through DecompressFunc, Algorithm = ''lz4''\<rparr>"

section \<open>The contract of a compressor\<close>

text \<open>
  Only the bytes matter: what was compressed is recovered from every slice with the bytes of the
  compressed one.
\<close>

locale compressor =
  fixes compress :: "byte_slice \<Rightarrow> byte_slice \<times> go_error option"
    and decompress :: "byte_slice \<Rightarrow> byte_slice \<times> go_error option"
  assumes recovers: "compress d = (c, None) \<Longrightarrow> slice_bytes c' = slice_bytes c \<Longrightarrow>
    \<exists>d'. decompress c' = (d', None) \<and> slice_bytes d' = slice_bytes d"
begin

lemma injective:
  assumes "compress d1 = (c1, None)" and "compress d2 = (c2, None)" and "slice_bytes c1 = slice_bytes c2"
  shows "slice_bytes d1 = slice_bytes d2"
  using recovers [OF assms(1) refl] recovers [OF assms(2) assms(3)] by auto

end

interpretation snappy: compressor "Compress (SnappyCompressor None None)" "Decompress (SnappyCompressor None None)"
  by unfold_locales (auto simp: SnappyCompressor_def pass_through_def)

interpretation lz4: compressor "Compress (LZ4Compressor None None)" "Decompress (LZ4Compressor None None)"
  by unfold_locales (auto simp: LZ4Compressor_def pass_through_def)

text \<open>
  What \<open>compress/gzip\<close> documents: writing to a buffer appends, writer and close together
  leave a stream that the reader accepts and reads back, and levels -2 to 9 are valid.
\<close>

definition gzip_lossless :: "gzip_pkg \<Rightarrow> bool" where
  "gzip_lossless gz \<longleftrightarrow>
     (\<forall>level bs t1 t2. gz_Write gz level bs (BytesBuffer []) = (None, t1) \<longrightarrow>
        gz_Close gz level bs t1 = (None, t2) \<longrightarrow>
        (\<exists>c. t2 = BytesBuffer c \<and> gz_NewReader gz c = None \<and> gz_ReadAll gz c = (Some bs, None)))"

lemma gzip_compressor:
  assumes "gzip_lossless gz"
  shows "compressor (Compress (GzipCompressor gz tn level None)) (Decompress (GzipCompressor gz tn level None))"
proof (unfold_locales, goal_cases)
  case (1 d c c')
  let ?l = "if level = 0 then DefaultCompression else level"
  from 1(1) obtain t1 t2 where io: "gz_Write gz ?l (slice_bytes d) (BytesBuffer []) = (None, t1)"
      "gz_Close gz ?l (slice_bytes d) t1 = (None, t2)"
    and c: "(case t2 of BytesBuffer bs \<Rightarrow> (Some bs, None) | OtherWriter _ \<Rightarrow> (None, None)) = (c, None :: go_error option)"
    by (auto simp: GzipCompressor_def gzip_Compress_def Let_def split: option.splits prod.splits)
  from assms io obtain z where "t2 = BytesBuffer z" "gz_NewReader gz z = None" "gz_ReadAll gz z = (Some (slice_bytes d), None)"
    unfolding gzip_lossless_def by blast
  with c 1(2) show ?case by (auto simp: GzipCompressor_def gzip_Decompress_def)
qed

text \<open>A package that frames the data with a marker byte, at which the contract is seen to hold.\<close>

definition gzip_framing :: gzip_pkg where
  "gzip_framing =
     \<lparr>NewWriterLevel = (\<lambda>l. if - 2 \<le> sint l \<and> sint l \<le> 9 then None else Some (ErrorString ''invalid level'')),
      gz_Write = (\<lambda>l bs t. case t of BytesBuffer b \<Rightarrow> (None, BytesBuffer (b @ 31 # bs))
                              | OtherWriter e \<Rightarrow> (Some (ErrorString e), t)),
      gz_Close = (\<lambda>l bs t. (None, t)),
      gz_NewReader = (\<lambda>bs. if bs \<noteq> [] \<and> hd bs = 31 then None else Some (ErrorString ''invalid header'')),
      gz_ReadAll = (\<lambda>bs. (Some (tl bs), None))\<rparr>"

lemma gzip_framing_lossless: "gzip_lossless gzip_framing"
  by (auto simp: gzip_lossless_def gzip_framing_def)

end
