(* ===== verification/InMemory.thy ===== *)
theory InMemory
  imports Message
begin

text \<open>
  The in-memory broker of \<open>pkg/broker/inmemory.go\<close> with the metrics of
  \<open>pkg/broker/metrics.go\<close>.

  \<open>InMemoryBroker\<close> is the struct. The subscription objects that \<open>Subscribe\<close> hands out
  (\<open>inMemorySub\<close>) are shared between the caller and the broker's methods, so they live in a
  heap, addressed by their allocation index. An \<open>im_world\<close> is the broker, that heap, the
  counter of environment readings and the goroutines that \<open>Publish\<close> has spawned and that have
  not run yet, each the handler and its own copy of the message. Every method holds the
  broker's lock from its first to its last access, so each is one transition of the world.
\<close>

section \<open>Metrics\<close>

record BrokerMetrics =
  ConnectionAttempts :: int64
  ConnectionSuccesses :: int64
  ConnectionFailures :: int64
  CurrentConnections :: int64
  MessagesPublished :: int64
  PublishSuccesses :: int64
  PublishFailures :: int64
  BytesPublished :: int64
  MessagesReceived :: int64
  MessagesProcessed :: int64
  MessagesFailed :: int64
  BytesReceived :: int64
  ActiveSubscriptions :: int64
  StartTime :: time
  LastPublishTime :: time
  LastReceiveTime :: time
  LastErrorTime :: time

definition NewBrokerMetrics :: "time \<Rightarrow> BrokerMetrics" where
  "NewBrokerMetrics now =
     \<lparr>ConnectionAttempts = 0, ConnectionSuccesses = 0, ConnectionFailures = 0,
      CurrentConnections = 0, MessagesPublished = 0, PublishSuccesses = 0, PublishFailures = 0,
      BytesPublished = 0, MessagesReceived = 0, MessagesProcessed = 0, MessagesFailed = 0,
      BytesReceived = 0, ActiveSubscriptions = 0, StartTime = now, LastPublishTime = zero_time,
      LastReceiveTime = zero_time, LastErrorTime = zero_time\<rparr>"

section \<open>The broker and its world\<close>

record 'h subscriberInfo =
  sub_id :: string
  sub_handler :: 'h
  sub_active :: bool

record 'h InMemoryBroker =
  queues :: "string \<rightharpoonup> message list"
  subscribers :: "string \<rightharpoonup> 'h subscriberInfo list"
  connected :: bool
  stopCh :: signal_chan
  metrics :: BrokerMetrics

record inMemorySub =
  ims_id :: string
  ims_topic :: string
  ims_active :: bool

record 'h im_world =
  im :: "'h InMemoryBroker"
  sub_heap :: "inMemorySub list"
  ticks :: nat
  goroutines :: "('h \<times> message) list"

definition NewInMemoryBroker :: "time \<Rightarrow> 'h InMemoryBroker" where
  "NewInMemoryBroker now =
     \<lparr>queues = Map.empty, subscribers = Map.empty, connected = False, stopCh = ChanOpen,
      metrics = NewBrokerMetrics now\<rparr>"

definition new_world :: "runtime \<Rightarrow> 'h im_world" where
  "new_world rt =
     \<lparr>im = NewInMemoryBroker (time_Now rt 0), sub_heap = [], ticks = 1, goroutines = []\<rparr>"

section \<open>Methods\<close>

definition Connect :: "'h im_world \<Rightarrow> go_error option \<times> 'h im_world" where
  "Connect w = (None, w\<lparr>im := (im w)\<lparr>connected := True\<rparr>\<rparr>)"

definition Close :: "'h im_world \<Rightarrow> go_panic + (go_error option \<times> 'h im_world)" where
  "Close w =
     (if \<not> connected (im w) then Inr (None, w)
      else case close_chan (stopCh (im w)) of
             Inl p \<Rightarrow> Inl p
           | Inr c \<Rightarrow> Inr (None, w\<lparr>im := (im w)\<lparr>stopCh := c, connected := False,
                                 queues := Map.empty, subscribers := Map.empty\<rparr>\<rparr>))"

definition HealthCheck :: "'h im_world \<Rightarrow> go_error option" where
  "HealthCheck w = (if \<not> connected (im w) then Some (Sentinel ErrNotConnected) else None)"

definition IsConnected :: "'h im_world \<Rightarrow> bool" where
  "IsConnected w = connected (im w)"

text \<open>The delivery loop of \<open>Publish\<close>: one goroutine per active subscriber, each with a clone.\<close>

fun spawn_deliveries :: "'h subscriberInfo list \<Rightarrow> message \<Rightarrow> ('h \<times> message) list" where
  "spawn_deliveries [] clone = []"
| "spawn_deliveries (sub # subs) clone =
     (if sub_active sub then (sub_handler sub, Clone clone) # spawn_deliveries subs clone
      else spawn_deliveries subs clone)"

definition Publish ::
  "runtime \<Rightarrow> string \<Rightarrow> message \<Rightarrow> 'h im_world \<Rightarrow> go_error option \<times> 'h im_world" where
  "Publish rt topic msg w =
     (if \<not> connected (im w) then (Some (Sentinel ErrNotConnected), w)
      else
        let clone = (Clone msg)\<lparr>Topic := topic, Timestamp := time_Now rt (ticks w)\<rparr>;
            b = (im w)\<lparr>queues := (queues (im w))(topic \<mapsto> map_slice (queues (im w)) topic @ [clone])\<rparr>
        in (None,
            w\<lparr>im := b, ticks := Suc (ticks w),
              goroutines := goroutines w @
                spawn_deliveries (map_slice (subscribers b) topic) clone\<rparr>))"

text \<open>
  The method takes a pointer; a nil message is dereferenced by \<open>Clone\<close> once the connection
  check has passed.
\<close>

definition Publish_ptr ::
  "runtime \<Rightarrow> string \<Rightarrow> message option \<Rightarrow> 'h im_world \<Rightarrow>
     go_panic + (go_error option \<times> 'h im_world)" where
  "Publish_ptr rt topic msg w =
     (case msg of
        Some m \<Rightarrow> Inr (Publish rt topic m w)
      | None \<Rightarrow>
          if \<not> connected (im w) then Inr (Some (Sentinel ErrNotConnected), w)
          else Inl NilDereference)"

fun PublishBatch ::
  "runtime \<Rightarrow> string \<Rightarrow> message list \<Rightarrow> 'h im_world \<Rightarrow> go_error option \<times> 'h im_world" where
  "PublishBatch rt topic [] w = (None, w)"
| "PublishBatch rt topic (msg # msgs) w =
     (case Publish rt topic msg w of
        (Some err, w') \<Rightarrow> (Some err, w')
      | (None, w') \<Rightarrow> PublishBatch rt topic msgs w')"

definition Subscribe ::
  "runtime \<Rightarrow> string \<Rightarrow> 'h \<Rightarrow> 'h im_world \<Rightarrow> (go_error + nat) \<times> 'h im_world" where
  "Subscribe rt topic h w =
     (if \<not> connected (im w) then (Inl (Sentinel ErrNotConnected), w)
      else
        let subID = uuid_New rt (ticks w);
            info = \<lparr>sub_id = subID, sub_handler = h, sub_active = True\<rparr>;
            b = (im w)\<lparr>subscribers :=
                  (subscribers (im w))(topic \<mapsto> map_slice (subscribers (im w)) topic @ [info])\<rparr>
        in (Inr (length (sub_heap w)),
            w\<lparr>im := b, ticks := Suc (ticks w),
              sub_heap := sub_heap w @
                [\<lparr>ims_id = subID, ims_topic = topic, ims_active = True\<rparr>]\<rparr>))"

definition Unsubscribe :: "string \<Rightarrow> 'h im_world \<Rightarrow> go_error option \<times> 'h im_world" where
  "Unsubscribe topic w =
     (let subs = map (\<lambda>s. s\<lparr>sub_active := False\<rparr>) (map_slice (subscribers (im w)) topic);
          marked = (if subscribers (im w) topic = None then subscribers (im w)
                    else (subscribers (im w))(topic \<mapsto> subs))
      in (None, w\<lparr>im := (im w)\<lparr>subscribers := marked(topic := None)\<rparr>\<rparr>))"

definition Type :: "'h im_world \<Rightarrow> BrokerType" where
  "Type w = BrokerTypeInMemory"

definition GetMetrics :: "'h im_world \<Rightarrow> BrokerMetrics" where
  "GetMetrics w = metrics (im w)"

section \<open>Subscription objects\<close>

definition sub_at :: "'h im_world \<Rightarrow> nat \<Rightarrow> inMemorySub option" where
  "sub_at w a = (if a < length (sub_heap w) then Some (sub_heap w ! a) else None)"

definition inMemorySub_Unsubscribe :: "nat \<Rightarrow> 'h im_world \<Rightarrow> go_error option \<times> 'h im_world" where
  "inMemorySub_Unsubscribe a w =
     (case sub_at w a of
        None \<Rightarrow> (None, w)
      | Some s \<Rightarrow>
          if \<not> ims_active s then (None, w)
          else
            let subs = subscribers (im w);
                marked = (case subs (ims_topic s) of
                    None \<Rightarrow> subs
                  | Some l \<Rightarrow> subs(ims_topic s \<mapsto>
                      update_first (\<lambda>x. sub_id x = ims_id s) (\<lambda>x. x\<lparr>sub_active := False\<rparr>) l))
            in (None, w\<lparr>sub_heap := (sub_heap w)[a := s\<lparr>ims_active := False\<rparr>],
                        im := (im w)\<lparr>subscribers := marked\<rparr>\<rparr>))"

definition inMemorySub_IsActive :: "'h im_world \<Rightarrow> nat \<Rightarrow> bool" where
  "inMemorySub_IsActive w a = (case sub_at w a of None \<Rightarrow> False | Some s \<Rightarrow> ims_active s)"

definition inMemorySub_Topic :: "'h im_world \<Rightarrow> nat \<Rightarrow> string option" where
  "inMemorySub_Topic w a = map_option ims_topic (sub_at w a)"

definition inMemorySub_ID :: "'h im_world \<Rightarrow> nat \<Rightarrow> string option" where
  "inMemorySub_ID w a = map_option ims_id (sub_at w a)"

end
