(* ===== verification/InMemory_Spec.thy ===== *)
theory InMemory_Spec
  imports InMemory
begin

text \<open>
  The invariant of the in-memory broker, its abstract specification as a publish/subscribe
  service, and the refinement between the two.

  The specification keeps, per topic, the log of published messages and the list of live
  subscriptions (an identifier and a handler); there are no flags, no dead entries and no
  heap. \<open>abs_im\<close> reads it off a world: connected or not, the queues, the active entries of
  the subscriber lists. Every method of the broker commutes with \<open>abs_im\<close>.
\<close>

section \<open>Invariant\<close>

abbreviation "subs_of w t \<equiv> map_slice (subscribers (im w)) t"
abbreviation "queue_of w t \<equiv> map_slice (queues (im w)) t"

definition issued :: "runtime \<Rightarrow> nat \<Rightarrow> string set" where
  "issued rt n = uuid_New rt ` {..<n}"

lemma issued_Suc [simp]: "issued rt (Suc n) = insert (uuid_New rt n) (issued rt n)"
  by (simp add: issued_def lessThan_Suc)

lemma issued_fresh: "unique_uuids rt \<Longrightarrow> uuid_New rt n \<notin> issued rt n"
  by (auto simp: issued_def unique_uuids_def dest: injD)

definition queues_ok :: "'h im_world \<Rightarrow> bool" where
  "queues_ok w \<longleftrightarrow> (\<forall>t. \<forall>m \<in> set (queue_of w t). Topic m = t \<and> Clone m = m)"

definition idle_ok :: "'h im_world \<Rightarrow> bool" where
  "idle_ok w \<longleftrightarrow>
     (\<not> connected (im w) \<longrightarrow> queues (im w) = Map.empty \<and> subscribers (im w) = Map.empty)"

definition subs_ok :: "runtime \<Rightarrow> 'h im_world \<Rightarrow> bool" where
  "subs_ok rt w \<longleftrightarrow>
     (\<forall>t. distinct (map sub_id (subs_of w t)) \<and>
          (\<forall>s \<in> set (subs_of w t). sub_id s \<in> issued rt (ticks w)))"

definition handles_ok :: "runtime \<Rightarrow> 'h im_world \<Rightarrow> bool" where
  "handles_ok rt w \<longleftrightarrow>
     distinct (map ims_id (sub_heap w)) \<and>
     ims_id ` set (sub_heap w) \<subseteq> issued rt (ticks w) \<and>
     (\<forall>t. \<forall>s \<in> set (subs_of w t). sub_active s \<longrightarrow>
        \<lparr>ims_id = sub_id s, ims_topic = t, ims_active = True\<rparr> \<in> set (sub_heap w))"

definition im_inv :: "runtime \<Rightarrow> 'h im_world \<Rightarrow> bool" where
  "im_inv rt w \<longleftrightarrow> queues_ok w \<and> idle_ok w \<and> subs_ok rt w \<and> handles_ok rt w"

lemmas im_inv_defs = im_inv_def queues_ok_def idle_ok_def subs_ok_def handles_ok_def

lemma im_inv_new [inv_intros]: "im_inv rt (new_world rt)"
  by (simp add: im_inv_defs new_world_def NewInMemoryBroker_def)

lemma im_inv_Connect [inv_intros]: "im_inv rt w \<Longrightarrow> im_inv rt (snd (Connect w))"
  by (simp add: im_inv_defs Connect_def)

lemma im_inv_Close [inv_intros]: "im_inv rt w \<Longrightarrow> Close w = Inr (e, w') \<Longrightarrow> im_inv rt w'"
  by (force simp: im_inv_defs Close_def split: if_splits sum.splits)

lemma Publish_connected:
  assumes "connected (im w)"
  shows "Publish rt t m w =
    (None, w\<lparr>im := (im w)\<lparr>queues := (queues (im w))(t \<mapsto> queue_of w t @
        [(Clone m)\<lparr>Topic := t, Timestamp := time_Now rt (ticks w)\<rparr>])\<rparr>,
      ticks := Suc (ticks w),
      goroutines := goroutines w @
        spawn_deliveries (subs_of w t) ((Clone m)\<lparr>Topic := t, Timestamp := time_Now rt (ticks w)\<rparr>)\<rparr>)"
  using assms by (simp add: Publish_def Let_def)

lemma Publish_not_connected:
  "\<not> connected (im w) \<Longrightarrow> Publish rt t m w = (Some (Sentinel ErrNotConnected), w)"
  by (simp add: Publish_def)

lemma Clone_stamped [simp]:
  "Clone ((Clone m)\<lparr>Topic := t, Timestamp := ts\<rparr>) = (Clone m)\<lparr>Topic := t, Timestamp := ts\<rparr>"
  by (simp add: Clone_def)

lemma im_inv_Publish [inv_intros]:
  assumes "im_inv rt w"
  shows "im_inv rt (snd (Publish rt t m w))"
proof (cases "connected (im w)")
  case True
  with assms show ?thesis
    by (auto simp: im_inv_defs Publish_connected)
next
  case False
  with assms show ?thesis by (simp add: Publish_not_connected)
qed

lemma im_inv_PublishBatch [inv_intros]:
  "im_inv rt w \<Longrightarrow> im_inv rt (snd (PublishBatch rt t ms w))"
proof (induction ms arbitrary: w)
  case (Cons m ms)
  from Cons.prems have "im_inv rt (snd (Publish rt t m w))" by (rule im_inv_Publish)
  with Cons.IH show ?case by (auto split: prod.splits option.splits)
qed simp

lemma Subscribe_connected:
  assumes "connected (im w)"
  shows "Subscribe rt t h w =
    (Inr (length (sub_heap w)),
     w\<lparr>im := (im w)\<lparr>subscribers := (subscribers (im w))(t \<mapsto> subs_of w t @
          [\<lparr>sub_id = uuid_New rt (ticks w), sub_handler = h, sub_active = True\<rparr>])\<rparr>,
       ticks := Suc (ticks w),
       sub_heap := sub_heap w @
          [\<lparr>ims_id = uuid_New rt (ticks w), ims_topic = t, ims_active = True\<rparr>]\<rparr>)"
  using assms by (simp add: Subscribe_def Let_def)

lemma Subscribe_not_connected:
  "\<not> connected (im w) \<Longrightarrow> Subscribe rt t h w = (Inl (Sentinel ErrNotConnected), w)"
  by (simp add: Subscribe_def)

lemma subs_ok_Subscribe:
  assumes "subs_ok rt w" and "unique_uuids rt" and "connected (im w)"
  shows "subs_ok rt (snd (Subscribe rt t h w))"
  using assms issued_fresh [OF assms(2), of "ticks w"]
  by (auto simp: subs_ok_def Subscribe_connected)

lemma handles_ok_Subscribe:
  assumes "handles_ok rt w" and "unique_uuids rt" and "connected (im w)"
  shows "handles_ok rt (snd (Subscribe rt t h w))"
  using assms issued_fresh [OF assms(2), of "ticks w"]
  by (auto simp: handles_ok_def Subscribe_connected)

lemma im_inv_Subscribe [inv_intros]:
  assumes "im_inv rt w" and "unique_uuids rt"
  shows "im_inv rt (snd (Subscribe rt t h w))"
proof (cases "connected (im w)")
  case True
  with assms show ?thesis
    by (auto simp: im_inv_def subs_ok_Subscribe handles_ok_Subscribe)
       (auto simp: queues_ok_def idle_ok_def Subscribe_connected)
next
  case False
  with assms show ?thesis by (simp add: Subscribe_not_connected)
qed

lemma Unsubscribe_eq:
  "Unsubscribe t w = (None, w\<lparr>im := (im w)\<lparr>subscribers := (subscribers (im w))(t := None)\<rparr>\<rparr>)"
  by (auto simp: Unsubscribe_def Let_def fun_upd_idem)

lemma im_inv_Unsubscribe [inv_intros]: "im_inv rt w \<Longrightarrow> im_inv rt (snd (Unsubscribe t w))"
  by (auto simp: im_inv_defs Unsubscribe_eq)

section \<open>Cancelling one subscription\<close>

definition switch_off :: "string \<Rightarrow> 'h subscriberInfo \<Rightarrow> 'h subscriberInfo" where
  "switch_off i x = (if sub_id x = i then x\<lparr>sub_active := False\<rparr> else x)"

lemma switch_off_simps [simp]:
  "sub_id (switch_off i x) = sub_id x" "sub_handler (switch_off i x) = sub_handler x"
  "sub_active (switch_off i x) \<longleftrightarrow> sub_active x \<and> sub_id x \<noteq> i"
  by (auto simp: switch_off_def)

lemma map_slice_map_option [simp]:
  "map_slice (m(k := map_option (map f) (m k))) k' =
     (if k' = k then map f (map_slice m k) else map_slice m k')"
  by (simp add: map_slice_def split: option.split)

lemma inMemorySub_Unsubscribe_eq:
  assumes "subs_ok rt w" and "sub_at w a = Some s" and "ims_active s"
  shows "inMemorySub_Unsubscribe a w =
    (None, w\<lparr>sub_heap := (sub_heap w)[a := s\<lparr>ims_active := False\<rparr>],
             im := (im w)\<lparr>subscribers := (subscribers (im w))(ims_topic s :=
               map_option (map (switch_off (ims_id s))) (subscribers (im w) (ims_topic s)))\<rparr>\<rparr>)"
proof (cases "subscribers (im w) (ims_topic s)")
  case None
  with assms(2,3) show ?thesis
    by (simp add: inMemorySub_Unsubscribe_def Let_def fun_upd_idem)
next
  case (Some l)
  with assms(1) have "distinct (map sub_id l)"
    by (metis map_slice_simps(2) subs_ok_def)
  with Some assms(2,3) show ?thesis
    by (simp add: inMemorySub_Unsubscribe_def Let_def update_first_unique switch_off_def [abs_def])
qed

lemma inMemorySub_Unsubscribe_idle:
  assumes "sub_at w a = None \<or> (\<exists>s. sub_at w a = Some s \<and> \<not> ims_active s)"
  shows "inMemorySub_Unsubscribe a w = (None, w)"
  using assms by (auto simp: inMemorySub_Unsubscribe_def)

lemma sub_at_Some: "sub_at w a = Some s \<longleftrightarrow> a < length (sub_heap w) \<and> sub_heap w ! a = s"
  by (auto simp: sub_at_def)

lemma in_set_list_update:
  assumes "x \<in> set xs" and "a < length xs" and "x \<noteq> xs ! a"
  shows "x \<in> set (xs[a := y])"
  using assms by (metis in_set_conv_nth length_list_update nth_list_update_neq)

lemma handles_ok_sub_Unsubscribe:
  assumes inv: "handles_ok rt w" "subs_ok rt w" and s: "sub_at w a = Some s" "ims_active s"
  shows "handles_ok rt (snd (inMemorySub_Unsubscribe a w))"
proof -
  let ?h = "(sub_heap w)[a := s\<lparr>ims_active := False\<rparr>]"
  from s have a: "a < length (sub_heap w)" "sub_heap w ! a = s" by (simp_all add: sub_at_Some)
  have ids: "map ims_id ?h = map ims_id (sub_heap w)"
    using a by (metis (no_types, lifting) inMemorySub.select_convs(1) inMemorySub.surjective
        inMemorySub.update_convs(3) list_update_id map_update)
  then have ids': "ims_id ` set ?h = ims_id ` set (sub_heap w)"
    by (metis set_map)
  have "\<lparr>ims_id = sub_id x, ims_topic = t, ims_active = True\<rparr> \<in> set ?h"
    if "\<lparr>ims_id = sub_id x, ims_topic = t, ims_active = True\<rparr> \<in> set (sub_heap w)"
      and "t = ims_topic s \<longrightarrow> sub_id x \<noteq> ims_id s" for t and x :: "'a subscriberInfo"
    using that a by (cases s, intro in_set_list_update) auto
  with inv ids ids' show ?thesis
    unfolding handles_ok_def inMemorySub_Unsubscribe_eq [OF inv(2) s] by auto
qed

lemma im_inv_sub_Unsubscribe [inv_intros]:
  assumes "im_inv rt w"
  shows "im_inv rt (snd (inMemorySub_Unsubscribe a w))"
proof (cases "\<exists>s. sub_at w a = Some s \<and> ims_active s")
  case True
  then obtain s where s: "sub_at w a = Some s" "ims_active s" by blast
  from assms have inv: "subs_ok rt w" "handles_ok rt w" "queues_ok w" "idle_ok w"
    by (simp_all add: im_inv_def)
  have "subs_ok rt (snd (inMemorySub_Unsubscribe a w))"
    using inv(1) unfolding inMemorySub_Unsubscribe_eq [OF inv(1) s]
    by (auto simp: subs_ok_def comp_def)
  with inv s show ?thesis
    by (simp add: im_inv_def handles_ok_sub_Unsubscribe)
       (simp add: inMemorySub_Unsubscribe_eq queues_ok_def idle_ok_def fun_upd_idem)
next
  case False
  with assms show ?thesis
    by (metis inMemorySub_Unsubscribe_idle not_None_eq snd_conv)
qed

section \<open>The abstract publish/subscribe service\<close>

record 'h pubsub =
  up :: bool
  log :: "string \<Rightarrow> message list"
  live :: "string \<Rightarrow> (string \<times> 'h) list"

definition a_connect :: "'h pubsub \<Rightarrow> 'h pubsub" where
  "a_connect s = s\<lparr>up := True\<rparr>"

definition a_close :: "'h pubsub \<Rightarrow> 'h pubsub" where
  "a_close s = \<lparr>up = False, log = (\<lambda>_. []), live = (\<lambda>_. [])\<rparr>"

definition a_stamp :: "string \<Rightarrow> time \<Rightarrow> message \<Rightarrow> message" where
  "a_stamp t now m = (Clone m)\<lparr>Topic := t, Timestamp := now\<rparr>"

definition a_publish :: "string \<Rightarrow> message \<Rightarrow> 'h pubsub \<Rightarrow> 'h pubsub" where
  "a_publish t m s = (if up s then s\<lparr>log := (log s)(t := log s t @ [m])\<rparr> else s)"

definition a_deliveries :: "string \<Rightarrow> message \<Rightarrow> 'h pubsub \<Rightarrow> ('h \<times> message) list" where
  "a_deliveries t m s = (if up s then map (\<lambda>(i, h). (h, m)) (live s t) else [])"

definition a_subscribe :: "string \<Rightarrow> string \<Rightarrow> 'h \<Rightarrow> 'h pubsub \<Rightarrow> 'h pubsub" where
  "a_subscribe t i h s = (if up s then s\<lparr>live := (live s)(t := live s t @ [(i, h)])\<rparr> else s)"

definition a_drop_topic :: "string \<Rightarrow> 'h pubsub \<Rightarrow> 'h pubsub" where
  "a_drop_topic t s = s\<lparr>live := (live s)(t := [])\<rparr>"

definition a_cancel :: "string \<Rightarrow> string \<Rightarrow> 'h pubsub \<Rightarrow> 'h pubsub" where
  "a_cancel t i s = s\<lparr>live := (live s)(t := filter (\<lambda>(j, h). j \<noteq> i) (live s t))\<rparr>"

section \<open>Refinement\<close>

definition live_entries :: "'h subscriberInfo list \<Rightarrow> (string \<times> 'h) list" where
  "live_entries l = map (\<lambda>s. (sub_id s, sub_handler s)) (filter sub_active l)"

definition abs_im :: "'h im_world \<Rightarrow> 'h pubsub" where
  "abs_im w = \<lparr>up = connected (im w), log = queue_of w, live = (\<lambda>t. live_entries (subs_of w t))\<rparr>"

lemma live_entries_simps [simp]:
  "live_entries [] = []"
  "live_entries (xs @ ys) = live_entries xs @ live_entries ys"
  "live_entries [x] = (if sub_active x then [(sub_id x, sub_handler x)] else [])"
  by (simp_all add: live_entries_def)

lemma live_entries_switch_off:
  "live_entries (map (switch_off i) l) = filter (\<lambda>(j, h). j \<noteq> i) (live_entries l)"
  by (induction l) (auto simp: live_entries_def)

lemma spawn_deliveries_eq:
  "spawn_deliveries subs m = map (\<lambda>(i, h). (h, Clone m)) (live_entries subs)"
  by (induction subs) (auto simp: live_entries_def)

lemma abs_simps [simp]:
  "up (abs_im w) = connected (im w)" "log (abs_im w) = queue_of w"
  "live (abs_im w) t = live_entries (subs_of w t)"
  by (simp_all add: abs_im_def)

lemma abs_Connect: "abs_im (snd (Connect w)) = a_connect (abs_im w)"
  by (simp add: abs_im_def Connect_def a_connect_def)

lemma abs_Close:
  assumes "im_inv rt w" and "Close w = Inr (e, w')"
  shows "abs_im w' = a_close (abs_im w)"
  using assms
  by (auto simp: abs_im_def Close_def a_close_def im_inv_def idle_ok_def
      split: if_splits sum.splits)

lemma abs_Publish:
  "abs_im (snd (Publish rt t m w)) = a_publish t (a_stamp t (time_Now rt (ticks w)) m) (abs_im w)"
  by (cases "connected (im w)")
     (auto simp: Publish_connected Publish_not_connected abs_im_def a_publish_def a_stamp_def)

lemma goroutines_Publish:
  "goroutines (snd (Publish rt t m w)) =
     goroutines w @ a_deliveries t (a_stamp t (time_Now rt (ticks w)) m) (abs_im w)"
  by (cases "connected (im w)")
     (auto simp: Publish_connected Publish_not_connected a_deliveries_def a_stamp_def
        spawn_deliveries_eq)

lemma abs_Subscribe:
  "abs_im (snd (Subscribe rt t h w)) = a_subscribe t (uuid_New rt (ticks w)) h (abs_im w)"
  by (cases "connected (im w)")
     (auto simp: Subscribe_connected Subscribe_not_connected abs_im_def a_subscribe_def)

lemma abs_Unsubscribe: "abs_im (snd (Unsubscribe t w)) = a_drop_topic t (abs_im w)"
  by (auto simp: Unsubscribe_eq abs_im_def a_drop_topic_def)

lemma abs_sub_Unsubscribe:
  assumes "im_inv rt w" and "sub_at w a = Some s" and "ims_active s"
  shows "abs_im (snd (inMemorySub_Unsubscribe a w)) = a_cancel (ims_topic s) (ims_id s) (abs_im w)"
proof -
  from assms(1) have "subs_ok rt w" by (simp add: im_inv_def)
  from inMemorySub_Unsubscribe_eq [OF this assms(2,3)] show ?thesis
    by (auto simp: abs_im_def a_cancel_def live_entries_switch_off)
qed

section \<open>Properties of single calls\<close>

definition example_world :: "bool im_world" where
  "example_world = snd (Connect (new_world rt_example))"

lemma example_world_simps [simp]:
  "connected (im example_world)" "stopCh (im example_world) = ChanOpen"
  "subs_of example_world t = []" "queue_of example_world t = []"
  "sub_heap example_world = []" "ticks example_world = 1" "goroutines example_world = []"
  by (simp_all add: example_world_def Connect_def new_world_def NewInMemoryBroker_def)

lemma im_inv_example: "im_inv rt_example example_world"
  by (simp add: example_world_def im_inv_Connect im_inv_new)

lemma PublishBatch_connected:
  assumes "connected (im w)"
  shows "fst (PublishBatch rt t ms w) = None \<and>
    queue_of (snd (PublishBatch rt t ms w)) t =
      queue_of w t @ map (\<lambda>(i, m). a_stamp t (time_Now rt (ticks w + i)) m) (enumerate 0 ms)"
  using assms
proof (induction ms arbitrary: w)
  case (Cons m ms)
  let ?w = "snd (Publish rt t m w)"
  from Cons.prems have w: "connected (im ?w)" "ticks ?w = Suc (ticks w)" "fst (Publish rt t m w) = None"
      "queue_of ?w t = queue_of w t @ [a_stamp t (time_Now rt (ticks w)) m]"
    by (simp_all add: Publish_connected a_stamp_def)
  have shift: "map (\<lambda>(i, m). a_stamp t (time_Now rt (Suc (ticks w) + i)) m) (enumerate 0 ms) =
      map (\<lambda>(i, m). a_stamp t (time_Now rt (ticks w + i)) m) (enumerate 1 ms)"
    by (rule nth_equalityI) (simp_all add: nth_enumerate_eq)
  from w Cons.IH [OF w(1)] shift show ?case
    by (cases "Publish rt t m w") simp
qed simp

text \<open>
  Every operation of a broker that is not connected fails with \<open>ErrNotConnected\<close> and
  changes nothing; a nil message is only noticed after that check, where it panics.
\<close>

lemma not_connected_is_inert:
  assumes "\<not> connected (im w)"
  shows "Publish rt t m w = (Some (Sentinel ErrNotConnected), w) \<and>
    PublishBatch rt t (m # ms) w = (Some (Sentinel ErrNotConnected), w) \<and>
    Subscribe rt t h w = (Inl (Sentinel ErrNotConnected), w) \<and>
    HealthCheck w = Some (Sentinel ErrNotConnected) \<and> Close w = Inr (None, w) \<and>
    Publish_ptr rt t None w = Inr (Some (Sentinel ErrNotConnected), w) \<and>
    Publish_ptr rt t None (snd (Connect w)) = Inl NilDereference"
  using assms
  by (simp add: Publish_not_connected Subscribe_not_connected HealthCheck_def Close_def
      Publish_ptr_def Connect_def)

text \<open>
  A published message survives byte for byte. \<open>Publish\<close> on a connected broker
  succeeds, appends one message with the same id, key, value and headers to the queue of the
  topic, stamped with the topic and the current time, leaves every other queue alone, and
  every goroutine it spawns receives an equal copy.
\<close>

lemma publish_preserves_content:
  assumes "connected (im w)" and "Publish rt t m w = (e, w')"
  shows "e = None \<and>
    (\<exists>c ds. queue_of w' t = queue_of w t @ [c] \<and> same_content c m \<and> Topic c = t \<and>
       Timestamp c = time_Now rt (ticks w) \<and> (\<forall>t'. t' \<noteq> t \<longrightarrow> queue_of w' t' = queue_of w t') \<and>
       goroutines w' = goroutines w @ map (\<lambda>h. (h, c)) ds \<and>
       ds = map sub_handler (filter sub_active (subs_of w t)))"
  using assms
  by (auto simp: Publish_connected same_content_def spawn_deliveries_eq live_entries_def)

text \<open>
  \<open>PublishBatch\<close> on a connected broker succeeds and appends the whole batch to the
  queue in the order of the batch.
\<close>

lemma publish_batch_in_order:
  assumes "connected (im w)"
  shows "fst (PublishBatch rt t ms w) = None \<and>
    (\<exists>cs. queue_of (snd (PublishBatch rt t ms w)) t = queue_of w t @ cs \<and>
       list_all2 (\<lambda>c m. same_content c m \<and> Topic c = t) cs ms)"
  using PublishBatch_connected [OF assms, of rt t ms]
  by (auto simp: list_all2_conv_all_nth nth_enumerate_eq a_stamp_def same_content_def)

text \<open>
  C38: a broker can be closed only once. \<open>Connect\<close> does not make a new stop channel, so
  closing a broker that was closed and connected again panics; closing it twice in a row does
  nothing.
\<close>

theorem close_after_reconnect_panics:
  assumes "connected (im w)" and "Close w = Inr (e, w')"
  shows "Close w' = Inr (None, w') \<and> Close (snd (Connect w')) = Inl CloseOfClosedChannel"
  using assms by (cases "stopCh (im w)") (auto simp: Close_def Connect_def)

theorem close_after_reconnect_panics_witness:
  "\<exists>e w'. Close example_world = Inr (e, w') \<and> Close (snd (Connect w')) = Inl CloseOfClosedChannel"
proof -
  obtain e w' where "Close example_world = Inr (e, w')" by (simp add: Close_def)
  with close_after_reconnect_panics [OF example_world_simps(1) this] show ?thesis by blast
qed

text \<open>
  A subscription object does not notice that its topic was dropped. After
  \<open>Unsubscribe(topic)\<close> on the broker no subscription of the topic is live, yet
  \<open>IsActive\<close> of the object returned by \<open>Subscribe\<close> still answers true.
\<close>

lemma topic_unsubscribe_leaves_handle_active:
  assumes "connected (im w)" and "Subscribe rt t h w = (Inr a, w')"
  shows "live (abs_im (snd (Unsubscribe t w'))) t = [] \<and>
    inMemorySub_IsActive (snd (Unsubscribe t w')) a"
  using assms
  by (auto simp: Subscribe_connected Unsubscribe_eq inMemorySub_IsActive_def sub_at_def)

lemma topic_unsubscribe_leaves_handle_active_example:
  "\<exists>w'. Subscribe rt_example ''t'' True example_world = (Inr 0, w') \<and>
     live (abs_im (snd (Unsubscribe ''t'' w'))) ''t'' = [] \<and>
     inMemorySub_IsActive (snd (Unsubscribe ''t'' w')) 0"
proof -
  obtain w' where s: "Subscribe rt_example ''t'' True example_world = (Inr 0, w')"
    by (simp add: Subscribe_connected)
  from topic_unsubscribe_leaves_handle_active [OF example_world_simps(1) s] s show ?thesis by blast
qed

end
