(* ===== verification/Broker_Interface.thy ===== *)
theory Broker_Interface
  imports InMemory_Spec
begin

text \<open>
  The interface \<open>MessageBroker\<close> (\<open>pkg/broker/broker.go\<close>) as its clients use it, in two
  locales.

  \<open>publishing\<close> is what a client of \<open>Publish\<close> relies on: a successful call appends to
  the topic's log one message with the content of the argument, a failed one leaves the logs
  alone. \<open>subscribing\<close> is what a client of \<open>Subscribe\<close> and of
  \<open>Subscription.Unsubscribe\<close> relies on: a successful subscription is new and active with
  its topic and handler, cancelling removes exactly that one. The operations act on a world
  \<open>'w\<close> under an invariant; the interpretations on the in-memory broker are at the end.
\<close>

section \<open>Publishing\<close>

locale publishing =
  fixes publish :: "go_context \<Rightarrow> string \<Rightarrow> message \<Rightarrow> 'w \<Rightarrow> go_error option \<times> 'w"
    and log_of :: "'w \<Rightarrow> string \<Rightarrow> message list"
    and ready :: "'w \<Rightarrow> bool"
    and inv :: "'w \<Rightarrow> bool"
  assumes publish_inv: "inv w \<Longrightarrow> inv (snd (publish ctx t m w))"
    and publish_ok: "inv w \<Longrightarrow> publish ctx t m w = (None, w') \<Longrightarrow>
      \<exists>c. same_content c m \<and> Topic c = t \<and> log_of w' = (log_of w)(t := log_of w t @ [c])"
    and publish_fail: "inv w \<Longrightarrow> publish ctx t m w = (Some e, w') \<Longrightarrow> log_of w' = log_of w"
    and publish_ready: "inv w \<Longrightarrow> ready w \<Longrightarrow> fst (publish ctx t m w) = None"
    and ready_publish: "inv w \<Longrightarrow> ready (snd (publish ctx t m w)) = ready w"
begin

lemma publish_cases:
  assumes "inv w" and "publish ctx t m w = (e, w')"
  obtains (ok) c where "e = None" "same_content c m" "Topic c = t"
      "log_of w' = (log_of w)(t := log_of w t @ [c])"
    | (failed) err where "e = Some err" "log_of w' = log_of w" "\<not> ready w"
proof (cases e)
  case None
  with assms publish_ok [of w ctx t m w'] show ?thesis using ok by auto
next
  case (Some err)
  with assms publish_fail [of w ctx t m err w'] publish_ready [of w ctx t m] show ?thesis
    using failed by force
qed

end

section \<open>Subscribing\<close>

locale subscribing =
  fixes subscribe :: "go_context \<Rightarrow> string \<Rightarrow> 'h \<Rightarrow> 'w \<Rightarrow> (go_error + 's) \<times> 'w"
    and cancel :: "'s \<Rightarrow> 'w \<Rightarrow> go_error option \<times> 'w"
    and active :: "'w \<Rightarrow> ('s \<times> string \<times> 'h) set"
    and inv :: "'w \<Rightarrow> bool"
  assumes subscribe_inv: "inv w \<Longrightarrow> inv (snd (subscribe ctx t h w))"
    and cancel_inv: "inv w \<Longrightarrow> inv (snd (cancel s w))"
    and subscribe_ok: "inv w \<Longrightarrow> subscribe ctx t h w = (Inr s, w') \<Longrightarrow>
      s \<notin> fst ` active w \<and> active w' = insert (s, t, h) (active w)"
    and subscribe_fail: "inv w \<Longrightarrow> subscribe ctx t h w = (Inl e, w') \<Longrightarrow> active w' = active w"
    and cancel_active: "inv w \<Longrightarrow> active (snd (cancel s w)) = {x \<in> active w. fst x \<noteq> s}"

section \<open>Closing\<close>

text \<open>The calls that change a producer of an adapter, and the function it is given to publish with.\<close>

type_synonym 'w publish_fn = "go_context \<Rightarrow> string \<Rightarrow> message \<Rightarrow> 'w \<Rightarrow> go_error option \<times> 'w"

datatype 'w producer_call = PConnect | PClose | PSetPublish "'w publish_fn option"

text \<open>
  What the clients of an adapter that was closed rely on: no later call makes it connected again.
\<close>

locale closing =
  fixes call :: "'op \<Rightarrow> 's \<Rightarrow> 's"
    and closed :: "'s \<Rightarrow> bool"
    and is_connected :: "'s \<Rightarrow> bool"
  assumes closed_stays: "closed s \<Longrightarrow> closed (call op s)"
    and closed_off: "closed s \<Longrightarrow> \<not> is_connected s"
begin

lemma stays_off: "closed s \<Longrightarrow> closed (fold call ops s) \<and> \<not> is_connected (fold call ops s)"
  by (induction ops arbitrary: s) (simp_all add: closed_stays closed_off)

end

section \<open>The in-memory broker provides both\<close>

definition im_ok :: "runtime \<Rightarrow> 'h im_world \<Rightarrow> bool" where
  "im_ok rt w \<longleftrightarrow> unique_uuids rt \<and> im_inv rt w"

definition im_publish ::
  "runtime \<Rightarrow> go_context \<Rightarrow> string \<Rightarrow> message \<Rightarrow> 'h im_world \<Rightarrow> go_error option \<times> 'h im_world" where
  "im_publish rt ctx t m w = Publish rt t m w"

definition im_subscribe ::
  "runtime \<Rightarrow> go_context \<Rightarrow> string \<Rightarrow> 'h \<Rightarrow> 'h im_world \<Rightarrow> (go_error + nat) \<times> 'h im_world" where
  "im_subscribe rt ctx t h w = Subscribe rt t h w"

definition active_subs :: "'h im_world \<Rightarrow> (nat \<times> string \<times> 'h) set" where
  "active_subs w =
     {(a, t, h). \<exists>x. sub_at w a = Some x \<and> ims_active x \<and> ims_topic x = t \<and>
                    (ims_id x, h) \<in> set (live (abs_im w) t)}"

lemma Publish_log:
  assumes "Publish rt t m w = (e, w')"
  shows "if connected (im w)
    then e = None \<and> queue_of w' = (queue_of w)(t := queue_of w t @ [a_stamp t (time_Now rt (ticks w)) m])
    else e = Some (Sentinel ErrNotConnected) \<and> w' = w"
  using assms
  by (auto simp: Publish_connected Publish_not_connected a_stamp_def fun_eq_iff)

lemma connected_Publish [simp]: "connected (im (snd (Publish rt t m w))) = connected (im w)"
  by (cases "connected (im w)") (simp_all add: Publish_connected Publish_not_connected)

lemma same_content_stamp [simp]: "same_content (a_stamp t ts m) m" "Topic (a_stamp t ts m) = t"
  by (simp_all add: a_stamp_def same_content_def)

lemma a_stamp_simps [simp]:
  "slice_bytes (Value (a_stamp t now m)) = slice_bytes (Value m)" "slice_bytes (Key (a_stamp t now m)) = slice_bytes (Key m)"
  "GetHeader (a_stamp t now m) = GetHeader m" "Timestamp (a_stamp t now m) = now"
  by (simp_all add: a_stamp_def)

interpretation impub: publishing "im_publish rt" queue_of IsConnected "im_ok rt" for rt
proof (unfold_locales, goal_cases)
  case (1 w ctx t m)
  then show ?case by (simp add: im_ok_def im_publish_def im_inv_Publish)
next
  case (2 w ctx t m w')
  then show ?case
    using Publish_log [of rt t m w None w'] same_content_stamp
    by (fastforce simp: im_publish_def split: if_splits)
next
  case (3 w ctx t m e w')
  then show ?case
    using Publish_log [of rt t m w "Some e" w'] by (simp add: im_publish_def split: if_splits)
next
  case (4 w ctx t m)
  then show ?case by (simp add: im_publish_def IsConnected_def Publish_connected)
next
  case (5 w ctx t m)
  then show ?case by (simp add: im_publish_def IsConnected_def)
qed

lemma live_ids_issued:
  "subs_ok rt w \<Longrightarrow> (i, h) \<in> set (live (abs_im w) t) \<Longrightarrow> i \<in> issued rt (ticks w)"
  by (auto simp: subs_ok_def live_entries_def)

lemma active_subs_Subscribe:
  assumes "im_ok rt w" and "connected (im w)"
  shows "active_subs (snd (Subscribe rt t h w)) = insert (length (sub_heap w), t, h) (active_subs w)"
proof -
  let ?w = "snd (Subscribe rt t h w)" and ?u = "uuid_New rt (ticks w)"
  from assms(1) have fresh: "?u \<notin> issued rt (ticks w)" and inv: "subs_ok rt w" "handles_ok rt w"
    by (auto simp: im_ok_def im_inv_def issued_fresh)
  have live: "live (abs_im ?w) t' = live (abs_im w) t' @ (if t' = t then [(?u, h)] else [])" for t'
    using assms(2) by (simp add: abs_Subscribe a_subscribe_def)
  have at: "sub_at ?w a = (if a = length (sub_heap w)
      then Some \<lparr>ims_id = ?u, ims_topic = t, ims_active = True\<rparr> else sub_at w a)" for a
    using assms(2) by (auto simp: Subscribe_connected sub_at_def nth_append)
  have old: "ims_id x \<noteq> ?u" if "sub_at w a = Some x" for a x
    using that inv(2) fresh unfolding handles_ok_def by (metis image_subset_iff nth_mem sub_at_Some)
  have new: "(?u, h') \<notin> set (live (abs_im w) t')" for h' t'
    using live_ids_issued [OF inv(1)] fresh by blast
  have none: "sub_at w (length (sub_heap w)) = None" by (simp add: sub_at_def)
  have "(a, t', h') \<in> active_subs ?w \<longleftrightarrow>
      (a, t', h') = (length (sub_heap w), t, h) \<or> (a, t', h') \<in> active_subs w" for a t' h'
  proof (cases "a = length (sub_heap w)")
    case True
    with new none show ?thesis by (auto simp: active_subs_def live at simp del: abs_simps)
  next
    case False
    with old show ?thesis by (auto simp: active_subs_def live at simp del: abs_simps)
  qed
  then show ?thesis by (simp add: set_eq_iff)
qed

lemma active_subs_cancel:
  assumes "im_ok rt w"
  shows "active_subs (snd (inMemorySub_Unsubscribe a w)) = {x \<in> active_subs w. fst x \<noteq> a}"
proof (cases "\<exists>x. sub_at w a = Some x \<and> ims_active x")
  case True
  then obtain x where x: "sub_at w a = Some x" "ims_active x" by blast
  from assms have inv: "im_inv rt w" by (simp add: im_ok_def)
  let ?w = "snd (inMemorySub_Unsubscribe a w)"
  have live: "live (abs_im ?w) t' =
      (if t' = ims_topic x then filter (\<lambda>(j, h). j \<noteq> ims_id x) (live (abs_im w) t') else live (abs_im w) t')" for t'
    using abs_sub_Unsubscribe [OF inv x] by (simp add: a_cancel_def)
  have at: "sub_at ?w b = (if b = a then Some (x\<lparr>ims_active := False\<rparr>) else sub_at w b)" for b
    using x inMemorySub_Unsubscribe_eq [of rt w a x] inv
    by (auto simp: im_inv_def sub_at_def split: if_splits)
  have other: "ims_id y \<noteq> ims_id x" if "sub_at w b = Some y" "b \<noteq> a" for b y
    using that x(1) inv by (auto simp: im_inv_def handles_ok_def sub_at_Some distinct_conv_nth)
  show ?thesis
    unfolding active_subs_def live at using other by (auto split: if_splits)
next
  case False
  then have "inMemorySub_Unsubscribe a w = (None, w)"
    by (metis inMemorySub_Unsubscribe_idle not_None_eq)
  with False show ?thesis by (auto simp: active_subs_def)
qed

interpretation imsub: subscribing "im_subscribe rt" inMemorySub_Unsubscribe active_subs "im_ok rt" for rt
proof (unfold_locales, goal_cases)
  case (1 w ctx t h)
  then show ?case by (simp add: im_ok_def im_subscribe_def im_inv_Subscribe)
next
  case (2 w s)
  then show ?case by (simp add: im_ok_def im_inv_sub_Unsubscribe)
next
  case (3 w ctx t h s w')
  then have c: "connected (im w)" by (auto simp: im_subscribe_def Subscribe_def split: if_splits)
  with 3 active_subs_Subscribe [OF 3(1) c, of t h] show ?case
    by (auto simp: im_subscribe_def Subscribe_connected active_subs_def sub_at_def split: if_splits)
next
  case (4 w ctx t h e w')
  then show ?case by (auto simp: im_subscribe_def Subscribe_def Let_def split: if_splits)
next
  case (5 w s)
  then show ?case by (rule active_subs_cancel)
qed

section \<open>One subscription per topic\<close>

lemma active_subs_cong:
  "sub_heap w' = sub_heap w \<Longrightarrow> subscribers (im w') = subscribers (im w) \<Longrightarrow> active_subs w' = active_subs w"
  unfolding active_subs_def sub_at_def abs_im_def by (simp only: pubsub.simps)

lemma active_subs_frame [simp]:
  "active_subs (w\<lparr>ticks := n\<rparr>) = active_subs w" "active_subs (w\<lparr>goroutines := gs\<rparr>) = active_subs w"
  by (rule active_subs_cong; simp)+

lemma active_subs_Publish [simp]: "active_subs (snd (Publish rt t m w)) = active_subs w"
  by (cases "connected (im w)"; rule active_subs_cong) (simp_all add: Publish_connected Publish_not_connected)

lemma issued_mono: "n \<le> n' \<Longrightarrow> issued rt n \<subseteq> issued rt n'"
  by (auto simp: issued_def)

lemma im_ok_goroutines [simp]: "im_ok rt (w\<lparr>goroutines := gs\<rparr>) = im_ok rt w"
  by (simp add: im_ok_def im_inv_defs)

lemma im_ok_ticks: "im_ok rt w \<Longrightarrow> ticks w \<le> n \<Longrightarrow> im_ok rt (w\<lparr>ticks := n\<rparr>)"
  using issued_mono [of "ticks w" n rt] by (fastforce simp: im_ok_def im_inv_defs)

definition sole :: "'h im_world \<Rightarrow> string \<Rightarrow> 'h \<Rightarrow> bool" where
  "sole w t h \<longleftrightarrow> (\<exists>a. \<forall>a' h'. (a', t, h') \<in> active_subs w \<longleftrightarrow> a' = a \<and> h' = h)"

lemma live_handle:
  assumes "im_ok rt w" and "(i, h) \<in> set (live (abs_im w) t)"
  shows "\<exists>a x. sub_at w a = Some x \<and> ims_id x = i \<and> (a, t, h) \<in> active_subs w"
proof -
  from assms(2) obtain s where s: "s \<in> set (subs_of w t)" "sub_active s" "sub_id s = i" "sub_handler s = h"
    by (auto simp: live_entries_def)
  with assms(1) have "\<lparr>ims_id = i, ims_topic = t, ims_active = True\<rparr> \<in> set (sub_heap w)"
    by (auto simp: im_ok_def im_inv_def handles_ok_def)
  then obtain a where "sub_at w a = Some \<lparr>ims_id = i, ims_topic = t, ims_active = True\<rparr>"
    by (metis in_set_conv_nth sub_at_Some)
  with assms(2) show ?thesis by (fastforce simp: active_subs_def)
qed

lemma live_ids_distinct: "im_ok rt w \<Longrightarrow> distinct (map fst (live (abs_im w) t))"
  by (auto simp: im_ok_def im_inv_def subs_ok_def live_entries_def comp_def distinct_map_filter)

lemma sole_live:
  assumes "im_ok rt w" and "sole w t h"
  shows "\<exists>i. live (abs_im w) t = [(i, h)]"
proof -
  from assms(2) obtain a where a: "\<And>a' h'. (a', t, h') \<in> active_subs w \<longleftrightarrow> a' = a \<and> h' = h"
    by (auto simp: sole_def)
  then obtain x where x: "sub_at w a = Some x" "(ims_id x, h) \<in> set (live (abs_im w) t)"
    by (auto simp: active_subs_def)
  have "y = (ims_id x, h)" if "y \<in> set (live (abs_im w) t)" for y
    using live_handle [OF assms(1), of "fst y" "snd y" t] that a x(1) by (cases y) fastforce
  with x(2) have "set (live (abs_im w) t) = {(ims_id x, h)}" by blast
  moreover have "distinct (live (abs_im w) t)"
    using live_ids_distinct [OF assms(1), of t] by (simp add: distinct_map)
  ultimately have "length (live (abs_im w) t) = 1" by (metis card.empty card_insert_disjoint distinct_card empty_iff finite.emptyI One_nat_def)
  with x(2) show ?thesis by (auto simp: length_Suc_conv)
qed

lemma publish_sole:
  assumes "im_ok rt w" and "connected (im w)" and "sole w t h" and "Publish rt t m w = (e, w')"
  shows "e = None" and "goroutines w' = goroutines w @ [(h, a_stamp t (time_Now rt (ticks w)) m)]"
    and "im_ok rt w'" and "connected (im w')" and "active_subs w' = active_subs w"
    and "stopCh (im w') = stopCh (im w)"
  using assms sole_live [OF assms(1,3)] goroutines_Publish [of rt t m w]
    impub.publish_inv [OF assms(1), of undefined t m] active_subs_Publish [of rt t m w]
  by (auto simp: a_deliveries_def im_publish_def Publish_connected)

end
