(* ===== verification/AsyncProducer.thy ===== *)
theory AsyncProducer
  imports Codecs Broker_Interface "HOL-Library.Multiset"
begin

text \<open>
  \<open>AsyncProducer\<close> of \<open>pkg/producer/producer.go\<close>: the struct and its methods, and the
  producer as it runs, as a step relation. Callers of \<open>Send\<close>, \<open>Start\<close> and \<open>Stop\<close>
  interleave with the goroutines that run \<open>sendLoop\<close> and with whatever others do to the
  broker. A loop holds its context; that it is cancelled, or that its deadline passes, is a step
  of its own, after which the loop may take the third branch of its \<open>select\<close>. \<open>Send\<close> is split between the check of \<open>running\<close> and the channel operation. The
  history records the messages the channel accepted, the order in which they were received from
  it, and the result of every publish. Nothing here looks at a message: its type is a parameter,
  to be the value or the address of a message.
\<close>

section \<open>The struct and its methods\<close>

record 'm pendingMessage =
  pm_topic :: string
  pm_msg :: 'm

record ('m, 'v) AsyncProducer =
  ap_serializer :: "'v Serializer option"
  ap_compressor :: "Compressor option"
  bufferSize :: int64
  msgCh :: "'m pendingMessage list"
  errCh :: "go_error list"
  ap_stopCh :: signal_chan
  ap_running :: bool
  ap_sent :: int64
  ap_failed :: int64

definition NewAsyncProducer :: "int64 \<Rightarrow> ('m, 'v) AsyncProducer" where
  "NewAsyncProducer bsize =
     \<lparr>ap_serializer = None, ap_compressor = None, bufferSize = (if sint bsize < 1 then 1000 else bsize),
      msgCh = [], errCh = [], ap_stopCh = ChanOpen, ap_running = False, ap_sent = 0, ap_failed = 0\<rparr>"

definition ap_SetSerializer :: "'v Serializer option \<Rightarrow> ('m, 'v) AsyncProducer \<Rightarrow> ('m, 'v) AsyncProducer" where
  "ap_SetSerializer s ap = ap\<lparr>ap_serializer := s\<rparr>"

definition ap_SetCompressor :: "Compressor option \<Rightarrow> ('m, 'v) AsyncProducer \<Rightarrow> ('m, 'v) AsyncProducer" where
  "ap_SetCompressor c ap = ap\<lparr>ap_compressor := c\<rparr>"

abbreviation chan_cap :: "('m, 'v) AsyncProducer \<Rightarrow> nat" where
  "chan_cap ap \<equiv> nat (sint (bufferSize ap))"

definition ap_Start_swap :: "('m, 'v) AsyncProducer \<Rightarrow> bool \<times> ('m, 'v) AsyncProducer" where
  "ap_Start_swap ap = (\<not> ap_running ap, ap\<lparr>ap_running := True\<rparr>)"

definition ap_Stop_swap :: "('m, 'v) AsyncProducer \<Rightarrow> go_panic + ('m, 'v) AsyncProducer" where
  "ap_Stop_swap ap =
     (if \<not> ap_running ap then Inr ap
      else case close_chan (ap_stopCh ap) of
             Inl p \<Rightarrow> Inl p
           | Inr c \<Rightarrow> Inr (ap\<lparr>ap_running := False, ap_stopCh := c\<rparr>))"

definition Send_check :: "('m, 'v) AsyncProducer \<Rightarrow> go_error option" where
  "Send_check ap = (if \<not> ap_running ap then Some (ErrorString ''async producer not started'') else None)"

definition Send_enqueue :: "'m pendingMessage \<Rightarrow> ('m, 'v) AsyncProducer \<Rightarrow> go_error option \<times> ('m, 'v) AsyncProducer" where
  "Send_enqueue pm ap =
     (case try_send (chan_cap ap) (msgCh ap) pm of
        Some q \<Rightarrow> (None, ap\<lparr>msgCh := q\<rparr>)
      | None \<Rightarrow> (Some (ErrorString (''send buffer full (capacity: '' @ fmt_d (sint (bufferSize ap)) @ '')'')), ap))"

definition ap_Send :: "string \<Rightarrow> 'm \<Rightarrow> ('m, 'v) AsyncProducer \<Rightarrow> go_error option \<times> ('m, 'v) AsyncProducer" where
  "ap_Send topic msg ap =
     (case Send_check ap of
        Some e \<Rightarrow> (Some e, ap)
      | None \<Rightarrow> Send_enqueue \<lparr>pm_topic = topic, pm_msg = msg\<rparr> ap)"

text \<open>
  One publish of \<open>sendLoop\<close>. A failure is reported on \<open>errCh\<close>, if there is room, only
  outside the drain that follows a stop.
\<close>

definition count_result :: "bool \<Rightarrow> go_error option \<Rightarrow> ('m, 'v) AsyncProducer \<Rightarrow> ('m, 'v) AsyncProducer" where
  "count_result draining r ap =
     (case r of
        None \<Rightarrow> ap\<lparr>ap_sent := ap_sent ap + 1\<rparr>
      | Some err \<Rightarrow>
          let ap' = ap\<lparr>ap_failed := ap_failed ap + 1\<rparr>
          in if draining then ap'
             else (case try_send (chan_cap ap') (errCh ap') err of None \<Rightarrow> ap' | Some q \<Rightarrow> ap'\<lparr>errCh := q\<rparr>))"

definition Errors_recv :: "('m, 'v) AsyncProducer \<Rightarrow> (go_error \<times> ('m, 'v) AsyncProducer) option" where
  "Errors_recv ap = map_option (\<lambda>(e, q). (e, ap\<lparr>errCh := q\<rparr>)) (try_recv (errCh ap))"

definition ap_SentCount :: "('m, 'v) AsyncProducer \<Rightarrow> int64" where
  "ap_SentCount ap = ap_sent ap"

definition ap_FailedCount :: "('m, 'v) AsyncProducer \<Rightarrow> int64" where
  "ap_FailedCount ap = ap_failed ap"

section \<open>The running producer\<close>

datatype 'm send_pc = ApSelect | ApPublish "'m pendingMessage" bool | ApDrain | ApDone

record ('m, 'v, 'w) ap_system =
  prod :: "('m, 'v) AsyncProducer"
  bw :: 'w
  senders :: "'m pendingMessage list"
  sloops :: "(go_context \<times> 'm send_pc) list"
  accepted :: "'m pendingMessage list"
  received :: "'m pendingMessage list"
  outcomes :: "('m pendingMessage \<times> go_error option) list"

definition init_async :: "int64 \<Rightarrow> 'w \<Rightarrow> ('m, 'v, 'w) ap_system" where
  "init_async bsize w =
     \<lparr>prod = NewAsyncProducer bsize, bw = w, senders = [], sloops = [], accepted = [], received = [],
      outcomes = []\<rparr>"

inductive ap_step ::
  "(go_context \<Rightarrow> string \<Rightarrow> 'm \<Rightarrow> 'w \<Rightarrow> go_error option \<times> 'w) \<Rightarrow>
   ('m, 'v, 'w) ap_system \<Rightarrow> ('m, 'v, 'w) ap_system \<Rightarrow> bool"
  for publish :: "go_context \<Rightarrow> string \<Rightarrow> 'm \<Rightarrow> 'w \<Rightarrow> go_error option \<times> 'w" where
  send_check: "Send_check (prod s) = None \<Longrightarrow> ap_step publish s (s\<lparr>senders := senders s @ [pm]\<rparr>)"
| send_enqueue: "senders s = xs @ pm # ys \<Longrightarrow> Send_enqueue pm (prod s) = (e, ap') \<Longrightarrow>
    ap_step publish s (s\<lparr>prod := ap', senders := xs @ ys,
      accepted := accepted s @ (if e = None then [pm] else [])\<rparr>)"
| start: "ap_Start_swap (prod s) = (spawn, ap') \<Longrightarrow>
    ap_step publish s (s\<lparr>prod := ap', sloops := sloops s @ (if spawn then [(ctx, ApSelect)] else [])\<rparr>)"
| stop: "ap_Stop_swap (prod s) = Inr ap' \<Longrightarrow> ap_step publish s (s\<lparr>prod := ap'\<rparr>)"
| read_error: "Errors_recv (prod s) = Some (e, ap') \<Longrightarrow> ap_step publish s (s\<lparr>prod := ap'\<rparr>)"
| others: "ap_step publish s (s\<lparr>bw := w'\<rparr>)"
| recv: "sloops s = xs @ (ctx, ApSelect) # ys \<Longrightarrow> try_recv (msgCh (prod s)) = Some (pm, q) \<Longrightarrow>
    ap_step publish s (s\<lparr>prod := (prod s)\<lparr>msgCh := q\<rparr>, received := received s @ [pm],
      sloops := xs @ (ctx, ApPublish pm False) # ys\<rparr>)"
| stopped: "sloops s = xs @ (ctx, ApSelect) # ys \<Longrightarrow> ap_stopCh (prod s) = ChanClosed \<Longrightarrow>
    ap_step publish s (s\<lparr>sloops := xs @ (ctx, ApDrain) # ys\<rparr>)"
| context_done: "sloops s = xs @ (ctx, pc) # ys \<Longrightarrow> ctx_err ctx = None \<Longrightarrow>
    ap_step publish s (s\<lparr>sloops := xs @ (ctx\<lparr>ctx_err := Some e\<rparr>, pc) # ys\<rparr>)"
| cancelled: "sloops s = xs @ (ctx, ApSelect) # ys \<Longrightarrow> ctx_err ctx \<noteq> None \<Longrightarrow>
    ap_step publish s (s\<lparr>sloops := xs @ (ctx, ApDone) # ys\<rparr>)"
| drain_recv: "sloops s = xs @ (ctx, ApDrain) # ys \<Longrightarrow> try_recv (msgCh (prod s)) = Some (pm, q) \<Longrightarrow>
    ap_step publish s (s\<lparr>prod := (prod s)\<lparr>msgCh := q\<rparr>, received := received s @ [pm],
      sloops := xs @ (ctx, ApPublish pm True) # ys\<rparr>)"
| drained: "sloops s = xs @ (ctx, ApDrain) # ys \<Longrightarrow> try_recv (msgCh (prod s)) = None \<Longrightarrow>
    ap_step publish s (s\<lparr>sloops := xs @ (ctx, ApDone) # ys\<rparr>)"
| publish: "sloops s = xs @ (ctx, ApPublish pm d) # ys \<Longrightarrow>
    publish ctx (pm_topic pm) (pm_msg pm) (bw s) = (r, w') \<Longrightarrow>
    ap_step publish s (s\<lparr>prod := count_result d r (prod s), bw := w', outcomes := outcomes s @ [(pm, r)],
      sloops := xs @ (ctx, if d then ApDrain else ApSelect) # ys\<rparr>)"

section \<open>Invariant\<close>

fun being_sent :: "'m send_pc \<Rightarrow> 'm pendingMessage list" where
  "being_sent (ApPublish pm d) = [pm]"
| "being_sent _ = []"

definition in_publish :: "('m, 'v, 'w) ap_system \<Rightarrow> 'm pendingMessage list" where
  "in_publish s = concat (map (being_sent \<circ> snd) (sloops s))"

definition conserved :: "('m, 'v, 'w) ap_system \<Rightarrow> bool" where
  "conserved s \<longleftrightarrow> received s @ msgCh (prod s) = accepted s \<and>
     mset (received s) = mset (map fst (outcomes s)) + mset (in_publish s)"

definition counted :: "('m, 'v, 'w) ap_system \<Rightarrow> bool" where
  "counted s \<longleftrightarrow> ap_sent (prod s) = of_nat (length (filter (\<lambda>x. snd x = None) (outcomes s))) \<and>
     ap_failed (prod s) = of_nat (length (filter (\<lambda>x. snd x \<noteq> None) (outcomes s)))"

definition bounded :: "('m, 'v, 'w) ap_system \<Rightarrow> bool" where
  "bounded s \<longleftrightarrow> length (msgCh (prod s)) \<le> chan_cap (prod s) \<and> length (errCh (prod s)) \<le> chan_cap (prod s)"

lemma count_result_frame [simp]:
  "msgCh (count_result d r ap) = msgCh ap" "bufferSize (count_result d r ap) = bufferSize ap"
  "ap_stopCh (count_result d r ap) = ap_stopCh ap" "ap_running (count_result d r ap) = ap_running ap"
  by (simp_all add: count_result_def Let_def split: option.splits)

lemma count_result_counts:
  "ap_sent (count_result d r ap) = ap_sent ap + (if r = None then 1 else 0)"
  "ap_failed (count_result d r ap) = ap_failed ap + (if r = None then 0 else 1)"
  "length (errCh ap) \<le> chan_cap ap \<Longrightarrow> length (errCh (count_result d r ap)) \<le> chan_cap ap"
  by (auto simp: count_result_def Let_def try_send_def split: option.splits)

lemma ap_frames:
  "ap_Start_swap ap = (spawn, ap') \<Longrightarrow> ap' = ap\<lparr>ap_running := True\<rparr>"
  "ap_Stop_swap ap = Inr ap' \<Longrightarrow> ap' = ap \<or> ap' = ap\<lparr>ap_running := False, ap_stopCh := ChanClosed\<rparr>"
  "Errors_recv ap = Some (e, ap') \<Longrightarrow> \<exists>q. errCh ap = e # q \<and> ap' = ap\<lparr>errCh := q\<rparr>"
  by (auto simp: ap_Start_swap_def ap_Stop_swap_def Errors_recv_def try_recv_Some split: if_splits sum.splits)
     (cases "ap_stopCh ap"; auto)

lemma Send_enqueue_cases:
  assumes "Send_enqueue pm ap = (e, ap')"
  obtains (ok) "e = None" "ap' = ap\<lparr>msgCh := msgCh ap @ [pm]\<rparr>" "length (msgCh ap) < chan_cap ap"
    | (full) err where "e = Some err" "ap' = ap" "chan_cap ap \<le> length (msgCh ap)"
  using assms by (auto simp: Send_enqueue_def try_send_def split: if_splits)

lemma conserved_step:
  assumes "conserved s" and "ap_step publish s t"
  shows "conserved t"
  using assms(2,1)
proof (cases rule: ap_step.cases)
  case (send_enqueue xs pm ys e ap')
  from send_enqueue(3) show ?thesis
    by (cases rule: Send_enqueue_cases)
       (use send_enqueue assms(1) in \<open>auto simp: conserved_def in_publish_def\<close>)
next
  case (stop ap')
  with ap_frames(2) assms(1) show ?thesis by (fastforce simp: conserved_def in_publish_def)
next
  case (read_error e ap')
  with ap_frames(3) assms(1) show ?thesis by (fastforce simp: conserved_def in_publish_def)
qed (use assms(1) in \<open>auto simp: conserved_def in_publish_def try_recv_Some dest!: ap_frames(1)\<close>)

lemma counted_step:
  assumes "counted s" and "ap_step publish s t"
  shows "counted t"
  using assms(2,1)
proof (cases rule: ap_step.cases)
  case (send_enqueue xs pm ys e ap')
  from send_enqueue(3) show ?thesis
    by (cases rule: Send_enqueue_cases) (use send_enqueue assms(1) in \<open>auto simp: counted_def\<close>)
next
  case (stop ap')
  with ap_frames(2) assms(1) show ?thesis by (fastforce simp: counted_def)
next
  case (read_error e ap')
  with ap_frames(3) assms(1) show ?thesis by (fastforce simp: counted_def)
qed (use assms(1) in \<open>auto simp: counted_def count_result_counts dest!: ap_frames(1)\<close>)

lemma bounded_step:
  assumes "bounded s" and "ap_step publish s t"
  shows "bounded t"
  using assms(2,1)
proof (cases rule: ap_step.cases)
  case (send_enqueue xs pm ys e ap')
  from send_enqueue(3) show ?thesis
    by (cases rule: Send_enqueue_cases) (use send_enqueue assms(1) in \<open>auto simp: bounded_def\<close>)
next
  case (stop ap')
  with ap_frames(2) assms(1) show ?thesis by (fastforce simp: bounded_def)
next
  case (read_error e ap')
  with ap_frames(3) assms(1) show ?thesis by (fastforce simp: bounded_def)
qed (use assms(1) in \<open>auto simp: bounded_def count_result_counts try_recv_Some dest!: ap_frames(1)\<close>)

definition initial_async :: "('m, 'v, 'w) ap_system \<Rightarrow> bool" where
  "initial_async s \<longleftrightarrow> (\<exists>bsize w. s = init_async bsize w)"

interpretation apsys: step_invariant initial_async "ap_step publish" "\<lambda>s. conserved s \<and> counted s \<and> bounded s"
  for publish
proof (unfold_locales, goal_cases)
  case (1 s)
  then show ?case
    by (auto simp: initial_async_def init_async_def NewAsyncProducer_def conserved_def in_publish_def counted_def
        bounded_def)
next
  case (2 s t)
  then show ?case using conserved_step counted_step bounded_step by blast
qed

section \<open>Draining\<close>

text \<open>The inner loop of the stop branch, without interference: the results of its publishes, and the broker after it.\<close>

fun drain ::
  "(go_context \<Rightarrow> string \<Rightarrow> 'm \<Rightarrow> 'w \<Rightarrow> go_error option \<times> 'w) \<Rightarrow> go_context \<Rightarrow> 'm pendingMessage list \<Rightarrow>
   'w \<Rightarrow> ('m pendingMessage \<times> go_error option) list \<times> 'w" where
  "drain publish ctx [] w = ([], w)"
| "drain publish ctx (pm # pms) w =
     (let (r, w1) = publish ctx (pm_topic pm) (pm_msg pm) w; (os, w2) = drain publish ctx pms w1
      in ((pm, r) # os, w2))"

lemma drain_fst: "map fst (fst (drain publish ctx pms w)) = pms"
  by (induction pms arbitrary: w) (auto split: prod.splits, metis fst_conv)

lemma drain_steps:
  assumes "sloops s = xs @ (ctx, ApDrain) # ys" and "msgCh (prod s) = pms"
  shows "\<exists>t. (ap_step publish)\<^sup>*\<^sup>* s t \<and> sloops t = xs @ (ctx, ApDone) # ys \<and> msgCh (prod t) = [] \<and>
    outcomes t = outcomes s @ fst (drain publish ctx pms (bw s)) \<and> bw t = snd (drain publish ctx pms (bw s)) \<and>
    accepted t = accepted s"
  using assms
proof (induction pms arbitrary: s)
  case Nil
  then have "ap_step publish s (s\<lparr>sloops := xs @ (ctx, ApDone) # ys\<rparr>)" by (intro ap_step.drained) simp_all
  with Nil show ?case by (intro exI [of _ "s\<lparr>sloops := xs @ (ctx, ApDone) # ys\<rparr>"]) auto
next
  case (Cons pm pms)
  obtain r w1 where r: "publish ctx (pm_topic pm) (pm_msg pm) (bw s) = (r, w1)" by fastforce
  define s1 where "s1 = s\<lparr>prod := (prod s)\<lparr>msgCh := pms\<rparr>, received := received s @ [pm],
    sloops := xs @ (ctx, ApPublish pm True) # ys\<rparr>"
  define s2 where "s2 = s1\<lparr>prod := count_result True r (prod s1), bw := w1, outcomes := outcomes s1 @ [(pm, r)],
    sloops := xs @ (ctx, ApDrain) # ys\<rparr>"
  have 1: "ap_step publish s s1"
    unfolding s1_def using Cons.prems by (intro ap_step.drain_recv) (simp_all add: try_recv_Some)
  have 2: "ap_step publish s1 s2"
    using ap_step.publish [of s1 xs ctx pm True ys publish r w1] r by (simp add: s2_def s1_def)
  have "sloops s2 = xs @ (ctx, ApDrain) # ys" "msgCh (prod s2) = pms" by (simp_all add: s2_def s1_def)
  from Cons.IH [OF this] obtain t where t: "(ap_step publish)\<^sup>*\<^sup>* s2 t" "sloops t = xs @ (ctx, ApDone) # ys"
    "msgCh (prod t) = []" "outcomes t = outcomes s2 @ fst (drain publish ctx pms (bw s2))"
    "bw t = snd (drain publish ctx pms (bw s2))" "accepted t = accepted s2" by blast
  from 1 2 t(1) have "(ap_step publish)\<^sup>*\<^sup>* s t" by (meson converse_rtranclp_into_rtranclp)
  moreover have "bw s2 = w1" "outcomes s2 = outcomes s @ [(pm, r)]" "accepted s2 = accepted s"
    by (simp_all add: s2_def s1_def)
  ultimately show ?case using t r by (intro exI [of _ t]) (simp add: split_beta)
qed

context publishing
begin

lemma drain_ready:
  assumes "inv w" and "ready w"
  shows "fst (drain publish ctx pms w) = map (\<lambda>pm. (pm, None)) pms \<and>
    (\<forall>t. \<exists>ms. log_of (snd (drain publish ctx pms w)) t = log_of w t @ ms \<and>
      list_all2 same_content ms (map pm_msg (filter (\<lambda>pm. pm_topic pm = t) pms)))"
  using assms
proof (induction pms arbitrary: w)
  case Nil
  then show ?case by simp
next
  case (Cons pm pms)
  obtain r w1 where r: "publish ctx (pm_topic pm) (pm_msg pm) w = (r, w1)" by fastforce
  with publish_ready [OF Cons.prems, of ctx "pm_topic pm" "pm_msg pm"]
    publish_inv [OF Cons.prems(1), of ctx "pm_topic pm" "pm_msg pm"]
    ready_publish [OF Cons.prems(1), of ctx "pm_topic pm" "pm_msg pm"] Cons.prems(2)
  have w1: "r = None" "inv w1" "ready w1" by simp_all
  from publish_ok [OF Cons.prems(1) r [unfolded w1(1)]] obtain c where c: "same_content c (pm_msg pm)"
    and l: "log_of w1 = (log_of w)(pm_topic pm := log_of w (pm_topic pm) @ [c])" by blast
  note IH = Cons.IH [OF w1(2,3)]
  have "\<exists>ms. log_of (snd (drain publish ctx (pm # pms) w)) t = log_of w t @ ms \<and>
      list_all2 same_content ms (map pm_msg (filter (\<lambda>pm. pm_topic pm = t) (pm # pms)))" for t
  proof -
    from IH obtain ms where ms: "log_of (snd (drain publish ctx pms w1)) t = log_of w1 t @ ms"
      "list_all2 same_content ms (map pm_msg (filter (\<lambda>pm. pm_topic pm = t) pms))" by blast
    show ?thesis
    proof (cases "pm_topic pm = t")
      case True
      with ms l c r show ?thesis by (intro exI [of _ "c # ms"]) (auto simp: split_beta)
    next
      case False
      with ms l r show ?thesis by (intro exI [of _ ms]) (auto simp: split_beta)
    qed
  qed
  with IH r w1(1) show ?case by (simp add: split_beta)
qed

end

text \<open>
  A loop that sees the stop signal can finish, and when it is not disturbed every message in the
  channel arrives at a connected in-memory broker, in order and with the content that was sent.
  The serializer and the compressor of the producer have no part in it.
\<close>

lemma undisturbed_drain_delivers:
  assumes "im_ok rt (bw s)" and "IsConnected (bw s)" and "ap_stopCh (prod s) = ChanClosed"
    and "sloops s = xs @ (ctx, ApSelect) # ys"
  shows "\<exists>t. (ap_step (im_publish rt))\<^sup>*\<^sup>* s t \<and> sloops t = xs @ (ctx, ApDone) # ys \<and> msgCh (prod t) = [] \<and>
    outcomes t = outcomes s @ map (\<lambda>pm. (pm, None)) (msgCh (prod s)) \<and>
    (\<forall>topic. \<exists>ms. queue_of (bw t) topic = queue_of (bw s) topic @ ms \<and>
       list_all2 same_content ms (map pm_msg (filter (\<lambda>pm. pm_topic pm = topic) (msgCh (prod s)))))"
proof -
  define s1 where "s1 = s\<lparr>sloops := xs @ (ctx, ApDrain) # ys\<rparr>"
  have st: "ap_step (im_publish rt) s s1" unfolding s1_def using assms(3,4) by (intro ap_step.stopped)
  have s1: "sloops s1 = xs @ (ctx, ApDrain) # ys" "msgCh (prod s1) = msgCh (prod s)" "bw s1 = bw s"
    "outcomes s1 = outcomes s" by (simp_all add: s1_def)
  from drain_steps [OF s1(1,2), of "im_publish rt"] obtain t where
    t: "(ap_step (im_publish rt))\<^sup>*\<^sup>* s1 t" "sloops t = xs @ (ctx, ApDone) # ys" "msgCh (prod t) = []"
      "outcomes t = outcomes s @ fst (drain (im_publish rt) ctx (msgCh (prod s)) (bw s))"
      "bw t = snd (drain (im_publish rt) ctx (msgCh (prod s)) (bw s))"
    using s1(3,4) by auto
  from st t(1) have "(ap_step (im_publish rt))\<^sup>*\<^sup>* s t" by (rule converse_rtranclp_into_rtranclp)
  with t impub.drain_ready [OF assms(1,2), of ctx "msgCh (prod s)"] show ?thesis by auto
qed

section \<open>When a loop returns\<close>

lemma ap_step_loop:
  assumes "ap_step publish s t" and "i < length (sloops s)"
  shows "i < length (sloops t)" "ctx_err (fst (sloops t ! i)) = None \<Longrightarrow> ctx_err (fst (sloops s ! i)) = None"
    "ap_stopCh (prod s) = ChanClosed \<Longrightarrow> ap_stopCh (prod t) = ChanClosed"
  using assms
  by (cases rule: ap_step.cases;
      force simp: nth_append nth_Cons' dest: ap_frames(1) elim: Send_enqueue_cases dest!: ap_frames(2,3) split: if_splits)+

lemma ap_step_histories:
  assumes "ap_step publish s t"
  shows "\<exists>ms ns. accepted t = accepted s @ ms \<and> received t = received s @ ns"
  using assms by (cases rule: ap_step.cases) auto

text \<open>A loop whose context is not done starts to drain only after a stop, and returns only from an empty channel.\<close>

definition draining :: "'m send_pc \<Rightarrow> bool" where
  "draining pc \<longleftrightarrow> pc = ApDrain \<or> pc = ApDone \<or> (\<exists>pm. pc = ApPublish pm True)"

lemma ap_step_returns:
  assumes "ap_step publish s t" and "i < length (sloops s)" and "ctx_err (fst (sloops t ! i)) = None"
  shows "snd (sloops t ! i) = ApDone \<Longrightarrow> snd (sloops s ! i) \<noteq> ApDone \<Longrightarrow> msgCh (prod s) = [] \<and> received t = received s"
    and "draining (snd (sloops t ! i)) \<Longrightarrow> \<not> draining (snd (sloops s ! i)) \<Longrightarrow> ap_stopCh (prod t) = ChanClosed"
  using assms
  by (cases rule: ap_step.cases;
      auto simp: nth_append nth_Cons' try_recv_None draining_def split: if_splits)+

lemma new_loops_select:
  assumes "ap_step publish s t" and "length (sloops s) \<le> i" and "i < length (sloops t)"
  shows "snd (sloops t ! i) = ApSelect"
  using assms by (cases rule: ap_step.cases) (auto simp: nth_append split: if_splits)

definition stop_seen :: "('m, 'v, 'w) ap_system \<Rightarrow> bool" where
  "stop_seen s \<longleftrightarrow> (\<forall>i < length (sloops s). draining (snd (sloops s ! i)) \<and> ctx_err (fst (sloops s ! i)) = None \<longrightarrow>
     ap_stopCh (prod s) = ChanClosed)"

interpretation ap_stop_seen: step_invariant initial_async "ap_step publish" stop_seen for publish
proof (unfold_locales, goal_cases)
  case (1 s)
  then show ?case by (auto simp: initial_async_def init_async_def stop_seen_def)
next
  case (2 s t)
  have "ap_stopCh (prod t) = ChanClosed"
    if i: "i < length (sloops t)" "draining (snd (sloops t ! i))" "ctx_err (fst (sloops t ! i)) = None" for i
  proof (cases "i < length (sloops s)")
    case True
    note loop = ap_step_loop [OF 2(2) True] and ret = ap_step_returns [OF 2(2) True i(3)]
    show ?thesis
    proof (cases "draining (snd (sloops s ! i))")
      case d: True
      with 2(1) True loop(2) [OF i(3)] have "ap_stopCh (prod s) = ChanClosed" by (simp add: stop_seen_def)
      then show ?thesis by (rule loop(3))
    qed (rule ret(2) [OF i(2)])
  next
    case False
    with new_loops_select [OF 2(2) _ i(1)] i(2) show ?thesis by (simp add: draining_def)
  qed
  then show ?case by (simp add: stop_seen_def)
qed

lemma returned_after_receiving:
  assumes "(ap_step publish)\<^sup>*\<^sup>* s t" and "conserved s" and "i < length (sloops s)" and "snd (sloops s ! i) \<noteq> ApDone"
  shows "i < length (sloops t) \<and> (\<exists>ms. accepted t = accepted s @ ms) \<and> conserved t \<and>
    (snd (sloops t ! i) = ApDone \<and> ctx_err (fst (sloops t ! i)) = None \<longrightarrow> length (accepted s) \<le> length (received t))"
  using assms(1)
proof (induction rule: rtranclp_induct)
  case base
  with assms(2-4) show ?case by simp
next
  case (step t u)
  then have i: "i < length (sloops t)" and c: "conserved t" by simp_all
  note loop = ap_step_loop [OF step(2) i] and hist = ap_step_histories [OF step(2)]
  have "length (accepted s) \<le> length (received u)"
    if u: "snd (sloops u ! i) = ApDone" "ctx_err (fst (sloops u ! i)) = None"
  proof (cases "snd (sloops t ! i) = ApDone")
    case True
    with step.IH loop(2) [OF u(2)] hist show ?thesis by auto
  next
    case False
    from ap_step_returns(1) [OF step(2) i u(2,1) False] c step.IH show ?thesis by (auto simp: conserved_def)
  qed
  with step.IH loop(1) hist conserved_step [OF c step(2)] show ?case by auto
qed

lemma stranded:
  assumes "(\<lambda>s t. ap_step publish s t \<and> length (sloops t) = length (sloops s))\<^sup>*\<^sup>* s t" and "sloops s = [(ctx, ApDone)]"
  shows "map snd (sloops t) = [ApDone] \<and> received t = received s \<and> outcomes t = outcomes s \<and>
    (\<exists>q. msgCh (prod t) = msgCh (prod s) @ q \<and> accepted t = accepted s @ q)"
  using assms(1)
proof (induction rule: rtranclp_induct)
  case base
  with assms(2) show ?case by simp
next
  case (step t u)
  then obtain c where c: "sloops t = [(c, ApDone)]" by (cases "sloops t") auto
  have len: "length (sloops u) = length (sloops t)" using step by simp
  from step(2) have "ap_step publish t u" by simp
  then have "map snd (sloops u) = [ApDone] \<and> received u = received t \<and> outcomes u = outcomes t \<and>
    (\<exists>q. msgCh (prod u) = msgCh (prod t) @ q \<and> accepted u = accepted t @ q)"
  proof (cases rule: ap_step.cases)
    case (send_enqueue xs pm ys e ap')
    from send_enqueue(3) show ?thesis by (cases rule: Send_enqueue_cases) (use send_enqueue c in auto)
  next
    case (start spawn ap' ctx')
    with len c ap_frames(1) [OF start(2)] show ?thesis by (auto split: if_splits)
  next
    case (stop ap')
    with c ap_frames(2) [OF stop(2)] show ?thesis by auto
  next
    case (read_error e ap')
    with c ap_frames(3) [OF read_error(2)] show ?thesis by auto
  qed (use c in \<open>auto simp: Cons_eq_append_conv\<close>)
  with step.IH show ?case by auto
qed

section \<open>Properties\<close>

text \<open>A run for the witnesses: \<open>Start\<close>, one message accepted, then a stop with the loop still at its \<open>select\<close>.\<close>

definition demo_pm :: "message pendingMessage" where
  "demo_pm = \<lparr>pm_topic = ''t'', pm_msg = NewMessage ''m'' 0 ''t'' (Some [1])\<rparr>"

definition demo_ctx :: go_context where
  "demo_ctx = \<lparr>ctx_deadline = None, ctx_err = None\<rparr>"

definition demo_queued :: "(message, bool, bool im_world) ap_system" where
  "demo_queued = (init_async 2 example_world)\<lparr>prod := (NewAsyncProducer 2)\<lparr>ap_running := True, msgCh := [demo_pm]\<rparr>,
     sloops := [(demo_ctx, ApSelect)], accepted := [demo_pm]\<rparr>"

definition demo_stopping :: "(message, bool, bool im_world) ap_system" where
  "demo_stopping = demo_queued\<lparr>prod := (prod demo_queued)\<lparr>ap_running := False, ap_stopCh := ChanClosed\<rparr>\<rparr>"

lemma demo_queued_reachable: "reachable initial_async (ap_step (im_publish rt_example)) demo_queued"
proof -
  let ?s0 = "init_async 2 example_world :: (message, bool, bool im_world) ap_system"
  define s1 where "s1 = ?s0\<lparr>prod := (NewAsyncProducer 2)\<lparr>ap_running := True\<rparr>, sloops := [(demo_ctx, ApSelect)]\<rparr>"
  define s2 where "s2 = s1\<lparr>senders := [demo_pm]\<rparr>"
  note defs = s1_def s2_def init_async_def NewAsyncProducer_def demo_queued_def
  have "reachable initial_async (ap_step (im_publish rt_example)) ?s0"
    by (rule reachable.start) (auto simp: initial_async_def)
  moreover have "ap_step (im_publish rt_example) ?s0 s1"
    using ap_step.start [of ?s0 True "(NewAsyncProducer 2)\<lparr>ap_running := True\<rparr>" _ demo_ctx]
    by (simp add: defs ap_Start_swap_def)
  moreover have "ap_step (im_publish rt_example) s1 s2"
    using ap_step.send_check [of s1 _ demo_pm] by (simp add: defs Send_check_def)
  moreover have "ap_step (im_publish rt_example) s2 demo_queued"
    using ap_step.send_enqueue [of s2 "[]" demo_pm "[]" None "(prod s2)\<lparr>msgCh := [demo_pm]\<rparr>"]
    by (simp add: defs Send_enqueue_def try_send_def)
  ultimately show ?thesis by (blast intro: reachable.step)
qed

text \<open>
  C14: in every reachable state of the asynchronous producer, under every interleaving, whatever
  the broker answers and whatever others do to it: the messages leave the channel in the order in
  which \<open>Send\<close> accepted them; each one received has been published once, or is being
  published; \<open>SentCount\<close> and \<open>FailedCount\<close> are the numbers of publishes that succeeded
  and failed; and neither channel exceeds its capacity.
\<close>

theorem async_conservation:
  assumes "reachable initial_async (ap_step publish) s"
  shows "received s @ msgCh (prod s) = accepted s \<and>
    mset (accepted s) = mset (map fst (outcomes s)) + mset (in_publish s) + mset (msgCh (prod s)) \<and>
    ap_SentCount (prod s) = of_nat (length (filter (\<lambda>x. snd x = None) (outcomes s))) \<and>
    ap_FailedCount (prod s) = of_nat (length (filter (\<lambda>x. snd x \<noteq> None) (outcomes s))) \<and>
    length (msgCh (prod s)) \<le> chan_cap (prod s) \<and> length (errCh (prod s)) \<le> chan_cap (prod s)"
proof -
  from apsys.inv_reachable [OF assms] have inv: "conserved s" "counted s" "bounded s" by simp_all
  then have "mset (accepted s) = mset (received s) + mset (msgCh (prod s))"
    by (metis conserved_def mset_append)
  with inv show ?thesis
    by (simp add: conserved_def counted_def bounded_def ap_SentCount_def ap_FailedCount_def)
qed

theorem async_conservation_witness:
  "received demo_queued @ msgCh (prod demo_queued) = [demo_pm] \<and> ap_SentCount (prod demo_queued) = 0"
  using async_conservation [OF demo_queued_reachable] by (simp add: demo_queued_def init_async_def)

text \<open>
  C26: a send loop returns only when its work is done. Whatever the broker answers and however the
  steps interleave: when a loop that had not returned in a reachable state \<open>s\<close> has returned in a
  later state \<open>t\<close> and its context was not done, then \<open>Stop\<close> has closed the channel, every
  message accepted until \<open>s\<close> has been taken from the channel, in the order of the \<open>Send\<close>s, and
  each of them was published, or is being published by another loop.
\<close>

theorem async_stop_drains:
  assumes "reachable initial_async (ap_step publish) s" and "(ap_step publish)\<^sup>*\<^sup>* s t"
    and "i < length (sloops s)" and "snd (sloops s ! i) \<noteq> ApDone"
    and "snd (sloops t ! i) = ApDone" and "ctx_err (fst (sloops t ! i)) = None"
  shows "ap_stopCh (prod t) = ChanClosed \<and> (\<exists>later. received t = accepted s @ later) \<and>
    mset (accepted s) \<subseteq># mset (map fst (outcomes t)) + mset (in_publish t)"
proof -
  have "conserved s" using apsys.inv_reachable [OF assms(1)] by simp
  from returned_after_receiving [OF assms(2) this assms(3,4)] assms(5,6) obtain ms where
    t: "i < length (sloops t)" "accepted t = accepted s @ ms" "conserved t" "length (accepted s) \<le> length (received t)"
    by auto
  have "stop_seen t" by (rule ap_stop_seen.inv_reachable [OF reachable_rtranclp [OF assms(1,2)]])
  with t(1) assms(5,6) have "ap_stopCh (prod t) = ChanClosed" by (simp add: stop_seen_def draining_def)
  have "take (length (accepted s)) (received t @ msgCh (prod t)) = accepted s"
    using t(2,3) by (simp add: conserved_def)
  with t(4) have "take (length (accepted s)) (received t) = accepted s" by simp
  then obtain later where r: "received t = accepted s @ later" by (metis append_take_drop_id)
  from t(3) r have "mset (accepted s) \<subseteq># mset (map fst (outcomes t)) + mset (in_publish t)"
    by (simp add: conserved_def) (metis mset_subset_eq_add_left)
  with r show ?thesis using \<open>ap_stopCh (prod t) = ChanClosed\<close> by blast
qed

lemma demo_drain:
  "\<exists>t. (ap_step (im_publish rt_example))\<^sup>*\<^sup>* demo_queued t \<and> sloops t = [(demo_ctx, ApDone)]"
proof -
  have "ap_step (im_publish rt_example) demo_queued demo_stopping"
    using ap_step.stop [of demo_queued "(prod demo_queued)\<lparr>ap_running := False, ap_stopCh := ChanClosed\<rparr>"]
    by (simp add: demo_stopping_def demo_queued_def NewAsyncProducer_def ap_Stop_swap_def)
  moreover obtain t where "(ap_step (im_publish rt_example))\<^sup>*\<^sup>* demo_stopping t" "sloops t = [(demo_ctx, ApDone)]"
    using undisturbed_drain_delivers [of rt_example demo_stopping "[]" demo_ctx "[]"]
    by (auto simp: demo_stopping_def demo_queued_def init_async_def im_ok_def im_inv_example IsConnected_def)
  ultimately show ?thesis by (blast intro: converse_rtranclp_into_rtranclp)
qed

theorem async_stop_drains_witness:
  "\<exists>t. (ap_step (im_publish rt_example))\<^sup>*\<^sup>* demo_queued t \<and> ap_stopCh (prod t) = ChanClosed \<and>
     mset [demo_pm] \<subseteq># mset (map fst (outcomes t))"
proof -
  obtain t where t: "(ap_step (im_publish rt_example))\<^sup>*\<^sup>* demo_queued t" "sloops t = [(demo_ctx, ApDone)]"
    using demo_drain by blast
  have "in_publish t = []" using t(2) by (simp add: in_publish_def)
  with async_stop_drains [OF demo_queued_reachable t(1), of 0] t show ?thesis
    by (auto simp: demo_queued_def demo_ctx_def)
qed

text \<open>
  C36: a context that ends loses the promise. When the only send loop waits in its \<open>select\<close> and its
  context is done, the loop may return, whatever is in the channel. From then on, until \<open>Start\<close> is
  called again, nothing is received or published: the messages that \<open>Send\<close> had accepted stay in the
  channel, and so do those that it still accepts. \<open>Stop\<close>, which promises to drain, closes its
  channel, has no loop to wait for and changes none of this.
\<close>

theorem cancelled_loop_strands_messages:
  assumes "sloops s = [(ctx, ApSelect)]" and "ctx_err ctx \<noteq> None"
    and "ap_running (prod s)" and "ap_stopCh (prod s) = ChanOpen"
    and "u = s\<lparr>sloops := [(ctx, ApDone)]\<rparr>"
  shows "ap_step publish s u \<and>
    ap_step publish u (u\<lparr>prod := (prod s)\<lparr>ap_running := False, ap_stopCh := ChanClosed\<rparr>\<rparr>) \<and>
    (\<forall>t. (\<lambda>s t. ap_step publish s t \<and> length (sloops t) = length (sloops s))\<^sup>*\<^sup>* u t \<longrightarrow>
       map snd (sloops t) = [ApDone] \<and> received t = received s \<and> outcomes t = outcomes s \<and>
       (\<exists>q. msgCh (prod t) = msgCh (prod s) @ q \<and> accepted t = accepted s @ q))"
proof (intro conjI)
  show "ap_step publish s u"
    using ap_step.cancelled [of s "[]" ctx "[]" publish] assms by simp
  show "ap_step publish u (u\<lparr>prod := (prod s)\<lparr>ap_running := False, ap_stopCh := ChanClosed\<rparr>\<rparr>)"
    using ap_step.stop [of u "(prod s)\<lparr>ap_running := False, ap_stopCh := ChanClosed\<rparr>" publish] assms
    by (simp add: ap_Stop_swap_def)
  show "\<forall>t. (\<lambda>s t. ap_step publish s t \<and> length (sloops t) = length (sloops s))\<^sup>*\<^sup>* u t \<longrightarrow>
       map snd (sloops t) = [ApDone] \<and> received t = received s \<and> outcomes t = outcomes s \<and>
       (\<exists>q. msgCh (prod t) = msgCh (prod s) @ q \<and> accepted t = accepted s @ q)"
    using stranded [of publish u _ ctx] assms(5) by simp
qed

theorem cancelled_loop_strands_witness:
  "\<exists>u t :: (message, bool, bool im_world) ap_system. reachable initial_async (ap_step (im_publish rt_example)) u \<and>
     ap_step (im_publish rt_example) u t \<and> ap_stopCh (prod t) = ChanClosed \<and>
     map snd (sloops t) = [ApDone] \<and> accepted t = [demo_pm] \<and> msgCh (prod t) = [demo_pm] \<and> outcomes t = []"
proof -
  let ?ctx = "demo_ctx\<lparr>ctx_err := Some (Sentinel ErrOperationCanceled)\<rparr>"
  define s where "s = demo_queued\<lparr>sloops := [(?ctx, ApSelect)]\<rparr>"
  have "ap_step (im_publish rt_example) demo_queued s"
    using ap_step.context_done [of demo_queued "[]" demo_ctx ApSelect "[]"]
    by (simp add: s_def demo_queued_def demo_ctx_def)
  then have r: "reachable initial_async (ap_step (im_publish rt_example)) s"
    using demo_queued_reachable by (rule reachable.step [rotated])
  have s: "sloops s = [(?ctx, ApSelect)]" "ctx_err ?ctx \<noteq> None" "ap_running (prod s)" "ap_stopCh (prod s) = ChanOpen"
    by (simp_all add: s_def demo_queued_def NewAsyncProducer_def)
  let ?u = "s\<lparr>sloops := [(?ctx, ApDone)]\<rparr>"
  let ?t = "?u\<lparr>prod := (prod s)\<lparr>ap_running := False, ap_stopCh := ChanClosed\<rparr>\<rparr>"
  from cancelled_loop_strands_messages [OF s refl, of "im_publish rt_example"]
  have "ap_step (im_publish rt_example) s ?u" "ap_step (im_publish rt_example) ?u ?t" by simp_all
  moreover from this r have "reachable initial_async (ap_step (im_publish rt_example)) ?u" by (blast intro: reachable.step)
  ultimately show ?thesis
    by (intro exI [of _ ?u] exI [of _ ?t]) (simp add: s_def demo_queued_def init_async_def)
qed

end
