(* ===== verification/Delivery.thy ===== *)
theory Delivery
  imports InMemory_Spec "HOL-Library.Multiset"
begin

text \<open>
  The in-memory broker running: calls of its methods by any number of clients, interleaved
  with the goroutines that \<open>Publish\<close> spawned, in any order the scheduler chooses.

  A \<open>system\<close> is a world and the log of the handler invocations that have started.
  \<open>im_step\<close> has one rule per method and the rule \<open>run\<close>, in which some pending goroutine
  (not necessarily the oldest) calls its handler. A handler may itself call the broker: those
  calls are further steps. A call of \<open>Close\<close> that panics has no successor.
  \<open>PublishBatch\<close> takes the lock once per message, so it is a sequence of \<open>publish\<close> steps.
\<close>

section \<open>Steps\<close>

datatype 'h event =
    EConnect | EClose | EPublish string message | ESubscribe string 'h
  | EUnsubscribe string | ECancel nat | ERun nat

record 'h system =
  sw :: "'h im_world"
  delivered :: "('h \<times> message) list"

definition init_system :: "runtime \<Rightarrow> 'h system" where
  "init_system rt = \<lparr>sw = new_world rt, delivered = []\<rparr>"

inductive im_step :: "runtime \<Rightarrow> 'h system \<Rightarrow> 'h event \<Rightarrow> 'h system \<Rightarrow> bool"
  for rt :: runtime where
  connect: "Connect (sw s) = (e, w) \<Longrightarrow> im_step rt s EConnect (s\<lparr>sw := w\<rparr>)"
| close: "Close (sw s) = Inr (e, w) \<Longrightarrow> im_step rt s EClose (s\<lparr>sw := w\<rparr>)"
| publish: "Publish rt t m (sw s) = (e, w) \<Longrightarrow> im_step rt s (EPublish t m) (s\<lparr>sw := w\<rparr>)"
| subscribe: "Subscribe rt t h (sw s) = (r, w) \<Longrightarrow> im_step rt s (ESubscribe t h) (s\<lparr>sw := w\<rparr>)"
| unsubscribe: "Unsubscribe t (sw s) = (e, w) \<Longrightarrow> im_step rt s (EUnsubscribe t) (s\<lparr>sw := w\<rparr>)"
| cancel: "inMemorySub_Unsubscribe a (sw s) = (e, w) \<Longrightarrow> im_step rt s (ECancel a) (s\<lparr>sw := w\<rparr>)"
| run: "i < length (goroutines (sw s)) \<Longrightarrow>
    im_step rt s (ERun i)
      (s\<lparr>sw := (sw s)\<lparr>goroutines := take i (goroutines (sw s)) @ drop (Suc i) (goroutines (sw s))\<rparr>,
         delivered := delivered s @ [goroutines (sw s) ! i]\<rparr>)"

inductive_cases runE: "im_step rt s (ERun i) s'"
inductive_cases cancelE: "im_step rt s (ECancel a) s'"

definition im_next :: "runtime \<Rightarrow> 'h system \<Rightarrow> 'h system \<Rightarrow> bool" where
  "im_next rt s s' \<longleftrightarrow> (\<exists>ev. im_step rt s ev s')"

text \<open>A trace: the events of a run, each with the state it leads to.\<close>

fun im_trace :: "runtime \<Rightarrow> 'h system \<Rightarrow> ('h event \<times> 'h system) list \<Rightarrow> bool" where
  "im_trace rt s [] = True"
| "im_trace rt s ((ev, s') # evs) = (im_step rt s ev s' \<and> im_trace rt s' evs)"

fun final :: "'h system \<Rightarrow> ('h event \<times> 'h system) list \<Rightarrow> 'h system" where
  "final s [] = s"
| "final s ((ev, s') # evs) = final s' evs"

text \<open>The same steps as a function of the event, and the run of a list of events.\<close>

fun exec_event :: "runtime \<Rightarrow> 'h event \<Rightarrow> 'h system \<Rightarrow> 'h system option" where
  "exec_event rt EConnect s = Some (s\<lparr>sw := snd (Connect (sw s))\<rparr>)"
| "exec_event rt EClose s =
     (case Close (sw s) of Inl p \<Rightarrow> None | Inr (e, w) \<Rightarrow> Some (s\<lparr>sw := w\<rparr>))"
| "exec_event rt (EPublish t m) s = Some (s\<lparr>sw := snd (Publish rt t m (sw s))\<rparr>)"
| "exec_event rt (ESubscribe t h) s = Some (s\<lparr>sw := snd (Subscribe rt t h (sw s))\<rparr>)"
| "exec_event rt (EUnsubscribe t) s = Some (s\<lparr>sw := snd (Unsubscribe t (sw s))\<rparr>)"
| "exec_event rt (ECancel a) s = Some (s\<lparr>sw := snd (inMemorySub_Unsubscribe a (sw s))\<rparr>)"
| "exec_event rt (ERun i) s =
     (if i < length (goroutines (sw s))
      then Some (s\<lparr>sw := (sw s)\<lparr>goroutines := take i (goroutines (sw s)) @ drop (Suc i) (goroutines (sw s))\<rparr>,
                   delivered := delivered s @ [goroutines (sw s) ! i]\<rparr>)
      else None)"

fun exec_trace ::
  "runtime \<Rightarrow> 'h system \<Rightarrow> 'h event list \<Rightarrow> ('h event \<times> 'h system) list option" where
  "exec_trace rt s [] = Some []"
| "exec_trace rt s (ev # evs) =
     (case exec_event rt ev s of
        None \<Rightarrow> None
      | Some s' \<Rightarrow> map_option (Cons (ev, s')) (exec_trace rt s' evs))"

lemma exec_event_sound: "exec_event rt ev s = Some s' \<Longrightarrow> im_step rt s ev s'"
  by (cases ev)
     (auto split: sum.splits if_splits prod.splits intro: im_step.intros prod.collapse [symmetric])

lemma exec_event_complete: "im_step rt s ev s' \<Longrightarrow> exec_event rt ev s = Some s'"
  by (induction rule: im_step.induct) simp_all

lemma exec_trace_sound: "exec_trace rt s es = Some evs \<Longrightarrow> im_trace rt s evs"
  by (induction es arbitrary: s evs) (auto split: option.splits dest: exec_event_sound)

section \<open>The invariant of every reachable state\<close>

lemma im_step_inv:
  assumes "im_step rt s ev s'" and "unique_uuids rt" and "im_inv rt (sw s)"
  shows "im_inv rt (sw s')"
  using assms
proof (cases rule: im_step.cases)
  case (connect e w)
  with assms im_inv_Connect [of rt "sw s"] show ?thesis by simp
next
  case (close e w)
  with assms show ?thesis by (simp add: im_inv_Close)
next
  case (publish t m e w)
  with assms im_inv_Publish [of rt "sw s" t m] show ?thesis by simp
next
  case (subscribe t h r w)
  with assms im_inv_Subscribe [of rt "sw s" t h] show ?thesis by simp
next
  case (unsubscribe t e w)
  with assms im_inv_Unsubscribe [of rt "sw s" t] show ?thesis by simp
next
  case (cancel a e w)
  with assms im_inv_sub_Unsubscribe [of rt "sw s" a] show ?thesis by simp
next
  case (run i)
  with assms show ?thesis by (simp add: im_inv_defs)
qed

interpretation imsys: step_invariant
  "\<lambda>s. unique_uuids rt \<and> s = init_system rt" "im_next rt"
  "\<lambda>s. unique_uuids rt \<and> im_inv rt (sw s)" for rt
  by unfold_locales (auto simp: init_system_def im_inv_new im_next_def dest: im_step_inv)

lemma im_trace_reaches:
  "im_trace rt s evs \<Longrightarrow> (im_next rt)\<^sup>*\<^sup>* s (final s evs)"
proof (induction rt s evs rule: im_trace.induct)
  case (2 rt s ev s' evs)
  then have "(im_next rt)\<^sup>*\<^sup>* s' (final s' evs)" by simp
  moreover from 2 have "im_next rt s s'" by (auto simp: im_next_def)
  ultimately show ?case by (simp add: converse_rtranclp_into_rtranclp)
qed simp

lemma im_trace_inv:
  assumes "im_trace rt (init_system rt) evs" and "unique_uuids rt"
  shows "im_inv rt (sw (final (init_system rt) evs))"
  using imsys.inv_rtranclp [OF im_trace_reaches [OF assms(1)]] assms(2)
  by (simp add: init_system_def im_inv_new)

section \<open>What a step spawns, and conservation\<close>

definition spawned_by :: "runtime \<Rightarrow> 'h system \<Rightarrow> 'h event \<Rightarrow> ('h \<times> message) list" where
  "spawned_by rt s ev =
     (case ev of
        EPublish t m \<Rightarrow> a_deliveries t (a_stamp t (time_Now rt (ticks (sw s))) m) (abs_im (sw s))
      | _ \<Rightarrow> [])"

fun spawned_in :: "runtime \<Rightarrow> 'h system \<Rightarrow> ('h event \<times> 'h system) list \<Rightarrow> ('h \<times> message) list" where
  "spawned_in rt s [] = []"
| "spawned_in rt s ((ev, s') # evs) = spawned_by rt s ev @ spawned_in rt s' evs"

lemma goroutines_frame:
  "Connect w = (e, w') \<Longrightarrow> goroutines w' = goroutines w"
  "Close w = Inr (e, w') \<Longrightarrow> goroutines w' = goroutines w"
  "Subscribe rt t h w = (r, w') \<Longrightarrow> goroutines w' = goroutines w"
  "Unsubscribe t w = (e, w') \<Longrightarrow> goroutines w' = goroutines w"
  "inMemorySub_Unsubscribe a w = (e, w') \<Longrightarrow> goroutines w' = goroutines w"
  by (auto simp: Connect_def Close_def Subscribe_def Unsubscribe_def inMemorySub_Unsubscribe_def
      Let_def split: if_splits sum.splits option.splits)

lemma mset_remove_nth:
  "i < length xs \<Longrightarrow> add_mset (xs ! i) (mset (take i xs @ drop (Suc i) xs)) = mset xs"
  by (metis id_take_nth_drop mset.simps(2) mset_append union_mset_add_mset_right)

lemma im_step_conserves:
  assumes "im_step rt s ev s'"
  shows "mset (delivered s') + mset (goroutines (sw s')) =
    mset (delivered s) + mset (goroutines (sw s)) + mset (spawned_by rt s ev)"
  using assms
proof (cases rule: im_step.cases)
  case (publish t m e w)
  with goroutines_Publish [of rt t m "sw s"] show ?thesis
    by (simp add: spawned_by_def)
next
  case (run i)
  then show ?thesis
    using mset_remove_nth [of i "goroutines (sw s)"] by (simp add: spawned_by_def)
qed (simp_all add: spawned_by_def goroutines_frame)

lemma im_trace_conserves:
  "im_trace rt s evs \<Longrightarrow>
   mset (delivered (final s evs)) + mset (goroutines (sw (final s evs))) =
   mset (delivered s) + mset (goroutines (sw s)) + mset (spawned_in rt s evs)"
proof (induction rt s evs rule: im_trace.induct)
  case (2 rt s ev s' evs)
  then have "im_step rt s ev s'" and evs: "im_trace rt s' evs" by auto
  with 2(1) [OF evs] show ?case by (simp add: im_step_conserves)
qed simp

section \<open>Cancelled subscriptions stay cancelled\<close>

lemma dead_handle_not_live:
  assumes "im_inv rt w" and "sub_at w a = Some x" and "\<not> ims_active x"
  shows "ims_id x \<notin> fst ` set (live (abs_im w) t)"
proof
  assume "ims_id x \<in> fst ` set (live (abs_im w) t)"
  then obtain e where "e \<in> set (subs_of w t)" "sub_active e" "sub_id e = ims_id x"
    by (auto simp: live_entries_def)
  with assms(1) have y: "\<lparr>ims_id = ims_id x, ims_topic = t, ims_active = True\<rparr> \<in> set (sub_heap w)"
    unfolding im_inv_def handles_ok_def by metis
  from assms have x: "x \<in> set (sub_heap w)" and d: "distinct (map ims_id (sub_heap w))"
    by (auto simp: sub_at_Some im_inv_def handles_ok_def)
  from d have "inj_on ims_id (set (sub_heap w))" by (simp add: distinct_map)
  from inj_onD [OF this _ x y] have "x = \<lparr>ims_id = ims_id x, ims_topic = t, ims_active = True\<rparr>"
    by simp
  with assms(3) show False by (metis inMemorySub.select_convs(3))
qed

lemma sub_at_frame:
  assumes "sub_heap w' = sub_heap w @ xs" and "sub_at w a = Some x"
  shows "sub_at w' a = Some x"
  using assms by (auto simp: sub_at_Some nth_append)

lemma sub_heap_frame:
  "Connect w = (e, w') \<Longrightarrow> sub_heap w' = sub_heap w"
  "Close w = Inr (e, w') \<Longrightarrow> sub_heap w' = sub_heap w"
  "Publish rt t m w = (e, w') \<Longrightarrow> sub_heap w' = sub_heap w"
  "Unsubscribe t w = (e, w') \<Longrightarrow> sub_heap w' = sub_heap w"
  by (auto simp: Connect_def Close_def Unsubscribe_eq split: if_splits sum.splits)
     (cases "connected (im w)"; auto simp: Publish_connected Publish_not_connected)

lemma sub_at_after_cancel:
  "sub_at (snd (inMemorySub_Unsubscribe b w)) a =
     (if a = b then map_option (ims_active_update (\<lambda>_. False)) (sub_at w a) else sub_at w a)"
proof (cases "sub_at w b")
  case None
  then show ?thesis by (simp add: inMemorySub_Unsubscribe_def)
next
  case (Some y)
  then show ?thesis
    by (cases y) (auto simp: inMemorySub_Unsubscribe_def sub_at_def Let_def split: if_splits)
qed

lemma dead_handle_step:
  assumes "im_step rt s ev s'" and "sub_at (sw s) a = Some x" and "\<not> ims_active x"
  shows "sub_at (sw s') a = Some x"
  using assms
proof (cases rule: im_step.cases)
  case (subscribe t h r w)
  then have "\<exists>xs. sub_heap w = sub_heap (sw s) @ xs"
    by (auto simp: Subscribe_def Let_def split: if_splits)
  with assms subscribe show ?thesis by (auto intro: sub_at_frame)
next
  case (cancel b e w)
  with assms sub_at_after_cancel [of b "sw s" a] show ?thesis by (cases x) auto
qed (auto simp: sub_at_Some sub_heap_frame)

lemma dead_handle_trace:
  "im_trace rt s evs \<Longrightarrow> sub_at (sw s) a = Some x \<Longrightarrow> \<not> ims_active x \<Longrightarrow>
     sub_at (sw (final s evs)) a = Some x"
  by (induction rt s evs rule: im_trace.induct) (auto dest: dead_handle_step)

section \<open>The abstract service and its runs\<close>

text \<open>
  What a client sees of a run: each call with the value it returned, and each delivery. The
  abstract service keeps the state of the specification, the topic and identifier behind each
  handle it gave out, the multiset of deliveries it owes, in no order, and the log of the
  handler calls made. \<open>svc_step\<close> says which call may return what, and when.
\<close>

datatype response = Returned "go_error option" | Subscribed "go_error + nat" | Panicked go_panic

datatype 'h action = Called "'h event" response | Delivered 'h message

record 'h service =
  state :: "'h pubsub"
  handed :: "(string \<times> string) list"
  owed :: "('h \<times> message) multiset"
  called :: "('h \<times> message) list"

definition init_service :: "'h service" where
  "init_service = \<lparr>state = \<lparr>up = False, log = (\<lambda>_. []), live = (\<lambda>_. [])\<rparr>,
     handed = [], owed = {#}, called = []\<rparr>"

inductive svc_step :: "'h service \<Rightarrow> 'h action \<Rightarrow> 'h service \<Rightarrow> bool" where
  connect: "svc_step c (Called EConnect (Returned None)) (c\<lparr>state := a_connect (state c)\<rparr>)"
| close: "svc_step c (Called EClose (Returned None)) (c\<lparr>state := a_close (state c)\<rparr>)"
| publish_down: "\<not> up (state c) \<Longrightarrow>
    svc_step c (Called (EPublish t m) (Returned (Some (Sentinel ErrNotConnected)))) c"
| publish: "up (state c) \<Longrightarrow>
    svc_step c (Called (EPublish t m) (Returned None))
      (c\<lparr>state := a_publish t (a_stamp t now m) (state c),
         owed := owed c + mset (a_deliveries t (a_stamp t now m) (state c))\<rparr>)"
| subscribe_down: "\<not> up (state c) \<Longrightarrow>
    svc_step c (Called (ESubscribe t h) (Subscribed (Inl (Sentinel ErrNotConnected)))) c"
| subscribe: "up (state c) \<Longrightarrow> i \<notin> snd ` set (handed c) \<Longrightarrow>
    svc_step c (Called (ESubscribe t h) (Subscribed (Inr (length (handed c)))))
      (c\<lparr>state := a_subscribe t i h (state c), handed := handed c @ [(t, i)]\<rparr>)"
| unsubscribe:
    "svc_step c (Called (EUnsubscribe t) (Returned None)) (c\<lparr>state := a_drop_topic t (state c)\<rparr>)"
| cancel: "a < length (handed c) \<Longrightarrow> handed c ! a = (t, i) \<Longrightarrow>
    svc_step c (Called (ECancel a) (Returned None)) (c\<lparr>state := a_cancel t i (state c)\<rparr>)"
| cancel_unknown: "length (handed c) \<le> a \<Longrightarrow> svc_step c (Called (ECancel a) (Returned None)) c"
| deliver: "owed c = add_mset (h, m) ds \<Longrightarrow>
    svc_step c (Delivered h m) (c\<lparr>owed := ds, called := called c @ [(h, m)]\<rparr>)"

fun svc_run :: "'h service \<Rightarrow> 'h action list \<Rightarrow> 'h service \<Rightarrow> bool" where
  "svc_run c [] c' \<longleftrightarrow> c' = c"
| "svc_run c (x # xs) c' \<longleftrightarrow> (\<exists>d. svc_step c x d \<and> svc_run d xs c')"

text \<open>The same of the broker: what a step of it shows, and the state it is an instance of.\<close>

fun observe :: "runtime \<Rightarrow> 'h system \<Rightarrow> 'h event \<Rightarrow> 'h action" where
  "observe rt s EConnect = Called EConnect (Returned (fst (Connect (sw s))))"
| "observe rt s EClose = Called EClose
     (case Close (sw s) of Inl p \<Rightarrow> Panicked p | Inr (e, w) \<Rightarrow> Returned e)"
| "observe rt s (EPublish t m) = Called (EPublish t m) (Returned (fst (Publish rt t m (sw s))))"
| "observe rt s (ESubscribe t h) = Called (ESubscribe t h) (Subscribed (fst (Subscribe rt t h (sw s))))"
| "observe rt s (EUnsubscribe t) = Called (EUnsubscribe t) (Returned (fst (Unsubscribe t (sw s))))"
| "observe rt s (ECancel a) = Called (ECancel a) (Returned (fst (inMemorySub_Unsubscribe a (sw s))))"
| "observe rt s (ERun i) = (case goroutines (sw s) ! i of (h, m) \<Rightarrow> Delivered h m)"

fun observations :: "runtime \<Rightarrow> 'h system \<Rightarrow> ('h event \<times> 'h system) list \<Rightarrow> 'h action list" where
  "observations rt s [] = []"
| "observations rt s ((ev, s') # evs) = observe rt s ev # observations rt s' evs"

definition abs_system :: "'h system \<Rightarrow> 'h service" where
  "abs_system s = \<lparr>state = abs_im (sw s), handed = map (\<lambda>x. (ims_topic x, ims_id x)) (sub_heap (sw s)),
     owed = mset (goroutines (sw s)), called = delivered s\<rparr>"

lemma abs_system_simps [simp]:
  "state (abs_system s) = abs_im (sw s)"
  "handed (abs_system s) = map (\<lambda>x. (ims_topic x, ims_id x)) (sub_heap (sw s))"
  "owed (abs_system s) = mset (goroutines (sw s))" "called (abs_system s) = delivered s"
  by (simp_all add: abs_system_def)

lemma abs_system_init [simp]: "abs_system (init_system rt) = init_service"
  by (simp add: abs_system_def init_system_def init_service_def new_world_def abs_im_def
      NewInMemoryBroker_def)

text \<open>Cancelling a handle that is no longer active changes nothing the service can see.\<close>

lemma a_cancel_dead:
  assumes "i \<notin> fst ` set (live p t)"
  shows "a_cancel t i p = p"
proof -
  from assms have "filter (\<lambda>(j, h). j \<noteq> i) (live p t) = live p t"
    by (intro filter_True) force
  then show ?thesis by (simp add: a_cancel_def)
qed

lemma abs_any_cancel:
  assumes "im_inv rt w" and "sub_at w a = Some x"
  shows "abs_im (snd (inMemorySub_Unsubscribe a w)) = a_cancel (ims_topic x) (ims_id x) (abs_im w)"
proof (cases "ims_active x")
  case True
  then show ?thesis by (rule abs_sub_Unsubscribe [OF assms])
next
  case False
  from a_cancel_dead [OF dead_handle_not_live [OF assms False]] False assms(2) show ?thesis
    by (simp add: inMemorySub_Unsubscribe_def)
qed

lemma handles_after_cancel:
  "map (\<lambda>x. (ims_topic x, ims_id x)) (sub_heap (snd (inMemorySub_Unsubscribe a w))) =
     map (\<lambda>x. (ims_topic x, ims_id x)) (sub_heap w)"
proof (cases "sub_at w a")
  case (Some x)
  then have "a < length (sub_heap w)" "sub_heap w ! a = x" by (simp_all add: sub_at_Some)
  then show ?thesis
    using Some by (auto simp: inMemorySub_Unsubscribe_def Let_def map_update list_update_same_conv)
qed (simp add: inMemorySub_Unsubscribe_def)

lemma inMemorySub_Unsubscribe_None [simp]: "fst (inMemorySub_Unsubscribe a w) = None"
  by (simp add: inMemorySub_Unsubscribe_def Let_def split: option.split)

lemma svc_step_by:
  "svc_step c x d \<Longrightarrow> d = d' \<Longrightarrow> x = x' \<Longrightarrow> svc_step c x' d'"
  by simp

lemma im_step_refines_publish:
  fixes s :: "'h system"
  shows "svc_step (abs_system s) (observe rt s (EPublish t m))
    (abs_system (s\<lparr>sw := snd (Publish rt t m (sw s))\<rparr>))"
proof (cases "connected (im (sw s))")
  case True
  have h: "sub_heap (snd (Publish rt t m (sw s))) = sub_heap (sw s)"
    using True by (simp add: Publish_connected)
  show ?thesis
    by (rule svc_step_by [OF svc_step.publish [of "abs_system s" t m "time_Now rt (ticks (sw s))"]])
       (use True h in \<open>simp_all add: abs_system_def abs_Publish goroutines_Publish\<close>, simp add: Publish_connected)
next
  case False
  then show ?thesis
    by (simp add: Publish_not_connected svc_step.publish_down)
qed

lemma im_step_refines_subscribe:
  assumes "im_inv rt (sw s)" and "unique_uuids rt"
  shows "svc_step (abs_system s) (observe rt s (ESubscribe t h))
    (abs_system (s\<lparr>sw := snd (Subscribe rt t h (sw s))\<rparr>))"
proof (cases "connected (im (sw s))")
  case True
  from assms issued_fresh [OF assms(2)] have f: "uuid_New rt (ticks (sw s)) \<notin> snd ` set (handed (abs_system s))"
    by (auto simp: im_inv_def handles_ok_def image_image)
  show ?thesis
    by (rule svc_step_by [OF svc_step.subscribe [OF _ f, of t h]])
       (use True in \<open>simp_all add: abs_system_def abs_Subscribe\<close>, simp_all add: Subscribe_connected)
next
  case False
  then show ?thesis
    by (simp add: Subscribe_not_connected svc_step.subscribe_down)
qed

lemma im_step_refines_cancel:
  assumes "im_inv rt (sw s)"
  shows "svc_step (abs_system s) (observe rt s (ECancel a))
    (abs_system (s\<lparr>sw := snd (inMemorySub_Unsubscribe a (sw s))\<rparr>))"
proof (cases "sub_at (sw s) a")
  case None
  then show ?thesis
    by (simp add: inMemorySub_Unsubscribe_idle svc_step.cancel_unknown sub_at_def split: if_splits)
next
  case (Some x)
  then have a: "a < length (handed (abs_system s))" "handed (abs_system s) ! a = (ims_topic x, ims_id x)"
    by (auto simp: sub_at_Some)
  have g: "goroutines (snd (inMemorySub_Unsubscribe a (sw s))) = goroutines (sw s)"
    by (rule goroutines_frame(5) [OF prod.collapse [symmetric]])
  show ?thesis
    by (rule svc_step_by [OF svc_step.cancel [OF a]])
       (use Some g in \<open>simp_all add: abs_system_def abs_any_cancel [OF assms] handles_after_cancel\<close>)
qed

lemma im_step_refines:
  assumes "im_step rt s ev s'" and "im_inv rt (sw s)" and "unique_uuids rt"
  shows "svc_step (abs_system s) (observe rt s ev) (abs_system s')"
  using assms(1)
proof (cases rule: im_step.cases)
  case (connect e w)
  have "abs_system (s\<lparr>sw := w\<rparr>) = (abs_system s)\<lparr>state := a_connect (state (abs_system s))\<rparr>"
    using connect abs_Connect [of "sw s"] by (simp add: abs_system_def goroutines_frame sub_heap_frame)
  with connect svc_step.connect [of "abs_system s"] show ?thesis by (simp add: Connect_def)
next
  case (close e w)
  have "abs_system (s\<lparr>sw := w\<rparr>) = (abs_system s)\<lparr>state := a_close (state (abs_system s))\<rparr>"
    using close abs_Close [OF assms(2)] by (simp add: abs_system_def goroutines_frame sub_heap_frame)
  moreover from close have "e = None" by (auto simp: Close_def split: if_splits sum.splits)
  ultimately show ?thesis using close svc_step.close [of "abs_system s"] by simp
next
  case (publish t m e w)
  with im_step_refines_publish [of s rt t m] show ?thesis by simp
next
  case (subscribe t h r w)
  with im_step_refines_subscribe [OF assms(2,3), of t h] show ?thesis by simp
next
  case (unsubscribe t e w)
  have "abs_system (s\<lparr>sw := w\<rparr>) = (abs_system s)\<lparr>state := a_drop_topic t (state (abs_system s))\<rparr>"
    using unsubscribe abs_Unsubscribe [of t "sw s"]
    by (simp add: abs_system_def goroutines_frame sub_heap_frame)
  with unsubscribe svc_step.unsubscribe [of "abs_system s" t] show ?thesis by (simp add: Unsubscribe_eq)
next
  case (cancel a e w)
  with im_step_refines_cancel [OF assms(2), of a] show ?thesis by simp
next
  case (run i)
  obtain h m where g: "goroutines (sw s) ! i = (h, m)" by force
  from mset_remove_nth [OF run(3)] g
  have "owed (abs_system s) = add_mset (h, m) (mset (take i (goroutines (sw s)) @ drop (Suc i) (goroutines (sw s))))"
    by simp
  from svc_step.deliver [OF this] run g show ?thesis
    by (simp add: abs_system_def abs_im_def)
qed

lemma im_trace_refines:
  assumes "im_trace rt s evs" and "im_inv rt (sw s)" and "unique_uuids rt"
  shows "svc_run (abs_system s) (observations rt s evs) (abs_system (final s evs))"
  using assms
proof (induction rt s evs rule: im_trace.induct)
  case (2 rt s ev s' evs)
  then have "im_step rt s ev s'" by simp
  from im_step_refines [OF this] im_step_inv [OF this] 2 show ?case by auto
qed simp

section \<open>Handlers that are no longer subscribed\<close>

text \<open>
  Seen from the service, a handler that no live subscription uses is owed nothing more until it
  is subscribed again. The refinement carries this to the broker.
\<close>

definition unused :: "'h \<Rightarrow> 'h service \<Rightarrow> bool" where
  "unused f c \<longleftrightarrow> (\<forall>t. f \<notin> snd ` set (live (state c) t))"

definition calls_of :: "'h \<Rightarrow> 'h service \<Rightarrow> ('h \<times> message) multiset" where
  "calls_of f c = {#g \<in># owed c + mset (called c). fst g = f#}"

fun subscribes :: "'h \<Rightarrow> 'h event \<Rightarrow> bool" where
  "subscribes f (ESubscribe t h) \<longleftrightarrow> h = f"
| "subscribes f _ \<longleftrightarrow> False"

lemma unused_deliveries:
  assumes "unused f c"
  shows "{#g \<in># mset (a_deliveries t m (state c)). fst g = f#} = {#}"
  using assms by (force simp: unused_def a_deliveries_def filter_mset_eq_conv)

lemma svc_step_unused:
  assumes "svc_step c x d" and "unused f c" and "\<And>e r. x = Called e r \<Longrightarrow> \<not> subscribes f e"
  shows "unused f d \<and> calls_of f d = calls_of f c"
  using assms
proof (cases rule: svc_step.cases)
  case (publish t m now)
  with assms(2) unused_deliveries [OF assms(2), of t "a_stamp t now m"] show ?thesis
    by (simp add: calls_of_def unused_def a_publish_def)
next
  case (subscribe i t h)
  with assms(2,3) show ?thesis by (auto simp: calls_of_def unused_def a_subscribe_def)
next
  case (cancel a t i)
  with assms(2) show ?thesis by (force simp: calls_of_def unused_def a_cancel_def)
qed (auto simp: calls_of_def unused_def a_connect_def a_close_def a_drop_topic_def)

lemma observe_subscribes: "observe rt s ev = Called e r \<Longrightarrow> e = ev"
  by (cases ev) (auto split: prod.splits)

lemma im_trace_unused:
  assumes "im_trace rt s evs" and "im_inv rt (sw s)" and "unique_uuids rt"
    and "unused f (abs_system s)" and "\<forall>ev \<in> fst ` set evs. \<not> subscribes f ev"
  shows "calls_of f (abs_system (final s evs)) = calls_of f (abs_system s)"
  using assms
proof (induction rt s evs rule: im_trace.induct)
  case (2 rt s ev s' evs)
  then have st: "im_step rt s ev s'" and inv: "im_inv rt (sw s)" and u: "unique_uuids rt" by simp_all
  have "\<not> subscribes f e" if "observe rt s ev = Called e r" for e r
    using observe_subscribes [OF that] 2(6) by simp
  from svc_step_unused [OF im_step_refines [OF st inv u] 2(5) this]
  have "unused f (abs_system s')" "calls_of f (abs_system s') = calls_of f (abs_system s)" by auto
  with 2 im_step_inv [OF st u inv] show ?case by simp
qed simp


lemma a_cancel_unused:
  assumes "\<forall>t' j. (j, f) \<in> set (live p t') \<longrightarrow> j = i \<and> t' = t"
  shows "f \<notin> snd ` set (live (a_cancel t i p) t')"
proof
  assume "f \<in> snd ` set (live (a_cancel t i p) t')"
  then obtain j where j: "(j, f) \<in> set (live (a_cancel t i p) t')" by force
  then have "(j, f) \<in> set (live p t')" and "t' = t \<longrightarrow> j \<noteq> i"
    by (auto simp: a_cancel_def split: if_splits)
  with assms show False by blast
qed

section \<open>Draining, and a batch in one run\<close>

lemma drain_in_order:
  assumes "mset p = mset (goroutines (sw s))"
  shows "\<exists>evs is. im_trace rt s evs \<and> map fst evs = map ERun is \<and>
    delivered (final s evs) = delivered s @ p \<and> goroutines (sw (final s evs)) = [] \<and>
    im (sw (final s evs)) = im (sw s)"
  using assms
proof (induction p arbitrary: s)
  case Nil
  then show ?case by (intro exI [of _ "[]"]) simp
next
  case (Cons g p)
  let ?gs = "goroutines (sw s)"
  from Cons.prems have "g \<in> set ?gs" by (metis list.set_intros(1) mset_eq_setD)
  then obtain i where i: "i < length ?gs" "?gs ! i = g" by (auto simp: in_set_conv_nth)
  let ?s = "s\<lparr>sw := (sw s)\<lparr>goroutines := take i ?gs @ drop (Suc i) ?gs\<rparr>,
              delivered := delivered s @ [?gs ! i]\<rparr>"
  from i Cons.prems mset_remove_nth [OF i(1)]
  have "add_mset g (mset p) = add_mset g (mset (take i ?gs @ drop (Suc i) ?gs))"
    by simp
  then have "mset p = mset (goroutines (sw ?s))" by simp
  then obtain evs js where "im_trace rt ?s evs \<and> map fst evs = map ERun js \<and>
      delivered (final ?s evs) = delivered ?s @ p \<and> goroutines (sw (final ?s evs)) = [] \<and>
      im (sw (final ?s evs)) = im (sw ?s)"
    using Cons.IH by blast
  with i im_step.run [OF i(1)] show ?case
    by (intro exI [of _ "(ERun i, ?s) # evs"] exI [of _ "i # js"]) simp
qed

lemma im_trace_append:
  "im_trace rt s (xs @ ys) \<longleftrightarrow> im_trace rt s xs \<and> im_trace rt (final s xs) ys"
  "final s (xs @ ys) = final (final s xs) ys"
  by (induction rt s xs rule: im_trace.induct) auto

fun stamped :: "runtime \<Rightarrow> string \<Rightarrow> nat \<Rightarrow> message list \<Rightarrow> message list" where
  "stamped rt t n [] = []"
| "stamped rt t n (m # ms) = a_stamp t (time_Now rt n) m # stamped rt t (Suc n) ms"

lemma publishes_run:
  assumes "connected (im (sw s))" and "live (abs_im (sw s)) t = [(i, h)]"
  shows "\<exists>evs. im_trace rt s evs \<and> map fst evs = map (EPublish t) ms \<and>
    queue_of (sw (final s evs)) t = queue_of (sw s) t @ stamped rt t (ticks (sw s)) ms \<and>
    goroutines (sw (final s evs)) = goroutines (sw s) @ map (Pair h) (stamped rt t (ticks (sw s)) ms) \<and>
    delivered (final s evs) = delivered s"
  using assms
proof (induction ms arbitrary: s)
  case Nil
  then show ?case by (intro exI [of _ "[]"]) simp
next
  case (Cons m ms)
  let ?s = "s\<lparr>sw := snd (Publish rt t m (sw s))\<rparr>"
  from Cons.prems have s: "connected (im (sw ?s))" "live (abs_im (sw ?s)) t = [(i, h)]"
      "ticks (sw ?s) = Suc (ticks (sw s))"
      "queue_of (sw ?s) t = queue_of (sw s) t @ [a_stamp t (time_Now rt (ticks (sw s))) m]"
      "goroutines (sw ?s) = goroutines (sw s) @ [(h, a_stamp t (time_Now rt (ticks (sw s))) m)]"
    by (simp_all add: Publish_connected a_stamp_def spawn_deliveries_eq)
  have st: "im_step rt s (EPublish t m) ?s" by (rule exec_event_sound) simp
  from Cons.IH [OF s(1,2)] obtain evs where "im_trace rt ?s evs \<and> map fst evs = map (EPublish t) ms \<and>
    queue_of (sw (final ?s evs)) t = queue_of (sw ?s) t @ stamped rt t (ticks (sw ?s)) ms \<and>
    goroutines (sw (final ?s evs)) = goroutines (sw ?s) @ map (Pair h) (stamped rt t (ticks (sw ?s)) ms) \<and>
    delivered (final ?s evs) = delivered ?s" by blast
  with st s(3-5) show ?case by (intro exI [of _ "(EPublish t m, ?s) # evs"]) simp
qed

lemma subscribed_run:
  "\<exists>evs i. im_trace rt (init_system rt) evs \<and> map fst evs = [EConnect, ESubscribe t h] \<and>
    (let s = final (init_system rt) evs in connected (im (sw s)) \<and> live (abs_im (sw s)) t = [(i, h)] \<and>
       ticks (sw s) = 2 \<and> queue_of (sw s) t = [] \<and> goroutines (sw s) = [] \<and> delivered s = [])"
proof -
  obtain evs where e: "exec_trace rt (init_system rt) [EConnect, ESubscribe t h] = Some evs" by simp
  show ?thesis
    using exec_trace_sound [OF e] e
    by (intro exI [of _ evs] exI [of _ "uuid_New rt 1"])
       (auto simp: Connect_def Subscribe_def init_system_def new_world_def NewInMemoryBroker_def Let_def)
qed

section \<open>Properties\<close>

definition demo_events :: "bool event list" where
  "demo_events = [EConnect, ESubscribe ''t'' True, ESubscribe ''t'' False,
     EPublish ''t'' (NewMessage ''i'' 0 ''t'' (Some [7])), ERun 1, ECancel 0]"

lemma demo_trace:
  obtains evs where "exec_trace rt_example (init_system rt_example) demo_events = Some evs"
    and "im_trace rt_example (init_system rt_example) evs"
    and "map fst (delivered (final (init_system rt_example) evs)) = [False]"
    and "map fst (goroutines (sw (final (init_system rt_example) evs))) = [True]"
proof -
  have "case exec_trace rt_example (init_system rt_example) demo_events of
      None \<Rightarrow> False
    | Some evs \<Rightarrow> map fst (delivered (final (init_system rt_example) evs)) = [False] \<and>
        map fst (goroutines (sw (final (init_system rt_example) evs))) = [True]"
    by code_simp
  then show thesis using that exec_trace_sound by (auto split: option.splits)
qed

text \<open>
  C1: every run of the in-memory broker is a run of the abstract publish/subscribe service. Take
  any sequence of calls and goroutine steps, interleaved as the scheduler likes, up to a call of
  \<open>Close\<close> that panics. What the clients see of it, every call with the value it
  returned (errors and handles included) and every delivery in the order in which the handlers
  were called, is a run of \<open>svc_step\<close> that ends in the abstraction of the broker's state.
\<close>

theorem inmemory_refines_pubsub:
  assumes "unique_uuids rt" and "im_trace rt (init_system rt) evs"
  shows "svc_run init_service (observations rt (init_system rt) evs)
    (abs_system (final (init_system rt) evs))"
proof -
  have "im_inv rt (sw (init_system rt))" by (simp add: init_system_def im_inv_new)
  from im_trace_refines [OF assms(2) this assms(1)] show ?thesis by simp
qed

theorem inmemory_refines_pubsub_witness:
  "\<exists>evs. exec_trace rt_example (init_system rt_example) demo_events = Some evs \<and>
     map fst (delivered (final (init_system rt_example) evs)) = [False] \<and>
     svc_run init_service (observations rt_example (init_system rt_example) evs)
       (abs_system (final (init_system rt_example) evs))"
proof -
  obtain evs where e: "exec_trace rt_example (init_system rt_example) demo_events = Some evs"
    "im_trace rt_example (init_system rt_example) evs"
    "map fst (delivered (final (init_system rt_example) evs)) = [False]"
    using demo_trace by metis
  from inmemory_refines_pubsub [OF unique_uuids_example e(2)] e(1,3) show ?thesis
    by (intro exI [of _ evs] conjI)
qed

text \<open>
  C2: delivery is exactly once. In every run, under every schedule of the goroutines, the
  handler invocations that have started and those still pending are together exactly the
  deliveries that the publishes of the run owe to the subscriptions live at that moment.
\<close>

theorem exactly_once_delivery:
  assumes "im_trace rt (init_system rt) evs"
  shows "mset (delivered (final (init_system rt) evs)) +
      mset (goroutines (sw (final (init_system rt) evs))) =
    mset (spawned_in rt (init_system rt) evs)"
  using im_trace_conserves [OF assms] by (simp add: init_system_def new_world_def)

theorem exactly_once_delivery_witness:
  "\<exists>evs. im_trace rt_example (init_system rt_example) evs \<and>
     map fst (delivered (final (init_system rt_example) evs)) = [False] \<and>
     mset (delivered (final (init_system rt_example) evs)) +
       mset (goroutines (sw (final (init_system rt_example) evs))) =
     mset (spawned_in rt_example (init_system rt_example) evs)"
  using demo_trace exactly_once_delivery by metis

text \<open>
  C23: a batch is stored in order and delivered in any order. A client connects, subscribes one
  handler to a topic and publishes any list of messages to it (the loop of \<open>PublishBatch\<close>).
  For every permutation of the stamped copies there is a run of exactly these calls followed by
  goroutine steps alone in which the topic's queue holds the copies in the order they were
  published while the handler receives each of them once, in the order of the permutation.
\<close>

theorem batch_order_is_not_kept:
  fixes h :: 'h
  assumes "mset p = mset (stamped rt t 2 ms)"
  shows "\<exists>evs is. im_trace rt (init_system rt) evs \<and>
    map fst evs = [EConnect, ESubscribe t h] @ map (EPublish t) ms @ map ERun is \<and>
    queue_of (sw (final (init_system rt) evs)) t = stamped rt t 2 ms \<and>
    delivered (final (init_system rt) evs) = map (Pair h) p \<and>
    goroutines (sw (final (init_system rt) evs)) = []"
proof -
  let ?i = "init_system rt :: 'h system"
  obtain xs i where x: "im_trace rt ?i xs" "map fst xs = [EConnect, ESubscribe t h]"
      "connected (im (sw (final ?i xs)))" "live (abs_im (sw (final ?i xs))) t = [(i, h)]"
      "ticks (sw (final ?i xs)) = 2" "queue_of (sw (final ?i xs)) t = []"
      "goroutines (sw (final ?i xs)) = []" "delivered (final ?i xs) = []"
    using subscribed_run [of rt t h] by (simp only: Let_def) (elim exE conjE)
  let ?s = "final ?i xs"
  from publishes_run [OF x(3,4), of rt ms] x(5-8) obtain ys where
    y: "im_trace rt ?s ys" "map fst ys = map (EPublish t) ms"
      "queue_of (sw (final ?s ys)) t = stamped rt t 2 ms"
      "goroutines (sw (final ?s ys)) = map (Pair h) (stamped rt t 2 ms)" "delivered (final ?s ys) = []"
    by auto
  from assms y(4) have "mset (map (Pair h) p) = mset (goroutines (sw (final ?s ys)))" by simp
  from drain_in_order [OF this, of rt] obtain zs "is" where
    "im_trace rt (final ?s ys) zs" "map fst zs = map ERun is"
    "delivered (final (final ?s ys) zs) = delivered (final ?s ys) @ map (Pair h) p"
    "goroutines (sw (final (final ?s ys) zs)) = []" "im (sw (final (final ?s ys) zs)) = im (sw (final ?s ys))"
    by blast
  with x y show ?thesis
    by (intro exI [of _ "xs @ ys @ zs"] exI [of _ "is"]) (simp add: im_trace_append)
qed

theorem batch_order_witness:
  "\<exists>(evs :: (bool event \<times> bool system) list) is m n. im_trace rt_example (init_system rt_example) evs \<and> ID m = ''i'' \<and> ID n = ''j'' \<and>
     map fst evs = [EConnect, ESubscribe ''t'' True] @
       map (EPublish ''t'') [NewMessage ''i'' 0 ''t'' None, NewMessage ''j'' 0 ''t'' None] @ map ERun is \<and>
     queue_of (sw (final (init_system rt_example) evs)) ''t'' = [m, n] \<and>
     delivered (final (init_system rt_example) evs) = [(True, n), (True, m)]"
proof -
  let ?ms = "[NewMessage ''i'' 0 ''t'' None, NewMessage ''j'' 0 ''t'' None]"
  let ?ss = "stamped rt_example ''t'' 2 ?ms"
  obtain m n where s: "?ss = [m, n]" "ID m = ''i''" "ID n = ''j''"
    by (simp add: a_stamp_def NewMessage_def Clone_def)
  then have "mset [n, m] = mset ?ss" by simp
  from batch_order_is_not_kept [OF this, of True, unfolded s(1)] obtain evs "is" where
    "im_trace rt_example (init_system rt_example) evs"
    "map fst evs = [EConnect, ESubscribe ''t'' True] @ map (EPublish ''t'') ?ms @ map ERun is"
    "queue_of (sw (final (init_system rt_example) evs)) ''t'' = [m, n]"
    "delivered (final (init_system rt_example) evs) = map (Pair True) [n, m]" by blast
  with s(2,3) show ?thesis
    by (intro exI [of _ evs] exI [of _ "is"] exI [of _ m] exI [of _ n]) simp
qed

text \<open>
  C24: a cancelled subscription gets no further message. In any state \<open>s\<close> that a run
  reaches, let \<open>Unsubscribe\<close> be called on a subscription object, and let \<open>f\<close> be a handler that no
  other live subscription uses. Whatever happens afterwards, publishes to the topic included, as
  long as \<open>f\<close> is not subscribed again: the calls of \<open>f\<close> made or pending are the same multiset
  as before the cancellation.
\<close>

theorem cancelled_subscription_stays_dead:
  assumes "unique_uuids rt" and "im_trace rt (init_system rt) before"
    and "s = final (init_system rt) before" and "sub_at (sw s) a = Some x"
    and "im_step rt s (ECancel a) s'" and "im_trace rt s' evs"
    and "\<forall>t i. (i, f) \<in> set (live (abs_im (sw s)) t) \<longrightarrow> i = ims_id x \<and> t = ims_topic x"
    and "\<forall>ev \<in> fst ` set evs. \<not> subscribes f ev"
  shows "{#g \<in># mset (delivered (final s' evs)) + mset (goroutines (sw (final s' evs))). fst g = f#} =
    {#g \<in># mset (delivered s) + mset (goroutines (sw s)). fst g = f#}"
proof -
  have inv: "im_inv rt (sw s)" using im_trace_inv [OF assms(2,1)] assms(3) by simp
  have inv': "im_inv rt (sw s')" by (rule im_step_inv [OF assms(5,1) inv])
  from assms(5) have s': "s' = s\<lparr>sw := snd (inMemorySub_Unsubscribe a (sw s))\<rparr>"
    by (elim cancelE) simp
  have g: "goroutines (sw s') = goroutines (sw s)" "delivered s' = delivered s"
    using goroutines_frame(5) [OF prod.collapse [symmetric], of a "sw s"] s' by simp_all
  have "abs_im (sw s') = a_cancel (ims_topic x) (ims_id x) (abs_im (sw s))"
    using s' by (simp add: abs_any_cancel [OF inv assms(4)])
  with a_cancel_unused [OF assms(7)] have "unused f (abs_system s')"
    by (simp add: unused_def del: abs_simps)
  from im_trace_unused [OF assms(6) inv' assms(1) this assms(8)] g show ?thesis
    by (simp add: calls_of_def add.commute)
qed

theorem cancelled_subscription_witness:
  "\<exists>(s :: bool system) s' evs. sub_at (sw s) 0 \<noteq> None \<and> live (abs_im (sw s)) ''t'' \<noteq> [] \<and>
     im_step rt_example s (ECancel 0) s' \<and> im_trace rt_example s' evs \<and>
     map fst evs = [EPublish ''t'' (NewMessage ''i'' 0 ''t'' None)] \<and>
     {#g \<in># mset (delivered (final s' evs)) + mset (goroutines (sw (final s' evs))). fst g = True#} = {#}"
proof -
  obtain pre :: "(bool event \<times> bool system) list" where
    pre: "exec_trace rt_example (init_system rt_example) [EConnect, ESubscribe ''t'' True] = Some pre" by simp
  let ?s = "final (init_system rt_example) pre"
  have s: "?s = \<lparr>sw = snd (Subscribe rt_example ''t'' True (snd (Connect (new_world rt_example)))), delivered = []\<rparr>"
    using pre by (auto simp: init_system_def)
  let ?s' = "?s\<lparr>sw := snd (inMemorySub_Unsubscribe 0 (sw ?s))\<rparr>"
  obtain evs where
    evs: "exec_trace rt_example ?s' [EPublish ''t'' (NewMessage ''i'' 0 ''t'' None)] = Some evs" by simp
  let ?x = "\<lparr>ims_id = uuid_New rt_example 1, ims_topic = ''t'', ims_active = True\<rparr>"
  have x: "sub_at (sw ?s) 0 = Some ?x"
    by (simp add: s Subscribe_def Connect_def new_world_def sub_at_def Let_def NewInMemoryBroker_def)
  have l: "live (abs_im (sw ?s)) t = (if t = ''t'' then [(uuid_New rt_example 1, True)] else [])" for t
    by (simp add: s Subscribe_def Connect_def new_world_def Let_def NewInMemoryBroker_def)
  have own: "\<forall>t i. (i, True) \<in> set (live (abs_im (sw ?s)) t) \<longrightarrow> i = ims_id ?x \<and> t = ims_topic ?x"
    unfolding l by simp
  have quiet: "\<forall>ev \<in> fst ` set evs. \<not> subscribes True ev" using evs by auto
  have st: "im_step rt_example ?s (ECancel 0) ?s'" by (rule exec_event_sound) simp
  have "{#g \<in># mset (delivered (final ?s' evs)) + mset (goroutines (sw (final ?s' evs))). fst g = True#} =
    {#g \<in># mset (delivered ?s) + mset (goroutines (sw ?s)). fst g = True#}"
    by (rule cancelled_subscription_stays_dead [OF unique_uuids_example exec_trace_sound [OF pre] refl x st
          exec_trace_sound [OF evs] own quiet])
  moreover have "mset (delivered ?s) + mset (goroutines (sw ?s)) = {#}"
    by (simp add: s Subscribe_def Connect_def new_world_def Let_def NewInMemoryBroker_def)
  moreover have "map fst evs = [EPublish ''t'' (NewMessage ''i'' 0 ''t'' None)]" using evs by auto
  ultimately show ?thesis
    using x l [of "''t''"] st exec_trace_sound [OF evs]
    by (intro exI [of _ ?s] exI [of _ ?s'] exI [of _ evs]) simp
qed

end
