(* ===== verification/MessageHeap.thy ===== *)
theory MessageHeap
  imports Delivery
begin

text \<open>
  Messages as Go has them: a \<open>*Message\<close> is the address of a struct whose \<open>Key\<close> and
  \<open>Value\<close> are slices of byte arrays and whose \<open>Headers\<close> is a reference to a map. Structs,
  arrays and maps are cells of one heap, and whoever holds an address can write to the cell behind
  it.

  The methods of \<open>Message\<close> and \<open>InMemoryBroker.Publish\<close> are modelled once more on this
  heap, and related to the models of \<open>Message\<close> and \<open>InMemory\<close>, in which a message is a
  value: \<open>hread\<close> reads the value of a message off the heap. \<open>heap_step\<close> is the broker at
  work while the clients write to everything they can reach.
\<close>

section \<open>The heap\<close>

type_synonym addr = nat

record go_slice =
  s_arr :: addr
  s_off :: nat
  s_len :: nat

record hmessage =
  hm_ID :: string
  hm_Topic :: string
  hm_Key :: "go_slice option"
  hm_Value :: "go_slice option"
  hm_Headers :: "addr option"
  hm_Timestamp :: time

datatype cell = CBytes "byte list" | CMap "string \<rightharpoonup> string" | CMsg hmessage

type_synonym heap = "cell list"

definition cell_at :: "heap \<Rightarrow> addr \<Rightarrow> cell option" where
  "cell_at h a = (if a < length h then Some (h ! a) else None)"

definition bytes_at :: "heap \<Rightarrow> addr \<Rightarrow> byte list" where
  "bytes_at h a = (case cell_at h a of Some (CBytes bs) \<Rightarrow> bs | _ \<Rightarrow> [])"

definition map_at :: "heap \<Rightarrow> addr \<Rightarrow> string \<rightharpoonup> string" where
  "map_at h a = (case cell_at h a of Some (CMap m) \<Rightarrow> m | _ \<Rightarrow> Map.empty)"

definition zero_hmessage :: hmessage where
  "zero_hmessage = \<lparr>hm_ID = '''', hm_Topic = '''', hm_Key = None, hm_Value = None, hm_Headers = None,
     hm_Timestamp = zero_time\<rparr>"

definition msg_at :: "heap \<Rightarrow> addr \<Rightarrow> hmessage" where
  "msg_at h p = (case cell_at h p of Some (CMsg m) \<Rightarrow> m | _ \<Rightarrow> zero_hmessage)"

definition slice_val :: "heap \<Rightarrow> go_slice \<Rightarrow> byte list" where
  "slice_val h s = take (s_len s) (drop (s_off s) (bytes_at h (s_arr s)))"

definition new_cell :: "cell \<Rightarrow> heap \<Rightarrow> addr \<times> heap" where
  "new_cell c h = (length h, h @ [c])"

definition put_cell :: "addr \<Rightarrow> cell \<Rightarrow> heap \<Rightarrow> heap" where
  "put_cell a c h = h[a := c]"

text \<open>\<open>make([]byte, n)\<close>, \<open>len\<close> and \<open>copy\<close>.\<close>

definition make_slice :: "nat \<Rightarrow> heap \<Rightarrow> go_slice \<times> heap" where
  "make_slice n h = (let (a, h') = new_cell (CBytes (make_bytes n)) h in (\<lparr>s_arr = a, s_off = 0, s_len = n\<rparr>, h'))"

definition go_len :: "go_slice option \<Rightarrow> nat" where
  "go_len s = (case s of None \<Rightarrow> 0 | Some s \<Rightarrow> s_len s)"

definition copy_slice :: "go_slice \<Rightarrow> go_slice option \<Rightarrow> heap \<Rightarrow> heap" where
  "copy_slice dst src h =
     (let bs = bytes_at h (s_arr dst);
          new = go_copy (slice_val h dst) (case src of None \<Rightarrow> [] | Some s \<Rightarrow> slice_val h s)
      in put_cell (s_arr dst) (CBytes (take (s_off dst) bs @ new @ drop (s_off dst + s_len dst) bs)) h)"

section \<open>The methods of a message\<close>

text \<open>The value a reader of the message sees.\<close>

definition read_fields :: "heap \<Rightarrow> hmessage \<Rightarrow> message" where
  "read_fields h m =
     \<lparr>ID = hm_ID m, Topic = hm_Topic m, Key = map_option (slice_val h) (hm_Key m),
      Value = map_option (slice_val h) (hm_Value m), Headers = map_option (map_at h) (hm_Headers m),
      Timestamp = hm_Timestamp m\<rparr>"

definition hread :: "heap \<Rightarrow> addr \<Rightarrow> message" where
  "hread h p = read_fields h (msg_at h p)"

definition heap_NewMessage :: "string \<Rightarrow> time \<Rightarrow> string \<Rightarrow> go_slice option \<Rightarrow> heap \<Rightarrow> addr \<times> heap" where
  "heap_NewMessage uid now topic val h =
     (let (a, h1) = new_cell (CMap Map.empty) h
      in new_cell (CMsg \<lparr>hm_ID = uid, hm_Topic = topic, hm_Key = None, hm_Value = val, hm_Headers = Some a,
           hm_Timestamp = now\<rparr>) h1)"

definition heap_SetHeader :: "string \<Rightarrow> string \<Rightarrow> addr \<Rightarrow> heap \<Rightarrow> heap" where
  "heap_SetHeader key val p h =
     (let h1 = (case hm_Headers (msg_at h p) of
                  None \<Rightarrow> (let (a, h') = new_cell (CMap Map.empty) h
                           in put_cell p (CMsg ((msg_at h' p)\<lparr>hm_Headers := Some a\<rparr>)) h')
                | Some a \<Rightarrow> h)
      in case hm_Headers (msg_at h1 p) of
           None \<Rightarrow> h1
         | Some a \<Rightarrow> put_cell a (CMap ((map_at h1 a)(key \<mapsto> val))) h1)"

definition heap_WithKey :: "go_slice option \<Rightarrow> addr \<Rightarrow> heap \<Rightarrow> heap" where
  "heap_WithKey key p h = put_cell p (CMsg ((msg_at h p)\<lparr>hm_Key := key\<rparr>)) h"

definition heap_WithStringKey :: "string \<Rightarrow> addr \<Rightarrow> heap \<Rightarrow> heap" where
  "heap_WithStringKey key p h =
     (let bs = string_bytes key; (a, h1) = new_cell (CBytes bs) h
      in heap_WithKey (Some \<lparr>s_arr = a, s_off = 0, s_len = length bs\<rparr>) p h1)"

text \<open>
  The loop that copies the headers inserts every entry of the original into the new map; the order
  in which Go visits them makes no difference.
\<close>

definition heap_Clone :: "addr \<Rightarrow> heap \<Rightarrow> addr \<times> heap" where
  "heap_Clone p h =
     (let m = msg_at h p;
          (k, h1) = make_slice (go_len (hm_Key m)) h;
          (v, h2) = make_slice (go_len (hm_Value m)) h1;
          (q, h3) = new_cell (CMsg \<lparr>hm_ID = hm_ID m, hm_Topic = hm_Topic m, hm_Key = Some k, hm_Value = Some v,
                      hm_Headers = None, hm_Timestamp = hm_Timestamp m\<rparr>) h2;
          h4 = copy_slice k (hm_Key m) h3;
          h5 = copy_slice v (hm_Value m) h4
      in case hm_Headers m of
           None \<Rightarrow> (q, h5)
         | Some a \<Rightarrow>
             let (b, h6) = new_cell (CMap Map.empty) h5;
                 h7 = put_cell q (CMsg ((msg_at h6 q)\<lparr>hm_Headers := Some b\<rparr>)) h6
             in (q, put_cell b (CMap (map_at h7 b ++ map_at h7 a)) h7))"

section \<open>Well-formed messages and what they own\<close>

definition good_slice :: "heap \<Rightarrow> go_slice \<Rightarrow> bool" where
  "good_slice h s \<longleftrightarrow> (\<exists>bs. cell_at h (s_arr s) = Some (CBytes bs) \<and> s_off s + s_len s \<le> length bs)"

definition good_map :: "heap \<Rightarrow> addr \<Rightarrow> bool" where
  "good_map h a \<longleftrightarrow> (\<exists>m. cell_at h a = Some (CMap m))"

definition good_fields :: "heap \<Rightarrow> hmessage \<Rightarrow> bool" where
  "good_fields h m \<longleftrightarrow> pred_option (good_slice h) (hm_Key m) \<and> pred_option (good_slice h) (hm_Value m) \<and>
     pred_option (good_map h) (hm_Headers m)"

definition good_msg :: "heap \<Rightarrow> addr \<Rightarrow> bool" where
  "good_msg h p \<longleftrightarrow> (\<exists>m. cell_at h p = Some (CMsg m) \<and> good_fields h m)"

definition refs_of :: "hmessage \<Rightarrow> addr set" where
  "refs_of m = s_arr ` set_option (hm_Key m) \<union> s_arr ` set_option (hm_Value m) \<union> set_option (hm_Headers m)"

definition footprint :: "heap \<Rightarrow> addr \<Rightarrow> addr set" where
  "footprint h p = insert p (refs_of (msg_at h p))"

lemma cell_at_append [simp]:
  "cell_at (h @ h') a = (if a < length h then cell_at h a else cell_at h' (a - length h))"
  by (simp add: cell_at_def nth_append) arith

lemma cell_at_Cons_0 [simp]: "cell_at (c # h) 0 = Some c"
  by (simp add: cell_at_def)

lemma cell_at_Some: "cell_at h a = Some c \<Longrightarrow> a < length h"
  by (simp add: cell_at_def split: if_splits)

lemma cell_at_put: "cell_at (put_cell b c h) a = (if a = b \<and> b < length h then Some c else cell_at h a)"
  by (auto simp: put_cell_def cell_at_def)

lemma length_put_cell [simp]: "length (put_cell a c h) = length h"
  by (simp add: put_cell_def)

text \<open>The value and the footprint of a message depend on the cells of its footprint only.\<close>

lemma footprint_cong:
  assumes "\<And>a. a \<in> footprint h p \<Longrightarrow> cell_at h' a = cell_at h a"
  shows "footprint h' p = footprint h p" "hread h' p = hread h p" "good_msg h' p = good_msg h p"
proof -
  have p: "cell_at h' p = cell_at h p" using assms by (simp add: footprint_def)
  then have m: "msg_at h' p = msg_at h p" by (simp add: msg_at_def)
  then show "footprint h' p = footprint h p" by (simp add: footprint_def)
  have r: "cell_at h' a = cell_at h a" if "a \<in> refs_of (msg_at h p)" for a
    using assms that by (simp add: footprint_def)
  then show "hread h' p = hread h p"
    by (simp add: hread_def read_fields_def m slice_val_def bytes_at_def map_at_def refs_of_def cong: map_option_cong)
  have "good_fields h' (msg_at h p) = good_fields h (msg_at h p)"
    using r by (auto simp: good_fields_def good_slice_def good_map_def refs_of_def option.pred_set)
  moreover have "good_msg h x \<longleftrightarrow> (\<exists>m. cell_at h x = Some (CMsg m)) \<and> good_fields h (msg_at h x)" for h x
    by (auto simp: good_msg_def msg_at_def)
  ultimately show "good_msg h' p = good_msg h p" by (simp add: p m)
qed

lemma good_footprint:
  assumes "good_msg h p"
  shows "footprint h p \<subseteq> {..<length h}"
  using assms
  by (auto simp: good_msg_def footprint_def refs_of_def msg_at_def good_fields_def good_slice_def good_map_def
      option.pred_set dest: cell_at_Some)

section \<open>Cloning\<close>

lemma heap_accessors:
  "cell_at h a = Some (CBytes bs) \<Longrightarrow> bytes_at h a = bs"
  "cell_at h a = Some (CMap m) \<Longrightarrow> map_at h a = m"
  "cell_at h a = Some (CMsg hm) \<Longrightarrow> msg_at h a = hm"
  by (simp_all add: bytes_at_def map_at_def msg_at_def)

lemma slice_val_append: "good_slice h s \<Longrightarrow> slice_val (h @ h') s = slice_val h s"
  by (auto simp: good_slice_def slice_val_def bytes_at_def dest: cell_at_Some)

lemma good_slice_append: "good_slice h s \<Longrightarrow> good_slice (h @ h') s"
  by (auto simp: good_slice_def dest: cell_at_Some)

lemma length_slice_val: "good_slice h s \<Longrightarrow> length (slice_val h s) = s_len s"
  by (auto simp: good_slice_def slice_val_def bytes_at_def)

definition copied_bytes :: "heap \<Rightarrow> go_slice option \<Rightarrow> byte list" where
  "copied_bytes h s = slice_bytes (map_option (slice_val h) s)"

lemma copied_bytes_append: "pred_option (good_slice h) s \<Longrightarrow> copied_bytes (h @ h') s = copied_bytes h s"
  by (cases s) (simp_all add: copied_bytes_def slice_val_append)

lemma length_copied_bytes: "pred_option (good_slice h) s \<Longrightarrow> length (copied_bytes h s) = go_len s"
  by (cases s) (simp_all add: copied_bytes_def length_slice_val go_len_def)

text \<open>\<open>copy\<close> into a slice that was made for it.\<close>

lemma copy_slice_made:
  assumes "pred_option (good_slice h) s" and "a = length h + i" and "i < length h'"
    and "h' ! i = CBytes (make_bytes (go_len s))"
  shows "copy_slice \<lparr>s_arr = a, s_off = 0, s_len = go_len s\<rparr> s (h @ h') = h @ h'[i := CBytes (copied_bytes h s)]"
proof -
  have "cell_at (h @ h') a = Some (CBytes (make_bytes (go_len s)))"
    using assms(2-) by (simp add: cell_at_def nth_append)
  moreover have "(case s of None \<Rightarrow> [] | Some s \<Rightarrow> slice_val (h @ h') s) = copied_bytes h s"
    using copied_bytes_append [OF assms(1), of h'] by (cases s) (simp_all add: copied_bytes_def)
  ultimately show ?thesis
    using assms(2) length_copied_bytes [OF assms(1)]
    by (simp add: copy_slice_def slice_val_def heap_accessors make_bytes_def go_copy_full put_cell_def
        list_update_append)
qed

text \<open>What \<open>Clone\<close> adds to the heap.\<close>

definition clone_cells :: "addr \<Rightarrow> heap \<Rightarrow> heap" where
  "clone_cells p h =
     (let m = msg_at h p; n = length h
      in [CBytes (copied_bytes h (hm_Key m)), CBytes (copied_bytes h (hm_Value m)),
          CMsg \<lparr>hm_ID = hm_ID m, hm_Topic = hm_Topic m,
            hm_Key = Some \<lparr>s_arr = n, s_off = 0, s_len = go_len (hm_Key m)\<rparr>,
            hm_Value = Some \<lparr>s_arr = Suc n, s_off = 0, s_len = go_len (hm_Value m)\<rparr>,
            hm_Headers = map_option (\<lambda>a. n + 3) (hm_Headers m), hm_Timestamp = hm_Timestamp m\<rparr>] @
         (case hm_Headers m of None \<Rightarrow> [] | Some a \<Rightarrow> [CMap (map_at h a)]))"

lemma heap_Clone_eq:
  assumes "good_msg h p"
  shows "heap_Clone p h = (length h + 2, h @ clone_cells p h)"
proof -
  define m where "m = msg_at h p"
  from assms have g: "pred_option (good_slice h) (hm_Key m)" "pred_option (good_slice h) (hm_Value m)"
    "pred_option (good_map h) (hm_Headers m)"
    by (auto simp: good_msg_def good_fields_def m_def heap_accessors)
  let ?n = "length h"
  let ?k = "\<lparr>s_arr = ?n, s_off = 0, s_len = go_len (hm_Key m)\<rparr>"
  let ?v = "\<lparr>s_arr = Suc ?n, s_off = 0, s_len = go_len (hm_Value m)\<rparr>"
  let ?q = "CMsg \<lparr>hm_ID = hm_ID m, hm_Topic = hm_Topic m, hm_Key = Some ?k, hm_Value = Some ?v, hm_Headers = None,
    hm_Timestamp = hm_Timestamp m\<rparr>"
  let ?h3 = "h @ [CBytes (make_bytes (go_len (hm_Key m))), CBytes (make_bytes (go_len (hm_Value m))), ?q]"
  let ?h5 = "h @ [CBytes (copied_bytes h (hm_Key m)), CBytes (copied_bytes h (hm_Value m)), ?q]"
  have c: "copy_slice ?v (hm_Value m) (copy_slice ?k (hm_Key m) ?h3) = ?h5"
    using copy_slice_made [OF g(1), of ?n 0] copy_slice_made [OF g(2), of "Suc ?n" 1] by simp
  show ?thesis
  proof (cases "hm_Headers m")
    case None
    with c show ?thesis
      by (simp add: heap_Clone_def clone_cells_def make_slice_def new_cell_def Let_def flip: m_def)
  next
    case (Some a)
    with g(3) obtain hd where hd: "cell_at h a = Some (CMap hd)" "a < ?n" by (auto simp: good_map_def dest: cell_at_Some)
    have q: "msg_at (?h5 @ [CMap Map.empty]) (?n + 2) = \<lparr>hm_ID = hm_ID m, hm_Topic = hm_Topic m, hm_Key = Some ?k,
        hm_Value = Some ?v, hm_Headers = None, hm_Timestamp = hm_Timestamp m\<rparr>"
      by (simp add: msg_at_def cell_at_def nth_append)
    from c q hd Some show ?thesis
      by (simp add: heap_Clone_def clone_cells_def make_slice_def new_cell_def Let_def put_cell_def map_at_def
          cell_at_def nth_append list_update_append flip: m_def split: if_splits)
  qed
qed

lemma append_frame:
  assumes "good_msg h x"
  shows "hread (h @ cs) x = hread h x" "footprint (h @ cs) x = footprint h x" "good_msg (h @ cs) x"
proof -
  from good_footprint [OF assms] have "cell_at (h @ cs) a = cell_at h a" if "a \<in> footprint h x" for a
    using that by auto
  from footprint_cong [OF this] assms
  show "hread (h @ cs) x = hread h x" "footprint (h @ cs) x = footprint h x" "good_msg (h @ cs) x" by simp_all
qed

text \<open>A clone has the value of the original, and nothing of it existed before.\<close>

lemma heap_Clone_spec:
  assumes "good_msg h p" and "heap_Clone p h = (q, h')"
  obtains cs where "h' = h @ cs" "good_msg h' q" "hread h' q = Clone (hread h p)"
    "footprint h' q \<subseteq> {length h..<length h'}"
proof
  from assms heap_Clone_eq [OF assms(1)] have q: "q = length h + 2" and h': "h' = h @ clone_cells p h" by simp_all
  show "h' = h @ clone_cells p h" by (fact h')
  define m where "m = msg_at h p"
  from assms(1) have g: "pred_option (good_slice h) (hm_Key m)" "pred_option (good_slice h) (hm_Value m)"
    by (auto simp: good_msg_def good_fields_def m_def heap_accessors)
  note len = length_copied_bytes [OF g(1)] length_copied_bytes [OF g(2)]
  define qm where "qm = \<lparr>hm_ID = hm_ID m, hm_Topic = hm_Topic m,
    hm_Key = Some \<lparr>s_arr = length h, s_off = 0, s_len = go_len (hm_Key m)\<rparr>,
    hm_Value = Some \<lparr>s_arr = Suc (length h), s_off = 0, s_len = go_len (hm_Value m)\<rparr>,
    hm_Headers = map_option (\<lambda>a. length h + 3) (hm_Headers m), hm_Timestamp = hm_Timestamp m\<rparr>"
  have cells: "cell_at h' (length h) = Some (CBytes (copied_bytes h (hm_Key m)))"
    "cell_at h' (Suc (length h)) = Some (CBytes (copied_bytes h (hm_Value m)))" "cell_at h' q = Some (CMsg qm)"
    "hm_Headers m = Some a \<Longrightarrow> cell_at h' (length h + 3) = Some (CMap (map_at h a))" for a
    by (simp_all add: h' q clone_cells_def cell_at_def Let_def qm_def nth_append flip: m_def)
  have mq: "msg_at h' q = qm" by (rule heap_accessors(3) [OF cells(3)])
  have s: "slice_val h' \<lparr>s_arr = length h, s_off = 0, s_len = go_len (hm_Key m)\<rparr> = copied_bytes h (hm_Key m)"
    "slice_val h' \<lparr>s_arr = Suc (length h), s_off = 0, s_len = go_len (hm_Value m)\<rparr> = copied_bytes h (hm_Value m)"
    using len by (simp_all add: slice_val_def heap_accessors(1) [OF cells(1)] heap_accessors(1) [OF cells(2)])
  show "hread h' q = Clone (hread h p)"
    using cells(4) by (cases "hm_Headers m")
      (simp_all add: hread_def read_fields_def mq Clone_def copied_bytes_def s [unfolded copied_bytes_def] heap_accessors(2) qm_def flip: m_def)
  show "good_msg h' q"
    using cells len by (cases "hm_Headers m") (auto simp: good_msg_def good_fields_def good_slice_def good_map_def qm_def)
  have fp: "footprint h' q = insert q (refs_of qm)" by (simp add: footprint_def mq)
  have len: "length h' = length h + (if hm_Headers m = None then 3 else 4)"
    by (cases "hm_Headers m") (simp_all add: h' clone_cells_def Let_def flip: m_def)
  show "footprint h' q \<subseteq> {length h..<length h'}"
    unfolding fp len by (cases "hm_Headers m") (auto simp: refs_of_def qm_def q)
qed

section \<open>The other methods\<close>

lemma put_frame:
  assumes "a \<notin> footprint h x"
  shows "hread (put_cell a c h) x = hread h x" "footprint (put_cell a c h) x = footprint h x"
    "good_msg (put_cell a c h) x = good_msg h x"
proof -
  have "cell_at (put_cell a c h) b = cell_at h b" if "b \<in> footprint h x" for b
    using that assms by (auto simp: cell_at_put)
  from footprint_cong [OF this]
  show "hread (put_cell a c h) x = hread h x" "footprint (put_cell a c h) x = footprint h x"
    "good_msg (put_cell a c h) x = good_msg h x" by blast+
qed

lemma fields_cong:
  assumes "good_fields h m" and "\<And>a. a \<in> refs_of m \<Longrightarrow> cell_at h' a = cell_at h a"
  shows "read_fields h' m = read_fields h m" "good_fields h' m"
  using assms
  by (auto simp: read_fields_def slice_val_def bytes_at_def map_at_def refs_of_def good_fields_def good_slice_def
      good_map_def option.pred_set intro!: option.map_cong0)

lemma refs_not_msg: "good_fields h m \<Longrightarrow> cell_at h p = Some (CMsg m') \<Longrightarrow> p \<notin> refs_of m"
  by (auto simp: refs_of_def good_fields_def good_slice_def good_map_def option.pred_set)

text \<open>An assignment to a field of the struct.\<close>

lemma put_msg:
  assumes "cell_at h p = Some (CMsg m)" and "good_fields h m'"
  shows "hread (put_cell p (CMsg m') h) p = read_fields h m'" "good_msg (put_cell p (CMsg m') h) p"
    "footprint (put_cell p (CMsg m') h) p = insert p (refs_of m')"
proof -
  have p: "cell_at (put_cell p (CMsg m') h) p = Some (CMsg m')"
    using assms(1) by (simp add: cell_at_put cell_at_Some)
  from refs_not_msg [OF assms(2,1)] have "cell_at (put_cell p (CMsg m') h) a = cell_at h a" if "a \<in> refs_of m'" for a
    using that by (auto simp: cell_at_put)
  note f = fields_cong [OF assms(2) this]
  from p f show "hread (put_cell p (CMsg m') h) p = read_fields h m'" "good_msg (put_cell p (CMsg m') h) p"
    "footprint (put_cell p (CMsg m') h) p = insert p (refs_of m')"
    by (auto simp: hread_def good_msg_def footprint_def heap_accessors(3) [OF p])
qed

text \<open>An assignment to an entry of the header map.\<close>

lemma put_headers:
  assumes "good_msg h p" and "hm_Headers (msg_at h p) = Some a"
  shows "hread (put_cell a (CMap es) h) p = (hread h p)\<lparr>Headers := Some es\<rparr>" "good_msg (put_cell a (CMap es) h) p"
    "footprint (put_cell a (CMap es) h) p = footprint h p"
proof -
  let ?h = "put_cell a (CMap es) h"
  from assms obtain m where m: "cell_at h p = Some (CMsg m)" "good_fields h m" "msg_at h p = m" "hm_Headers m = Some a"
    by (auto simp: good_msg_def heap_accessors)
  then obtain e0 where a: "cell_at h a = Some (CMap e0)" by (auto simp: good_fields_def good_map_def)
  have p: "cell_at ?h p = Some (CMsg m)" using m(1) a by (auto simp: cell_at_put)
  have s: "good_slice ?h s \<and> slice_val ?h s = slice_val h s" if "good_slice h s" for s
    using that a by (auto simp: good_slice_def slice_val_def bytes_at_def cell_at_put)
  have "map_at ?h a = es" "good_map ?h a" using a by (simp_all add: map_at_def good_map_def cell_at_put cell_at_Some)
  with m s p show "hread ?h p = (hread h p)\<lparr>Headers := Some es\<rparr>" "good_msg ?h p" "footprint ?h p = footprint h p"
    by (auto simp: hread_def read_fields_def heap_accessors(3) [OF p] good_msg_def good_fields_def footprint_def
        option.pred_set intro!: option.map_cong0)
qed

lemma heap_NewMessage_spec:
  assumes "pred_option (good_slice h) val" and "heap_NewMessage uid now topic val h = (p, h')"
  shows "hread h' p = NewMessage uid now topic (map_option (slice_val h) val)" "good_msg h' p"
    "footprint h' p \<subseteq> {length h..<length h'} \<union> s_arr ` set_option val" "\<exists>cs. h' = h @ cs"
proof -
  from assms(2) have p: "p = Suc (length h)" and h': "h' = h @ [CMap Map.empty, CMsg \<lparr>hm_ID = uid, hm_Topic = topic,
      hm_Key = None, hm_Value = val, hm_Headers = Some (length h), hm_Timestamp = now\<rparr>]"
    by (auto simp: heap_NewMessage_def new_cell_def Let_def)
  have c: "cell_at h' p = Some (CMsg \<lparr>hm_ID = uid, hm_Topic = topic,
      hm_Key = None, hm_Value = val, hm_Headers = Some (length h), hm_Timestamp = now\<rparr>)"
    "cell_at h' (length h) = Some (CMap Map.empty)" by (simp_all add: p h' cell_at_def nth_append)
  have v: "pred_option (good_slice h') val" "map_option (slice_val h') val = map_option (slice_val h) val"
    using assms(1) by (cases val; auto simp: h' good_slice_def slice_val_append dest: cell_at_Some)+
  show "hread h' p = NewMessage uid now topic (map_option (slice_val h) val)"
    using c v by (simp add: hread_def read_fields_def heap_accessors NewMessage_def)
  show "good_msg h' p" using c v by (auto simp: good_msg_def good_fields_def good_map_def)
  show "footprint h' p \<subseteq> {length h..<length h'} \<union> s_arr ` set_option val"
    using c by (auto simp: footprint_def heap_accessors refs_of_def p h')
  show "\<exists>cs. h' = h @ cs" by (simp add: h')
qed

lemma heap_SetHeader_spec:
  assumes "good_msg h p"
  shows "hread (heap_SetHeader k v p h) p = SetHeader k v (hread h p)" "good_msg (heap_SetHeader k v p h) p"
proof -
  from assms obtain m where m: "cell_at h p = Some (CMsg m)" "good_fields h m" "msg_at h p = m"
    by (auto simp: good_msg_def heap_accessors)
  have "hread (heap_SetHeader k v p h) p = SetHeader k v (hread h p) \<and> good_msg (heap_SetHeader k v p h) p"
  proof (cases "hm_Headers m")
    case (Some a)
    then show ?thesis
      using put_headers [OF assms, of a "(map_at h a)(k \<mapsto> v)"] m(3)
      by (simp add: heap_SetHeader_def SetHeader_def Let_def hread_def read_fields_def)
  next
    case None
    let ?a = "length h"
    let ?m = "m\<lparr>hm_Headers := Some ?a\<rparr>"
    let ?h1 = "put_cell p (CMsg ?m) (h @ [CMap Map.empty])"
    have c: "cell_at (h @ [CMap Map.empty]) p = Some (CMsg m)" using m(1) by (simp add: cell_at_Some)
    have g: "good_fields (h @ [CMap Map.empty]) ?m" "read_fields (h @ [CMap Map.empty]) ?m =
        (read_fields h m)\<lparr>Headers := Some Map.empty\<rparr>"
      using m(2) None
      by (auto simp: good_fields_def good_map_def read_fields_def map_at_def option.pred_set slice_val_append
          good_slice_append intro!: option.map_cong0)
    note h1 = put_msg [OF c g(1)]
    have a: "hm_Headers (msg_at ?h1 p) = Some ?a"
      using cell_at_Some [OF c] by (simp add: msg_at_def cell_at_put)
    have e: "map_at ?h1 ?a = Map.empty" using cell_at_Some [OF m(1)] by (simp add: map_at_def cell_at_put)
    from None a e have "heap_SetHeader k v p h = put_cell ?a (CMap [k \<mapsto> v]) ?h1"
      by (simp add: heap_SetHeader_def new_cell_def m(3) heap_accessors(3) [OF c] Let_def)
    with put_headers [OF h1(2) a, of "[k \<mapsto> v]"] h1(1) g(2) None m(3) show ?thesis
      by (simp add: SetHeader_def hread_def read_fields_def Let_def)
  qed
  then show "hread (heap_SetHeader k v p h) p = SetHeader k v (hread h p)" "good_msg (heap_SetHeader k v p h) p"
    by simp_all
qed

lemma heap_WithKey_spec:
  assumes "good_msg h p" and "pred_option (good_slice h) key"
  shows "hread (heap_WithKey key p h) p = WithKey (map_option (slice_val h) key) (hread h p)"
    "good_msg (heap_WithKey key p h) p"
proof -
  from assms(1) obtain m where m: "cell_at h p = Some (CMsg m)" "good_fields h m" "msg_at h p = m"
    by (auto simp: good_msg_def heap_accessors)
  from m(2) assms(2) have "good_fields h (m\<lparr>hm_Key := key\<rparr>)" by (simp add: good_fields_def)
  from put_msg [OF m(1) this] m(3)
  show "hread (heap_WithKey key p h) p = WithKey (map_option (slice_val h) key) (hread h p)"
    "good_msg (heap_WithKey key p h) p"
    by (simp_all add: heap_WithKey_def WithKey_def hread_def read_fields_def)
qed

lemma heap_WithStringKey_spec:
  assumes "good_msg h p"
  shows "hread (heap_WithStringKey key p h) p = WithStringKey key (hread h p)" "good_msg (heap_WithStringKey key p h) p"
proof -
  let ?bs = "string_bytes key" and ?s = "\<lparr>s_arr = length h, s_off = 0, s_len = length (string_bytes key)\<rparr>"
  let ?h = "h @ [CBytes ?bs]"
  have "good_slice ?h ?s" "slice_val ?h ?s = ?bs" by (simp_all add: good_slice_def slice_val_def bytes_at_def cell_at_def)
  with heap_WithKey_spec [OF append_frame(3) [OF assms], of "[CBytes ?bs]" "Some ?s"] append_frame(1) [OF assms, of "[CBytes ?bs]"]
  show "hread (heap_WithStringKey key p h) p = WithStringKey key (hread h p)" "good_msg (heap_WithStringKey key p h) p"
    by (simp_all add: heap_WithStringKey_def new_cell_def WithStringKey_def WithKey_def Let_def)
qed

section \<open>The broker on the heap\<close>

text \<open>
  The queues hold addresses of messages, and a pending goroutine holds the address it was given.
  \<open>shell\<close> has the rest of the broker; its own queues and goroutines are not used. \<open>known\<close>
  are the addresses that clients and handlers were given, and \<open>hdelivered\<close> the value each handler
  found when it was called.
\<close>

record 'h hworld =
  heap :: heap
  hqueues :: "string \<rightharpoonup> addr list"
  hspawned :: "('h \<times> addr) list"
  shell :: "'h im_world"
  known :: "addr list"
  hdelivered :: "('h \<times> message) list"

definition init_hworld :: "runtime \<Rightarrow> 'h hworld" where
  "init_hworld rt =
     \<lparr>heap = [], hqueues = Map.empty, hspawned = [], shell = new_world rt, known = [], hdelivered = []\<rparr>"

definition habs_world :: "'h hworld \<Rightarrow> 'h im_world" where
  "habs_world s = (shell s)\<lparr>
     im := (im (shell s))\<lparr>queues := map_option (map (hread (heap s))) \<circ> hqueues s\<rparr>,
     goroutines := map (apsnd (hread (heap s))) (hspawned s)\<rparr>"

definition habs :: "'h hworld \<Rightarrow> 'h system" where
  "habs s = \<lparr>sw = habs_world s, delivered = hdelivered s\<rparr>"

fun heap_spawn :: "'h subscriberInfo list \<Rightarrow> addr \<Rightarrow> heap \<Rightarrow> ('h \<times> addr) list \<times> heap" where
  "heap_spawn [] c h = ([], h)"
| "heap_spawn (sub # subs) c h =
     (if sub_active sub then
        let (q, h1) = heap_Clone c h; (gs, h2) = heap_spawn subs c h1 in ((sub_handler sub, q) # gs, h2)
      else heap_spawn subs c h)"

definition heap_Publish :: "runtime \<Rightarrow> string \<Rightarrow> addr \<Rightarrow> 'h hworld \<Rightarrow> go_error option \<times> 'h hworld" where
  "heap_Publish rt topic p s =
     (if \<not> connected (im (shell s)) then (Some (Sentinel ErrNotConnected), s)
      else
        let (c, h1) = heap_Clone p (heap s);
            h2 = put_cell c (CMsg ((msg_at h1 c)\<lparr>hm_Topic := topic\<rparr>)) h1;
            h3 = put_cell c (CMsg ((msg_at h2 c)\<lparr>hm_Timestamp := time_Now rt (ticks (shell s))\<rparr>)) h2;
            (gs, h4) = heap_spawn (map_slice (subscribers (im (shell s))) topic) c h3
        in (None, s\<lparr>heap := h4, hqueues := (hqueues s)(topic \<mapsto> map_slice (hqueues s) topic @ [c]),
              hspawned := hspawned s @ gs, shell := (shell s)\<lparr>ticks := Suc (ticks (shell s))\<rparr>\<rparr>))"

text \<open>
  What clients can reach: what they were given, and what the structs among it refer to. A client
  may make a new array, map or struct, and may overwrite any cell it can reach by one of the same
  kind (arrays do not change their length), with references to what it can reach.
\<close>

definition reach :: "heap \<Rightarrow> addr list \<Rightarrow> addr set" where
  "reach h as = (\<Union>a \<in> set as. footprint h a)"

definition client_cell :: "heap \<Rightarrow> addr list \<Rightarrow> cell \<Rightarrow> bool" where
  "client_cell h as c = (case c of CMsg m \<Rightarrow> good_fields h m \<and> refs_of m \<subseteq> reach h as | _ \<Rightarrow> True)"

fun same_kind :: "cell \<Rightarrow> cell \<Rightarrow> bool" where
  "same_kind (CBytes bs) (CBytes bs') = (length bs' = length bs)"
| "same_kind (CMap m) (CMap m') = True"
| "same_kind (CMsg m) (CMsg m') = True"
| "same_kind _ _ = False"

inductive heap_step :: "runtime \<Rightarrow> 'h hworld \<Rightarrow> 'h event option \<Rightarrow> 'h hworld \<Rightarrow> bool" for rt :: runtime where
  client_new: "client_cell (heap s) (known s) c \<Longrightarrow> new_cell c (heap s) = (a, h) \<Longrightarrow>
    heap_step rt s None (s\<lparr>heap := h, known := a # known s\<rparr>)"
| client_write: "a \<in> reach (heap s) (known s) \<Longrightarrow> client_cell (heap s) (known s) c \<Longrightarrow>
    cell_at (heap s) a = Some c0 \<Longrightarrow> same_kind c0 c \<Longrightarrow>
    heap_step rt s None (s\<lparr>heap := put_cell a c (heap s)\<rparr>)"
| publish: "p \<in> set (known s) \<Longrightarrow> good_msg (heap s) p \<Longrightarrow> heap_Publish rt t p s = (e, s') \<Longrightarrow>
    heap_step rt s (Some (EPublish t (hread (heap s) p))) s'"
| connect: "Connect (shell s) = (e, w) \<Longrightarrow> heap_step rt s (Some EConnect) (s\<lparr>shell := w\<rparr>)"
| close_none: "\<not> connected (im (shell s)) \<Longrightarrow> Close (shell s) = Inr (e, w) \<Longrightarrow>
    heap_step rt s (Some EClose) (s\<lparr>shell := w\<rparr>)"
| close: "connected (im (shell s)) \<Longrightarrow> Close (shell s) = Inr (e, w) \<Longrightarrow>
    heap_step rt s (Some EClose) (s\<lparr>shell := w, hqueues := Map.empty\<rparr>)"
| subscribe: "Subscribe rt t f (shell s) = (r, w) \<Longrightarrow> heap_step rt s (Some (ESubscribe t f)) (s\<lparr>shell := w\<rparr>)"
| unsubscribe: "Unsubscribe t (shell s) = (e, w) \<Longrightarrow> heap_step rt s (Some (EUnsubscribe t)) (s\<lparr>shell := w\<rparr>)"
| cancel: "inMemorySub_Unsubscribe a (shell s) = (e, w) \<Longrightarrow> heap_step rt s (Some (ECancel a)) (s\<lparr>shell := w\<rparr>)"
| run: "i < length (hspawned s) \<Longrightarrow> hspawned s ! i = (f, p) \<Longrightarrow>
    heap_step rt s (Some (ERun i))
      (s\<lparr>hspawned := take i (hspawned s) @ drop (Suc i) (hspawned s), known := p # known s,
         hdelivered := hdelivered s @ [(f, hread (heap s) p)]\<rparr>)"

section \<open>Separation\<close>

fun apart :: "'a set list \<Rightarrow> bool" where
  "apart [] = True"
| "apart (X # Xs) = (X \<inter> \<Union> (set Xs) = {} \<and> apart Xs)"

definition queued :: "'h hworld \<Rightarrow> addr set" where
  "queued s = {p. \<exists>t. p \<in> set (map_slice (hqueues s) t)}"

definition queue_cells :: "'h hworld \<Rightarrow> addr set" where
  "queue_cells s = (\<Union>p \<in> queued s. footprint (heap s) p)"

definition spawned_cells :: "'h hworld \<Rightarrow> addr set list" where
  "spawned_cells s = map (\<lambda>g. footprint (heap s) (snd g)) (hspawned s)"

definition typed :: "heap \<Rightarrow> addr \<Rightarrow> bool" where
  "typed h a \<longleftrightarrow> a < length h \<and> (\<forall>m. cell_at h a = Some (CMsg m) \<longrightarrow> good_fields h m)"

definition separated :: "'h hworld \<Rightarrow> bool" where
  "separated s \<longleftrightarrow> (\<forall>p \<in> queued s \<union> snd ` set (hspawned s). good_msg (heap s) p) \<and>
     (\<forall>a \<in> set (known s). typed (heap s) a) \<and>
     apart (reach (heap s) (known s) # queue_cells s # spawned_cells s)"

lemma apart_append: "apart (Xs @ Ys) \<longleftrightarrow> apart Xs \<and> apart Ys \<and> \<Union> (set Xs) \<inter> \<Union> (set Ys) = {}"
  by (induction Xs) auto

lemma apart_mono: "list_all2 (\<subseteq>) Xs Ys \<Longrightarrow> apart Ys \<Longrightarrow> apart Xs"
proof (induction rule: list_all2_induct)
  case (Cons X Xs Y Ys)
  from Cons.hyps(2) have "\<Union> (set Xs) \<subseteq> \<Union> (set Ys)"
    by (induction rule: list_all2_induct) auto
  with Cons show ?case by auto
qed simp

lemma apart_take_out:
  assumes "apart (R # Q # Xs)" and "i < length Xs"
  shows "apart ((Xs ! i \<union> R) # Q # take i Xs @ drop (Suc i) Xs)"
proof -
  have "apart ((R # Q # take i Xs) @ Xs ! i # drop (Suc i) Xs)" using assms by (simp add: id_take_nth_drop [symmetric])
  then show ?thesis by (auto simp: apart_append)
qed

lemma good_msg_typed: "good_msg h p \<Longrightarrow> typed h p"
  by (auto simp: good_msg_def typed_def dest: cell_at_Some)

lemma typed_footprint: "typed h a \<Longrightarrow> footprint h a \<subseteq> {..<length h}"
proof (cases "\<exists>m. cell_at h a = Some (CMsg m)")
  case True
  moreover assume "typed h a"
  ultimately have "good_msg h a" by (auto simp: typed_def good_msg_def)
  then show ?thesis by (rule good_footprint)
next
  case False
  moreover assume "typed h a"
  ultimately show ?thesis
    by (auto simp: typed_def footprint_def msg_at_def zero_hmessage_def refs_of_def split: option.splits cell.splits)
qed

text \<open>A heap that only grew.\<close>

definition grows :: "heap \<Rightarrow> heap \<Rightarrow> bool" where
  "grows h h' \<longleftrightarrow> length h \<le> length h' \<and> (\<forall>a < length h. cell_at h' a = cell_at h a)"

lemma grows_simps [simp]: "grows h h" "grows h (h @ cs)" "length h \<le> c \<Longrightarrow> grows h h' \<Longrightarrow> grows h (put_cell c x h')"
  by (auto simp: grows_def cell_at_put)

lemma grows_trans: "grows h h' \<Longrightarrow> grows h' h'' \<Longrightarrow> grows h h''"
  unfolding grows_def by (metis le_trans less_le_trans)

lemma grows_frame:
  assumes "grows h h'"
  shows "typed h a \<Longrightarrow> footprint h' a = footprint h a" "typed h a \<Longrightarrow> typed h' a"
    "good_msg h a \<Longrightarrow> good_msg h' a" "good_msg h a \<Longrightarrow> hread h' a = hread h a"
proof -
  have c: "cell_at h' b = cell_at h b" if "typed h a" "b \<in> footprint h a" for b
    using that assms typed_footprint by (auto simp: grows_def)
  note f = footprint_cong [OF c]
  from f(1) show fp: "typed h a \<Longrightarrow> footprint h' a = footprint h a" by blast
  from f(2,3) show "good_msg h a \<Longrightarrow> good_msg h' a" "good_msg h a \<Longrightarrow> hread h' a = hread h a"
    by (metis good_msg_typed)+
  show "typed h' a" if t: "typed h a"
  proof -
    have "cell_at h' a = cell_at h a" using c [OF t] by (simp add: footprint_def)
    moreover have "good_msg h' a = good_msg h a" by (rule footprint_cong(3)) (rule c [OF t])
    ultimately show ?thesis using t assms by (auto simp: typed_def good_msg_def grows_def)
  qed
qed

lemma reach_grows:
  assumes "grows h h'" and "\<forall>a \<in> set as. typed h a"
  shows "reach h' as = reach h as"
  using assms grows_frame(1) [OF assms(1)] by (simp add: reach_def)

text \<open>The deliveries of a publish, each a fresh message.\<close>

lemma heap_spawn_spec:
  assumes "good_msg h c" and "heap_spawn subs c h = (gs, h')"
  shows "grows h h' \<and> (\<forall>g \<in> set gs. good_msg h' (snd g) \<and> footprint h' (snd g) \<subseteq> {length h..<length h'}) \<and>
    map (apsnd (hread h')) gs = spawn_deliveries subs (hread h c) \<and> apart (map (\<lambda>g. footprint h' (snd g)) gs)"
  using assms
proof (induction subs c h arbitrary: gs h' rule: heap_spawn.induct)
  case (1 c h)
  then show ?case by simp
next
  case (2 sub subs c h)
  show ?case
  proof (cases "sub_active sub")
    case False
    with 2 show ?thesis by simp
  next
    case True
    obtain q h1 gs' where q: "heap_Clone c h = (q, h1)" and gs': "heap_spawn subs c h1 = (gs', h')"
      "gs = (sub_handler sub, q) # gs'"
      using 2(4) True by (auto split: prod.splits)
    from q obtain cs where h1: "h1 = h @ cs" "good_msg h1 q" "hread h1 q = Clone (hread h c)"
      "footprint h1 q \<subseteq> {length h..<length h1}" by (rule heap_Clone_spec [OF 2(3)])
    then have g1: "grows h h1" by simp
    note c1 = grows_frame(3,4) [OF g1 2(3)]
    note IH = 2(1) [OF True q [symmetric] refl c1(1) gs'(1)]
    then have g2: "grows h1 h'" by simp
    note q' = grows_frame(3,4) [OF g2 h1(2)] grows_frame(1) [OF g2 good_msg_typed [OF h1(2)]]
    from IH q'(3) h1(4) have "footprint h' q \<inter> \<Union> (set (map (\<lambda>g. footprint h' (snd g)) gs')) = {}" by fastforce
    moreover from g1 g2 have "length h \<le> length h1" "length h1 \<le> length h'" by (simp_all add: grows_def)
    then have "\<forall>g \<in> set gs. footprint h' (snd g) \<subseteq> {length h..<length h'}"
      using IH h1(4) q'(3) gs'(2) by fastforce
    ultimately show ?thesis
      using IH q'(1,2) h1(3) c1(2) grows_trans [OF g1 g2] gs'(2) True by simp
  qed
qed

text \<open>The clone that is stored, after the assignments to its topic and its timestamp.\<close>

lemma heap_stamp_spec:
  assumes "good_msg h p" and "heap_Clone p h = (c, h1)" and "h2 = put_cell c (CMsg ((msg_at h1 c)\<lparr>hm_Topic := t\<rparr>)) h1"
    and "h3 = put_cell c (CMsg ((msg_at h2 c)\<lparr>hm_Timestamp := now\<rparr>)) h2"
  shows "grows h h3" "good_msg h3 c" "footprint h3 c \<subseteq> {length h..<length h3}"
    "hread h3 c = (Clone (hread h p))\<lparr>Topic := t, Timestamp := now\<rparr>"
proof -
  from assms(2) obtain cs where h1: "h1 = h @ cs" "good_msg h1 c" "hread h1 c = Clone (hread h p)"
    "footprint h1 c \<subseteq> {length h..<length h1}" by (rule heap_Clone_spec [OF assms(1)])
  from h1(2) obtain m where m: "cell_at h1 c = Some (CMsg m)" "good_fields h1 m" "msg_at h1 c = m"
    by (auto simp: good_msg_def heap_accessors)
  have "msg_at h2 c = m\<lparr>hm_Topic := t\<rparr>"
    using cell_at_Some [OF m(1)] m(3) by (simp add: assms(3) msg_at_def cell_at_put)
  then have h3: "h3 = put_cell c (CMsg (m\<lparr>hm_Topic := t, hm_Timestamp := now\<rparr>)) h1"
    by (simp add: assms(3,4) put_cell_def)
  have "good_fields h1 (m\<lparr>hm_Topic := t, hm_Timestamp := now\<rparr>)" using m(2) by (simp add: good_fields_def)
  note c3 = put_msg [OF m(1) this, folded h3]
  show "good_msg h3 c" by (fact c3(2))
  have "footprint h3 c = footprint h1 c" using c3(3) m(3) by (simp add: footprint_def refs_of_def)
  with h1(4) show "footprint h3 c \<subseteq> {length h..<length h3}" by (simp add: h3)
  show "hread h3 c = (Clone (hread h p))\<lparr>Topic := t, Timestamp := now\<rparr>"
    using c3(1) h1(3) m(3) by (simp add: hread_def read_fields_def Clone_def)
  have "length h \<le> c" using h1(4) by (auto simp: footprint_def)
  then show "grows h h3" by (simp add: h3 h1(1))
qed

lemma heap_Publish_spec:
  assumes "good_msg (heap s) p" and "connected (im (shell s))"
  obtains c gs h where
    "heap_Publish rt t p s = (None, s\<lparr>heap := h, hqueues := (hqueues s)(t \<mapsto> map_slice (hqueues s) t @ [c]),
       hspawned := hspawned s @ gs, shell := (shell s)\<lparr>ticks := Suc (ticks (shell s))\<rparr>\<rparr>)"
    "grows (heap s) h" "\<forall>q \<in> set (c # map snd gs). good_msg h q \<and> footprint h q \<subseteq> {length (heap s)..<length h}"
    "hread h c = (Clone (hread (heap s) p))\<lparr>Topic := t, Timestamp := time_Now rt (ticks (shell s))\<rparr>"
    "map (apsnd (hread h)) gs = spawn_deliveries (map_slice (subscribers (im (shell s))) t) (hread h c)"
    "apart (map (footprint h) (c # map snd gs))"
proof -
  let ?now = "time_Now rt (ticks (shell s))"
  obtain c h1 where c: "heap_Clone p (heap s) = (c, h1)" by fastforce
  define h2 where "h2 = put_cell c (CMsg ((msg_at h1 c)\<lparr>hm_Topic := t\<rparr>)) h1"
  define h3 where "h3 = put_cell c (CMsg ((msg_at h2 c)\<lparr>hm_Timestamp := ?now\<rparr>)) h2"
  note c3 = heap_stamp_spec [OF assms(1) c h2_def h3_def]
  obtain gs h where gs: "heap_spawn (map_slice (subscribers (im (shell s))) t) c h3 = (gs, h)" by fastforce
  note sp = heap_spawn_spec [OF c3(2) gs]
  then have g: "grows h3 h" by simp
  note ch = grows_frame(3,4) [OF g c3(2)] grows_frame(1) [OF g good_msg_typed [OF c3(2)]]
  have lens: "length (heap s) \<le> length h3" "length h3 \<le> length h" using c3(1) g by (simp_all add: grows_def)
  show thesis
  proof (rule that)
    show "heap_Publish rt t p s = (None, s\<lparr>heap := h, hqueues := (hqueues s)(t \<mapsto> map_slice (hqueues s) t @ [c]),
       hspawned := hspawned s @ gs, shell := (shell s)\<lparr>ticks := Suc (ticks (shell s))\<rparr>\<rparr>)"
      using assms(2) c gs by (simp add: heap_Publish_def Let_def h2_def h3_def)
    show "grows (heap s) h" by (rule grows_trans [OF c3(1) g])
    show "hread h c = (Clone (hread (heap s) p))\<lparr>Topic := t, Timestamp := ?now\<rparr>" using ch(2) c3(4) by simp
    show "map (apsnd (hread h)) gs = spawn_deliveries (map_slice (subscribers (im (shell s))) t) (hread h c)"
      using sp ch(2) by simp
    show "\<forall>q \<in> set (c # map snd gs). good_msg h q \<and> footprint h q \<subseteq> {length (heap s)..<length h}"
      using sp ch(1,3) c3(3) lens by fastforce
    have "footprint h c \<inter> \<Union> (set (map (\<lambda>g. footprint h (snd g)) gs)) = {}" using sp ch(3) c3(3) by fastforce
    with sp show "apart (map (footprint h) (c # map snd gs))" by (simp add: comp_def)
  qed
qed

text \<open>A change of the heap outside what the broker holds is not seen by the broker.\<close>

definition broker_cells :: "'h hworld \<Rightarrow> addr set" where
  "broker_cells s = queue_cells s \<union> \<Union> (set (spawned_cells s))"

lemma broker_frame:
  assumes "separated s" and "\<And>a. a \<in> broker_cells s \<Longrightarrow> cell_at h a = cell_at (heap s) a"
  shows "\<forall>p \<in> queued s \<union> snd ` set (hspawned s). good_msg h p"
    "queue_cells (s\<lparr>heap := h, known := ks\<rparr>) = queue_cells s"
    "spawned_cells (s\<lparr>heap := h, known := ks\<rparr>) = spawned_cells s"
    "habs (s\<lparr>heap := h, known := ks\<rparr>) = habs s"
proof -
  have fc: "footprint h p = footprint (heap s) p \<and> hread h p = hread (heap s) p \<and> good_msg h p"
    if p: "p \<in> queued s \<union> snd ` set (hspawned s)" for p
  proof -
    from p have "footprint (heap s) p \<subseteq> broker_cells s"
      by (auto simp: broker_cells_def queue_cells_def spawned_cells_def)
    with assms(2) have "cell_at h a = cell_at (heap s) a" if "a \<in> footprint (heap s) p" for a using that by blast
    from footprint_cong [OF this] assms(1) p show ?thesis by (auto simp: separated_def)
  qed
  then show "\<forall>p \<in> queued s \<union> snd ` set (hspawned s). good_msg h p" by blast
  from fc show "queue_cells (s\<lparr>heap := h, known := ks\<rparr>) = queue_cells s"
    by (simp add: queue_cells_def queued_def)
  from fc show "spawned_cells (s\<lparr>heap := h, known := ks\<rparr>) = spawned_cells s"
    by (simp add: spawned_cells_def)
  have "map_option (map (hread h)) (hqueues s t) = map_option (map (hread (heap s))) (hqueues s t)" for t
  proof (cases "hqueues s t")
    case (Some ps)
    then have "set ps \<subseteq> queued s" by (auto simp: queued_def intro: exI [of _ t])
    with Some fc show ?thesis by auto
  qed simp
  then have "map_option (map (hread h)) \<circ> hqueues s = map_option (map (hread (heap s))) \<circ> hqueues s" by (simp add: comp_def)
  moreover have "apsnd (hread h) g = apsnd (hread (heap s)) g" if "g \<in> set (hspawned s)" for g
  proof -
    from that fc have "hread h (snd g) = hread (heap s) (snd g)" by blast
    then show ?thesis by (cases g) simp
  qed
  then have "map (apsnd (hread h)) (hspawned s) = map (apsnd (hread (heap s))) (hspawned s)" by simp
  ultimately show "habs (s\<lparr>heap := h, known := ks\<rparr>) = habs s" by (simp add: habs_def habs_world_def)
qed

lemma separated_apart: "separated s \<Longrightarrow> reach (heap s) (known s) \<inter> broker_cells s = {}"
  by (auto simp: separated_def broker_cells_def)

text \<open>A client makes a cell.\<close>

lemma broker_cells_bounded: "separated s \<Longrightarrow> broker_cells s \<subseteq> {..<length (heap s)}"
  using good_footprint by (fastforce simp: separated_def broker_cells_def queue_cells_def spawned_cells_def)

lemma separated_client_new:
  assumes "separated s" and "client_cell (heap s) (known s) c"
  shows "separated (s\<lparr>heap := heap s @ [c], known := length (heap s) # known s\<rparr>)"
    "habs (s\<lparr>heap := heap s @ [c], known := length (heap s) # known s\<rparr>) = habs s"
proof -
  let ?h = "heap s @ [c]" and ?n = "length (heap s)"
  have b: "cell_at ?h a = cell_at (heap s) a" if "a \<in> broker_cells s" for a
    using that broker_cells_bounded [OF assms(1)] by auto
  note f = broker_frame [OF assms(1) b]
  show "habs (s\<lparr>heap := heap s @ [c], known := length (heap s) # known s\<rparr>) = habs s" by (rule f(4))
  have t: "\<forall>a \<in> set (known s). typed (heap s) a" using assms(1) by (simp add: separated_def)
  have m: "typed ?h ?n \<and> footprint ?h ?n \<subseteq> insert ?n (reach (heap s) (known s))"
  proof (cases c)
    case (CMsg m)
    with assms(2) have "good_fields (heap s) m" "refs_of m \<subseteq> reach (heap s) (known s)" by (simp_all add: client_cell_def)
    moreover have "good_fields ?h m" using \<open>good_fields (heap s) m\<close>
      by (auto simp: good_fields_def good_map_def option.pred_set good_slice_append dest: cell_at_Some)
    ultimately show ?thesis using CMsg by (auto simp: typed_def footprint_def msg_at_def)
  qed (simp_all add: typed_def footprint_def msg_at_def zero_hmessage_def refs_of_def)
  have r: "reach ?h (?n # known s) \<subseteq> insert ?n (reach (heap s) (known s))"
    using m reach_grows [OF grows_simps(2) t, of "[c]"] by (auto simp: reach_def)
  have "apart (insert ?n (reach (heap s) (known s)) # queue_cells s # spawned_cells s)"
    using assms(1) broker_cells_bounded [OF assms(1)] by (auto simp: separated_def broker_cells_def)
  with r have "apart (reach ?h (?n # known s) # queue_cells s # spawned_cells s)" by auto
  moreover have "typed ?h a" if "a \<in> set (known s)" for a using grows_frame(2) [OF grows_simps(2)] t that by blast
  ultimately show "separated (s\<lparr>heap := heap s @ [c], known := length (heap s) # known s\<rparr>)"
    using f(1-3) m unfolding separated_def by (simp add: queued_def)
qed

text \<open>A client overwrites a cell.\<close>

lemma same_kind_good:
  assumes "cell_at h a = Some c0" and "same_kind c0 c"
  shows "good_fields (put_cell a c h) m = good_fields h m"
proof -
  have "good_slice (put_cell a c h) = good_slice h"
    using assms by (cases c0; cases c) (auto simp: fun_eq_iff good_slice_def cell_at_put cell_at_Some)
  moreover have "good_map (put_cell a c h) = good_map h"
    using assms by (cases c0; cases c) (auto simp: fun_eq_iff good_map_def cell_at_put cell_at_Some)
  ultimately show ?thesis by (simp add: good_fields_def)
qed

lemma footprint_put:
  assumes "cell_at h a = Some c0" and "same_kind c0 c"
  shows "footprint (put_cell a c h) x =
    (if x = a then insert a (case c of CMsg m \<Rightarrow> refs_of m | _ \<Rightarrow> {}) else footprint h x)"
  using assms by (cases c) (auto simp: footprint_def msg_at_def cell_at_put cell_at_Some zero_hmessage_def refs_of_def)

lemma separated_client_write:
  assumes "separated s" and "a \<in> reach (heap s) (known s)" and "client_cell (heap s) (known s) c"
    and "cell_at (heap s) a = Some c0" and "same_kind c0 c"
  shows "separated (s\<lparr>heap := put_cell a c (heap s)\<rparr>)" "habs (s\<lparr>heap := put_cell a c (heap s)\<rparr>) = habs s"
proof -
  let ?h = "put_cell a c (heap s)"
  have b: "cell_at ?h x = cell_at (heap s) x" if "x \<in> broker_cells s" for x
    using that separated_apart [OF assms(1)] assms(2) by (auto simp: cell_at_put)
  note f = broker_frame [OF assms(1) b]
  from f(4) [of "known s"] show "habs (s\<lparr>heap := ?h\<rparr>) = habs s" by simp
  have sub: "footprint ?h x \<subseteq> reach (heap s) (known s)" if "x \<in> set (known s)" for x
    using that assms(2,3) unfolding footprint_put [OF assms(4,5)]
    by (auto simp: client_cell_def reach_def split: cell.splits)
  then have "reach ?h (known s) \<subseteq> reach (heap s) (known s)" by (auto simp: reach_def)
  then have "apart (reach ?h (known s) # queue_cells s # spawned_cells s)"
    using assms(1) by (auto simp: separated_def)
  moreover have "typed ?h x" if "x \<in> set (known s)" for x
  proof -
    from assms(1) that have "typed (heap s) x" by (simp add: separated_def)
    with assms(3) show ?thesis
      by (auto simp: typed_def cell_at_put client_cell_def same_kind_good [OF assms(4,5)] split: if_splits)
  qed
  ultimately show "separated (s\<lparr>heap := ?h\<rparr>)"
    using f(1) f(2,3) [of "known s"] unfolding separated_def by (simp add: queued_def)
qed

text \<open>A publish.\<close>

lemma queued_publish:
  "queued (s\<lparr>heap := h, hqueues := (hqueues s)(t \<mapsto> map_slice (hqueues s) t @ [c]), hspawned := gs, shell := w\<rparr>) =
     insert c (queued s)"
proof -
  have "(\<exists>t'. x \<in> set (if t' = t then f t @ [c] else f t')) \<longleftrightarrow> x = c \<or> (\<exists>t'. x \<in> set (f t'))" for x and f :: "string \<Rightarrow> addr list"
    by (metis in_set_conv_decomp rotate1.simps(2) set_ConsD set_rotate1 list.set_intros)
  then show ?thesis by (auto simp: queued_def)
qed

lemma separated_publish:
  assumes "separated s" and "good_msg (heap s) p" and "heap_Publish rt t p s = (e, s')"
  shows "separated s'"
proof (cases "connected (im (shell s))")
  case False
  with assms show ?thesis by (simp add: heap_Publish_def)
next
  case True
  obtain c gs h where P:
    "heap_Publish rt t p s = (None, s\<lparr>heap := h, hqueues := (hqueues s)(t \<mapsto> map_slice (hqueues s) t @ [c]),
       hspawned := hspawned s @ gs, shell := (shell s)\<lparr>ticks := Suc (ticks (shell s))\<rparr>\<rparr>)"
    and g: "grows (heap s) h"
    and new: "\<forall>q \<in> set (c # map snd gs). good_msg h q \<and> footprint h q \<subseteq> {length (heap s)..<length h}"
    and ap: "apart (map (footprint h) (c # map snd gs))"
    using heap_Publish_spec [OF assms(2) True] by metis
  have s': "s' = s\<lparr>heap := h, hqueues := (hqueues s)(t \<mapsto> map_slice (hqueues s) t @ [c]),
       hspawned := hspawned s @ gs, shell := (shell s)\<lparr>ticks := Suc (ticks (shell s))\<rparr>\<rparr>"
    using P assms(3) by simp
  have roots: "\<forall>q \<in> queued s \<union> snd ` set (hspawned s). good_msg (heap s) q" "\<forall>a \<in> set (known s). typed (heap s) a"
    and ap0: "apart (reach (heap s) (known s) # queue_cells s # spawned_cells s)"
    using assms(1) by (simp_all add: separated_def)
  have q: "queue_cells s' = footprint h c \<union> queue_cells s"
    using roots(1) grows_frame(1) [OF g good_msg_typed] by (simp add: queue_cells_def s' queued_publish)
  have sp: "spawned_cells s' = spawned_cells s @ map (footprint h) (map snd gs)"
    using roots(1) grows_frame(1) [OF g good_msg_typed] by (simp add: spawned_cells_def s')
  have r: "reach (heap s') (known s') = reach (heap s) (known s)" using reach_grows [OF g roots(2)] by (simp add: s')
  have old: "\<Union> (set (reach (heap s) (known s) # queue_cells s # spawned_cells s)) \<subseteq> {..<length (heap s)}"
    using broker_cells_bounded [OF assms(1)] typed_footprint roots(2)
    by (fastforce simp: broker_cells_def reach_def)
  have "apart ((reach (heap s) (known s) # queue_cells s # spawned_cells s) @ map (footprint h) (c # map snd gs))"
    unfolding apart_append using ap0 ap old new by fastforce
  then have "apart (reach (heap s') (known s') # queue_cells s' # spawned_cells s')"
    unfolding q sp r by (auto simp: apart_append)
  moreover have "\<forall>q \<in> queued s' \<union> snd ` set (hspawned s'). good_msg (heap s') q"
    using roots(1) new grows_frame(3) [OF g] by (auto simp: s' queued_publish)
  moreover have "\<forall>a \<in> set (known s'). typed (heap s') a"
    using roots(2) grows_frame(2) [OF g] by (simp add: s')
  ultimately show ?thesis by (simp add: separated_def)
qed

section \<open>Simulation\<close>

text \<open>The methods that do not touch messages do the same to the broker with and without them.\<close>

definition with_messages ::
  "(string \<rightharpoonup> message list) \<Rightarrow> ('h \<times> message) list \<Rightarrow> 'h im_world \<Rightarrow> 'h im_world" where
  "with_messages q g w = w\<lparr>im := (im w)\<lparr>queues := q\<rparr>, goroutines := g\<rparr>"

lemma habs_world_eq:
  "habs_world s = with_messages (map_option (map (hread (heap s))) \<circ> hqueues s) (map (apsnd (hread (heap s))) (hspawned s))
     (shell s)"
  by (simp add: habs_world_def with_messages_def)

lemma methods_ignore_messages:
  "Connect w = (e, w') \<Longrightarrow> Connect (with_messages q g w) = (e, with_messages q g w')"
  "Subscribe rt t f w = (r, w') \<Longrightarrow> Subscribe rt t f (with_messages q g w) = (r, with_messages q g w')"
  "Unsubscribe t w = (e, w') \<Longrightarrow> Unsubscribe t (with_messages q g w) = (e, with_messages q g w')"
  "inMemorySub_Unsubscribe a w = (e, w') \<Longrightarrow>
     inMemorySub_Unsubscribe a (with_messages q g w) = (e, with_messages q g w')"
  "Close w = Inr (e, w') \<Longrightarrow>
     Close (with_messages q g w) = Inr (e, with_messages (if connected (im w) then Map.empty else q) g w')"
proof -
  assume "Connect w = (e, w')"
  then show "Connect (with_messages q g w) = (e, with_messages q g w')"
    by (auto simp: Connect_def with_messages_def)
next
  assume "Subscribe rt t f w = (r, w')"
  then show "Subscribe rt t f (with_messages q g w) = (r, with_messages q g w')"
    by (auto simp: Subscribe_def with_messages_def Let_def split: if_splits)
next
  assume "Unsubscribe t w = (e, w')"
  then show "Unsubscribe t (with_messages q g w) = (e, with_messages q g w')"
    by (auto simp: Unsubscribe_def with_messages_def Let_def)
next
  have "sub_at (with_messages q g w) a = sub_at w a" by (simp add: sub_at_def with_messages_def)
  moreover assume "inMemorySub_Unsubscribe a w = (e, w')"
  ultimately show "inMemorySub_Unsubscribe a (with_messages q g w) = (e, with_messages q g w')"
    by (auto simp: inMemorySub_Unsubscribe_def with_messages_def Let_def split: option.splits if_splits)
next
  assume "Close w = Inr (e, w')"
  then show "Close (with_messages q g w) = Inr (e, with_messages (if connected (im w) then Map.empty else q) g w')"
    by (auto simp: Close_def with_messages_def split: if_splits sum.splits)
qed

lemma simulate_publish:
  assumes "separated s" and "good_msg (heap s) p" and "heap_Publish rt t p s = (e, s')"
  shows "Publish rt t (hread (heap s) p) (habs_world s) = (e, habs_world s')" "hdelivered s' = hdelivered s"
proof -
  have "Publish rt t (hread (heap s) p) (habs_world s) = (e, habs_world s') \<and> hdelivered s' = hdelivered s"
  proof (cases "connected (im (shell s))")
    case False
    with assms(3) show ?thesis
      by (simp add: heap_Publish_def Publish_not_connected habs_world_eq with_messages_def)
  next
    case True
    obtain c gs h where P:
      "heap_Publish rt t p s = (None, s\<lparr>heap := h, hqueues := (hqueues s)(t \<mapsto> map_slice (hqueues s) t @ [c]),
         hspawned := hspawned s @ gs, shell := (shell s)\<lparr>ticks := Suc (ticks (shell s))\<rparr>\<rparr>)"
      and g: "grows (heap s) h"
      and c: "hread h c = (Clone (hread (heap s) p))\<lparr>Topic := t, Timestamp := time_Now rt (ticks (shell s))\<rparr>"
      and gs: "map (apsnd (hread h)) gs = spawn_deliveries (map_slice (subscribers (im (shell s))) t) (hread h c)"
      using heap_Publish_spec [OF assms(2) True] by metis
    have "cell_at h a = cell_at (heap s) a" if "a \<in> broker_cells s" for a
      using that g broker_cells_bounded [OF assms(1)] by (auto simp: grows_def)
    from broker_frame(4) [OF assms(1) this, of "known s"] have "habs_world (s\<lparr>heap := h\<rparr>) = habs_world s"
      by (simp add: habs_def)
    from arg_cong [OF this, of "\<lambda>w. queues (im w)"] arg_cong [OF this, of goroutines]
    have old: "map_option (map (hread h)) \<circ> hqueues s = map_option (map (hread (heap s))) \<circ> hqueues s"
      "map (apsnd (hread h)) (hspawned s) = map (apsnd (hread (heap s))) (hspawned s)"
      by (simp_all add: habs_world_def)
    from assms(3) P have s': "e = None" "s' = s\<lparr>heap := h, hqueues := (hqueues s)(t \<mapsto> map_slice (hqueues s) t @ [c]),
         hspawned := hspawned s @ gs, shell := (shell s)\<lparr>ticks := Suc (ticks (shell s))\<rparr>\<rparr>" by simp_all
    have "map_slice (map_option (map (hread (heap s))) \<circ> hqueues s) t = map (hread h) (map_slice (hqueues s) t)"
      unfolding old(1) [symmetric] by (simp add: map_slice_def split: option.splits)
    with True old gs c show ?thesis
      by (simp add: Publish_connected s' habs_world_eq with_messages_def fun_upd_comp)
  qed
  then show "Publish rt t (hread (heap s) p) (habs_world s) = (e, habs_world s')" "hdelivered s' = hdelivered s" by simp_all
qed

lemma separated_run:
  assumes "separated s" and "i < length (hspawned s)" and "hspawned s ! i = (f, p)"
  shows "separated (s\<lparr>hspawned := take i (hspawned s) @ drop (Suc i) (hspawned s), known := p # known s,
    hdelivered := ds\<rparr>)"
proof -
  let ?g = "take i (hspawned s) @ drop (Suc i) (hspawned s)"
  let ?s = "s\<lparr>hspawned := ?g, known := p # known s, hdelivered := ds\<rparr>"
  have roots: "\<forall>q \<in> queued s \<union> snd ` set (hspawned s). good_msg (heap s) q" using assms(1) by (simp add: separated_def)
  moreover have "p \<in> snd ` set (hspawned s)" using assms(2,3) by (metis image_eqI nth_mem snd_conv)
  ultimately have p: "good_msg (heap s) p" by blast
  have "spawned_cells s ! i = footprint (heap s) p" using assms(2,3) by (simp add: spawned_cells_def)
  moreover have "spawned_cells ?s = take i (spawned_cells s) @ drop (Suc i) (spawned_cells s)"
    by (simp add: spawned_cells_def take_map drop_map)
  moreover have "queue_cells ?s = queue_cells s" "reach (heap ?s) (known ?s) = footprint (heap s) p \<union> reach (heap s) (known s)"
    by (simp_all add: queue_cells_def queued_def reach_def)
  ultimately have "apart (reach (heap ?s) (known ?s) # queue_cells ?s # spawned_cells ?s)"
    using assms(1,2) apart_take_out [of "reach (heap s) (known s)" "queue_cells s" "spawned_cells s" i]
    by (simp add: separated_def spawned_cells_def)
  moreover have "set ?g \<subseteq> set (hspawned s)" by (auto dest: in_set_takeD in_set_dropD)
  then have "snd ` set (hspawned ?s) \<subseteq> snd ` set (hspawned s)" "queued ?s = queued s"
    by (simp_all add: image_mono queued_def)
  then have "\<forall>q \<in> queued ?s \<union> snd ` set (hspawned ?s). good_msg (heap ?s) q"
    using roots by (simp del: hworld.ext_inject) blast
  ultimately show ?thesis
    using assms(1) good_msg_typed [OF p] by (simp add: separated_def)
qed

lemma separated_shell: "separated s \<Longrightarrow> separated (s\<lparr>shell := w\<rparr>)"
  by (simp add: separated_def queue_cells_def queued_def spawned_cells_def)

lemma separated_close: "separated s \<Longrightarrow> separated (s\<lparr>shell := w, hqueues := Map.empty\<rparr>)"
  by (auto simp: separated_def queue_cells_def queued_def spawned_cells_def)

lemma separated_step: "heap_step rt s l t \<Longrightarrow> separated s \<Longrightarrow> separated t"
  by (induction rule: heap_step.induct)
     (auto simp: new_cell_def separated_client_new separated_client_write separated_run separated_shell separated_close
       intro: separated_publish)

lemma separated_init: "separated (init_hworld rt)"
  by (simp add: init_hworld_def separated_def reach_def queue_cells_def queued_def spawned_cells_def)

interpretation heapsys: step_invariant "\<lambda>s. s = init_hworld rt" "\<lambda>s t. \<exists>l. heap_step rt s l t" separated for rt
  by unfold_locales (use separated_init separated_step in blast)+

lemma heap_step_simulates:
  assumes "heap_step rt s l t" and "separated s"
  shows "case l of None \<Rightarrow> habs t = habs s | Some ev \<Rightarrow> im_step rt (habs s) ev (habs t)"
  using assms
proof (cases rule: heap_step.cases)
  case (client_new c a h)
  then show ?thesis using assms(2) by (auto simp: new_cell_def separated_client_new)
next
  case (client_write a c c0)
  then show ?thesis using assms(2) by (auto simp: separated_client_write)
next
  case (publish p t' e)
  with assms(2) simulate_publish [of s p rt t' e t] show ?thesis
    by (auto simp: habs_def intro: exec_event_sound)
next
  case (connect e w)
  with methods_ignore_messages(1) [OF connect(3)] show ?thesis
    by (auto simp: habs_def habs_world_eq intro: exec_event_sound)
next
  case (close_none e w)
  with methods_ignore_messages(5) [OF close_none(4)] show ?thesis
    by (auto simp: habs_def habs_world_eq intro: exec_event_sound)
next
  case (close e w)
  with methods_ignore_messages(5) [OF close(4)] show ?thesis
    by (auto simp: habs_def habs_world_eq intro: exec_event_sound)
next
  case (subscribe t' f r w)
  with methods_ignore_messages(2) [OF subscribe(3)] show ?thesis
    by (auto simp: habs_def habs_world_eq intro: exec_event_sound)
next
  case (unsubscribe t' e w)
  with methods_ignore_messages(3) [OF unsubscribe(3)] show ?thesis
    by (auto simp: habs_def habs_world_eq intro: exec_event_sound)
next
  case (cancel a e w)
  with methods_ignore_messages(4) [OF cancel(3)] show ?thesis
    by (auto simp: habs_def habs_world_eq intro: exec_event_sound)
next
  case (run i f p)
  then have "exec_event rt (ERun i) (habs s) = Some (habs t)"
    by (simp add: habs_def habs_world_def take_map drop_map)
  from exec_event_sound [OF this] run(1) show ?thesis by simp
qed

text \<open>A run, with the calls of the broker and the deliveries that happened in it.\<close>

inductive heap_run :: "runtime \<Rightarrow> 'h event list \<Rightarrow> 'h hworld \<Rightarrow> bool" for rt :: runtime where
  start: "heap_run rt [] (init_hworld rt)"
| step: "heap_run rt es s \<Longrightarrow> heap_step rt s l t \<Longrightarrow>
    heap_run rt (es @ (case l of None \<Rightarrow> [] | Some ev \<Rightarrow> [ev])) t"

lemma heap_run_separated: "heap_run rt es s \<Longrightarrow> separated s"
  by (induction rule: heap_run.induct) (auto intro: separated_init separated_step)

lemma im_trace_snoc:
  "im_trace rt s (evs @ [(ev, s')]) \<longleftrightarrow> im_trace rt s evs \<and> im_step rt (final s evs) ev s'"
  "final s (evs @ [(ev, s')]) = s'"
  by (induction evs arbitrary: s) auto

lemma heap_run_simulates:
  assumes "heap_run rt es s"
  shows "\<exists>evs. im_trace rt (init_system rt) evs \<and> map fst evs = es \<and> final (init_system rt) evs = habs s"
  using assms
proof (induction rule: heap_run.induct)
  case start
  have "init_system rt = habs (init_hworld rt)"
    by (simp add: init_system_def habs_def habs_world_def init_hworld_def new_world_def NewInMemoryBroker_def)
  then show ?case by (intro exI [of _ "[]"]) simp
next
  case (step es s l t)
  then obtain evs where evs: "im_trace rt (init_system rt) evs" "map fst evs = es" "final (init_system rt) evs = habs s"
    by blast
  note sim = heap_step_simulates [OF step.hyps(2) heap_run_separated [OF step.hyps(1)]]
  show ?case
  proof (cases l)
    case None
    with evs sim show ?thesis by (intro exI [of _ evs]) simp
  next
    case (Some ev)
    with evs sim show ?thesis by (intro exI [of _ "evs @ [(ev, habs t)]"]) (simp add: im_trace_snoc)
  qed
qed

section \<open>Properties\<close>

text \<open>
  C3: the model in which messages are values is sound for the program, in which they are pointers.
  In every run of the broker on the heap, in which clients and handlers write at any time to
  every struct, array and map they can reach (the message they published, the buffer they passed,
  the message a handler was given), the broker, its pending deliveries and the values the handlers
  find are those of a run of the value model with the same calls in the same order; the clients'
  writes leave no trace in it.
\<close>

theorem heap_broker_refines_values:
  assumes "heap_run rt es s"
  shows "\<exists>evs. im_trace rt (init_system rt) evs \<and> map fst evs = es \<and> sw (final (init_system rt) evs) = habs_world s \<and>
    delivered (final (init_system rt) evs) = hdelivered s"
proof -
  from heap_run_simulates [OF assms] obtain evs where
    "im_trace rt (init_system rt) evs" "map fst evs = es" "final (init_system rt) evs = habs s" by blast
  then show ?thesis by (intro exI [of _ evs]) (simp add: habs_def)
qed

text \<open>A client's message for the witnesses: an array, a map and the struct that refers to them.\<close>

definition demo_hmessage :: hmessage where
  "demo_hmessage = \<lparr>hm_ID = ''i'', hm_Topic = ''t'', hm_Key = None,
     hm_Value = Some \<lparr>s_arr = 0, s_off = 0, s_len = 1\<rparr>, hm_Headers = Some 1, hm_Timestamp = 0\<rparr>"

definition demo_heap :: heap where
  "demo_heap = [CBytes [7], CMap Map.empty, CMsg demo_hmessage]"

lemma demo_heap_good: "good_msg demo_heap 2" "good_slice demo_heap \<lparr>s_arr = 0, s_off = 0, s_len = 1\<rparr>"
  by (simp_all add: good_msg_def good_fields_def good_slice_def good_map_def cell_at_def demo_heap_def demo_hmessage_def)

definition demo_hready :: "bool hworld" where
  "demo_hready = (init_hworld rt_example)\<lparr>heap := demo_heap, known := [2, 1, 0],
     shell := snd (Subscribe rt_example ''t'' True (snd (Connect (new_world rt_example))))\<rparr>"

definition demo_hsent :: "bool hworld" where
  "demo_hsent = snd (heap_Publish rt_example ''t'' 2 demo_hready)"

definition demo_hdone :: "bool hworld" where
  "demo_hdone =
     (let s = demo_hsent\<lparr>heap := put_cell 0 (CBytes [9]) (heap demo_hsent)\<rparr>
      in s\<lparr>hspawned := take 0 (hspawned s) @ drop (Suc 0) (hspawned s), known := snd (hspawned s ! 0) # known s,
           hdelivered := hdelivered s @ [(fst (hspawned s ! 0), hread (heap s) (snd (hspawned s ! 0)))]\<rparr>)"

lemma demo_hsent_spawned: "length (hspawned demo_hsent) = 1"
  by code_simp

lemma demo_hsent_known: "known demo_hsent = [2, 1, 0]"
  by code_simp

lemma demo_hsent_bytes: "bytes_at (heap demo_hsent) 0 = [7]"
  by code_simp

lemma demo_hdone_delivered: "map (Value \<circ> snd) (hdelivered demo_hdone) = [Some [7]]"
  by code_simp

lemma demo_hdone_value: "Value (hread (heap demo_hdone) 2) = Some [9]"
  by code_simp

lemmas demo_hsent_facts =
  demo_hsent_spawned demo_hsent_known demo_hsent_bytes demo_hdone_delivered demo_hdone_value

lemma demo_hready_run: "heap_run rt_example [EConnect, ESubscribe ''t'' True] demo_hready"
proof -
  let ?rt = rt_example and ?s0 = "init_hworld rt_example :: bool hworld"
  let ?s1 = "?s0\<lparr>heap := [CBytes [7]], known := [0]\<rparr>"
  let ?s2 = "?s0\<lparr>heap := [CBytes [7], CMap Map.empty], known := [1, 0]\<rparr>"
  let ?s3 = "?s0\<lparr>heap := demo_heap, known := [2, 1, 0]\<rparr>"
  let ?w = "snd (Connect (new_world rt_example))"
  note defs = init_hworld_def new_cell_def client_cell_def
  have 1: "heap_step ?rt ?s0 None ?s1" using heap_step.client_new [of ?s0 "CBytes [7]"] by (simp add: defs)
  have 2: "heap_step ?rt ?s1 None ?s2" using heap_step.client_new [of ?s1 "CMap Map.empty"] by (simp add: defs)
  have 3: "heap_step ?rt ?s2 None ?s3"
    using heap_step.client_new [of ?s2 "CMsg demo_hmessage"]
    by (simp add: defs demo_heap_def demo_hmessage_def good_fields_def good_slice_def good_map_def cell_at_def refs_of_def
        reach_def footprint_def)
  have 4: "heap_step ?rt ?s3 (Some EConnect) (?s3\<lparr>shell := ?w\<rparr>)"
    using heap_step.connect [OF prod.collapse [symmetric], of ?rt ?s3] by (simp add: defs)
  have 5: "heap_step ?rt (?s3\<lparr>shell := ?w\<rparr>) (Some (ESubscribe ''t'' True)) demo_hready"
    using heap_step.subscribe [OF prod.collapse [symmetric], of ?rt "?s3\<lparr>shell := ?w\<rparr>" "''t''" True]
    by (simp add: defs demo_hready_def)
  from heap_run.step [OF heap_run.step [OF heap_run.step [OF heap_run.step [OF heap_run.step [OF heap_run.start 1] 2] 3] 4] 5]
  show ?thesis by simp
qed

lemma demo_hdone_run:
  "\<exists>es. heap_run rt_example es demo_hdone"
proof -
  let ?s = "demo_hsent\<lparr>heap := put_cell 0 (CBytes [9]) (heap demo_hsent)\<rparr>"
  have "heap_step rt_example demo_hready (Some (EPublish ''t'' (hread demo_heap 2))) demo_hsent"
    using heap_step.publish [OF _ _ prod.collapse [symmetric], of 2 demo_hready rt_example "''t''"] demo_heap_good(1)
    by (simp add: demo_hsent_def demo_hready_def)
  note 1 = heap_run.step [OF demo_hready_run this]
  have "cell_at (heap demo_hsent) 0 = Some (CBytes [7])"
    using demo_hsent_facts(3) by (auto simp: bytes_at_def split: option.splits cell.splits)
  then have "heap_step rt_example demo_hsent None ?s"
    by (intro heap_step.client_write [where ?c0.0 = "CBytes [7]"]) (simp_all add: demo_hsent_facts reach_def footprint_def client_cell_def)
  note 2 = heap_run.step [OF 1 this]
  have "heap_step rt_example ?s (Some (ERun 0)) demo_hdone"
    using heap_step.run [of 0 ?s "fst (hspawned ?s ! 0)" "snd (hspawned ?s ! 0)"] demo_hsent_facts(1)
    by (simp add: demo_hdone_def Let_def)
  from heap_run.step [OF 2 this] show ?thesis by blast
qed

theorem heap_broker_refines_values_witness:
  "\<exists>evs :: (bool event \<times> bool system) list. im_trace rt_example (init_system rt_example) evs \<and>
     map (Value \<circ> snd) (delivered (final (init_system rt_example) evs)) = [Some [7]] \<and>
     Value (hread (heap demo_hdone) 2) = Some [9]"
proof -
  obtain es where "heap_run rt_example es demo_hdone" using demo_hdone_run by blast
  from heap_broker_refines_values [OF this] demo_hsent_facts(4,5) show ?thesis by metis
qed

text \<open>
  C20: \<open>Clone\<close> is a deep copy. Cloning changes no message there was; no write to anything the
  clone is made of, its struct, its arrays or its map, changes any of them; and no write to
  anything they are made of changes the clone, whose value stays that of the original when it
  was cloned.
\<close>

theorem heap_clone_is_deep:
  assumes "good_msg h p" and "heap_Clone p h = (q, h')" and "good_msg h x"
  shows "hread h' x = hread h x \<and>
    (\<forall>a c. a \<in> footprint h' q \<longrightarrow> hread (put_cell a c h') x = hread h x) \<and>
    (\<forall>a c. a \<in> footprint h x \<longrightarrow> hread (put_cell a c h') q = Clone (hread h p))"
proof -
  from assms(2) obtain cs where q: "h' = h @ cs" "hread h' q = Clone (hread h p)"
    "footprint h' q \<subseteq> {length h..<length h'}" by (rule heap_Clone_spec [OF assms(1)])
  from append_frame [OF assms(3)] have x: "hread h' x = hread h x" "footprint h' x = footprint h x" by (simp_all add: q(1))
  have "footprint h' q \<inter> footprint h x = {}" using q(3) good_footprint [OF assms(3)] by fastforce
  then have d: "a \<in> footprint h' q \<Longrightarrow> a \<notin> footprint h' x" "a \<in> footprint h x \<Longrightarrow> a \<notin> footprint h' q" for a
    using x(2) by blast+
  show ?thesis using x(1) q(2) d put_frame(1) by metis
qed

theorem heap_clone_is_deep_witness:
  "let (q, h) = heap_Clone 2 demo_heap
   in hread (put_cell 0 (CBytes [9]) h) q = Clone (hread demo_heap 2) \<and>
      hread (put_cell q (CMsg zero_hmessage) h) 2 = hread demo_heap 2"
proof -
  obtain q h where q: "heap_Clone 2 demo_heap = (q, h)" by fastforce
  have "0 \<in> footprint demo_heap 2" "q \<in> footprint h q"
    by (simp_all add: footprint_def msg_at_def cell_at_def demo_heap_def demo_hmessage_def refs_of_def)
  with heap_clone_is_deep [OF demo_heap_good(1) q demo_heap_good(1)] q show ?thesis by simp
qed

text \<open>
  C25: the methods of \<open>Message\<close> on the heap do to the message behind the pointer what their
  value versions do to the value, whatever the message shares with others.
\<close>

theorem heap_methods_refine_values:
  assumes "good_msg h p" and "pred_option (good_slice h) sl"
  shows "hread (snd (heap_Clone p h)) (fst (heap_Clone p h)) = Clone (hread h p) \<and>
    hread (heap_SetHeader k v p h) p = SetHeader k v (hread h p) \<and>
    hread (heap_WithKey sl p h) p = WithKey (map_option (slice_val h) sl) (hread h p) \<and>
    hread (heap_WithStringKey key p h) p = WithStringKey key (hread h p) \<and>
    hread (snd (heap_NewMessage uid now t sl h)) (fst (heap_NewMessage uid now t sl h)) =
      NewMessage uid now t (map_option (slice_val h) sl)"
proof -
  obtain q h' where q: "heap_Clone p h = (q, h')" by fastforce
  from heap_Clone_spec [OF assms(1) q] have "hread h' q = Clone (hread h p)" by blast
  with q heap_SetHeader_spec(1) [OF assms(1)] heap_WithKey_spec(1) [OF assms]
    heap_WithStringKey_spec(1) [OF assms(1)] heap_NewMessage_spec(1) [OF assms(2) prod.collapse [symmetric]]
  show ?thesis by simp
qed

theorem heap_methods_refine_values_witness:
  "hread (heap_SetHeader ''a'' ''b'' 2 demo_heap) 2 = SetHeader ''a'' ''b'' (hread demo_heap 2) \<and>
   hread (heap_WithKey (Some \<lparr>s_arr = 0, s_off = 0, s_len = 1\<rparr>) 2 demo_heap) 2 = WithKey (Some [7]) (hread demo_heap 2)"
  using heap_methods_refine_values [OF demo_heap_good(1), of "Some \<lparr>s_arr = 0, s_off = 0, s_len = 1\<rparr>" "''a''" "''b''"]
    demo_heap_good(2)
  by (simp add: slice_val_def bytes_at_def cell_at_def demo_heap_def)

end
