(* ===== verification/AsyncHeap.thy ===== *)
theory AsyncHeap
  imports AsyncProducer MessageHeap
begin

text \<open>
  The asynchronous producer with messages as pointers: \<open>Send\<close> puts the pointer it is given into
  \<open>msgCh\<close>, and the send loop passes it to \<open>Publish\<close> of the in-memory broker, on the heap of
  \<open>MessageHeap\<close>, where clients and handlers write in between.

  The model of \<open>AsyncProducer\<close> does not look at the messages, so it is used as it is with
  addresses for messages. The history records the value each accepted pointer had when \<open>Send\<close>
  took it and the value it had when it was published. For clients that leave a message alone while
  it is pending the system refines the one in which messages are values.
\<close>

section \<open>The system\<close>

definition heap_publish ::
  "runtime \<Rightarrow> go_context \<Rightarrow> string \<Rightarrow> addr \<Rightarrow> 'h hworld \<Rightarrow> go_error option \<times> 'h hworld" where
  "heap_publish rt ctx topic p w = heap_Publish rt topic p w"

record ('v, 'h) ah_system =
  asys :: "(addr, 'v, 'h hworld) ap_system"
  taken_values :: "message pendingMessage list"
  published_values :: "(message pendingMessage \<times> go_error option) list"

abbreviation hp :: "('v, 'h) ah_system \<Rightarrow> heap" where
  "hp s \<equiv> heap (bw (asys s))"

definition pm_val :: "heap \<Rightarrow> addr pendingMessage \<Rightarrow> message pendingMessage" where
  "pm_val h pm = \<lparr>pm_topic = pm_topic pm, pm_msg = hread h (pm_msg pm)\<rparr>"

definition pending :: "(addr, 'v, 'w) ap_system \<Rightarrow> addr set" where
  "pending s = pm_msg ` (set (senders s) \<union> set (msgCh (prod s)) \<union> set (in_publish s))"

text \<open>
  A step of the producer, with the values it takes and publishes. New calls of \<open>Send\<close> and what
  others do to the world are steps of their own.
\<close>

definition producer_step :: "runtime \<Rightarrow> (addr, 'v, 'h hworld) ap_system \<Rightarrow> (addr, 'v, 'h hworld) ap_system \<Rightarrow> bool" where
  "producer_step rt s t \<longleftrightarrow> ap_step (heap_publish rt) s t \<and> length (senders t) \<le> length (senders s) \<and>
     (outcomes t = outcomes s \<longrightarrow> bw t = bw s)"

inductive ah_step :: "runtime \<Rightarrow> (heap \<Rightarrow> heap \<Rightarrow> addr set \<Rightarrow> bool) \<Rightarrow> ('v, 'h) ah_system \<Rightarrow> ('v, 'h) ah_system \<Rightarrow> bool"
  for rt :: runtime and discipline :: "heap \<Rightarrow> heap \<Rightarrow> addr set \<Rightarrow> bool" where
  send: "Send_check (prod (asys s)) = None \<Longrightarrow> p \<in> set (known (bw (asys s))) \<Longrightarrow> good_msg (hp s) p \<Longrightarrow>
    ah_step rt discipline s (s\<lparr>asys := (asys s)\<lparr>senders := senders (asys s) @ [\<lparr>pm_topic = t, pm_msg = p\<rparr>]\<rparr>\<rparr>)"
| others: "heap_step rt (bw (asys s)) l w \<Longrightarrow> discipline (hp s) (heap w) (pending (asys s)) \<Longrightarrow>
    ah_step rt discipline s (s\<lparr>asys := (asys s)\<lparr>bw := w\<rparr>\<rparr>)"
| producer: "producer_step rt (asys s) u \<Longrightarrow>
    ah_step rt discipline s
      \<lparr>asys = u,
       taken_values = taken_values s @ map (pm_val (hp s)) (drop (length (accepted (asys s))) (accepted u)),
       published_values = published_values s @
         map (apfst (pm_val (hp s))) (drop (length (outcomes (asys s))) (outcomes u))\<rparr>"

definition initial_ah :: "runtime \<Rightarrow> ('v, 'h) ah_system \<Rightarrow> bool" where
  "initial_ah rt s \<longleftrightarrow> (\<exists>bsize. s = \<lparr>asys = init_async bsize (init_hworld rt), taken_values = [], published_values = []\<rparr>)"

text \<open>Clients that do anything, and clients that leave pending messages alone.\<close>

definition no_discipline :: "heap \<Rightarrow> heap \<Rightarrow> addr set \<Rightarrow> bool" where
  "no_discipline h h' ps = True"

definition hands_off :: "heap \<Rightarrow> heap \<Rightarrow> addr set \<Rightarrow> bool" where
  "hands_off h h' ps \<longleftrightarrow> (\<forall>p \<in> ps. hread h' p = hread h p)"

section \<open>Invariant\<close>

text \<open>The broker's heap is separated, and every pending pointer is one a client was given, to a message.\<close>

definition ah_inv :: "('v, 'h) ah_system \<Rightarrow> bool" where
  "ah_inv s \<longleftrightarrow> separated (bw (asys s)) \<and>
     (\<forall>p \<in> pending (asys s). p \<in> set (known (bw (asys s))) \<and> good_msg (hp s) p)"

lemma good_msg_iff: "good_msg h p \<longleftrightarrow> typed h p \<and> (\<exists>m. cell_at h p = Some (CMsg m))"
  by (auto simp: good_msg_def typed_def dest: cell_at_Some)

lemma heap_Publish_frame:
  assumes "good_msg (heap w) p" and "heap_Publish rt t p w = (e, w')"
  shows "grows (heap w) (heap w')" "known w' = known w"
proof -
  have "grows (heap w) (heap w') \<and> known w' = known w"
  proof (cases "connected (im (shell w))")
    case True
    show ?thesis by (rule heap_Publish_spec [OF assms(1) True, of rt t]) (use assms(2) in auto)
  qed (use assms(2) in \<open>simp add: heap_Publish_def\<close>)
  then show "grows (heap w) (heap w')" "known w' = known w" by simp_all
qed

lemma heap_step_keeps_messages:
  assumes "heap_step rt w l w'" and "separated w" and "p \<in> set (known w)" and "good_msg (heap w) p"
  shows "p \<in> set (known w') \<and> good_msg (heap w') p"
proof -
  have "p \<in> set (known w') \<and> (\<exists>m. cell_at (heap w') p = Some (CMsg m))"
    using assms(1)
  proof (cases rule: heap_step.cases)
    case (client_write a c c0)
    with assms(3,4) show ?thesis by (cases c0; cases c) (auto simp: good_msg_iff cell_at_put)
  next
    case (publish q t e)
    with heap_Publish_frame [OF publish(3,4)] assms(3,4) show ?thesis by (auto simp: good_msg_iff grows_def dest: cell_at_Some)
  qed (use assms(3,4) in \<open>auto simp: good_msg_iff new_cell_def dest: cell_at_Some\<close>)
  moreover from separated_step [OF assms(1,2)] this have "typed (heap w') p" by (simp add: separated_def)
  ultimately show ?thesis by (simp add: good_msg_iff)
qed

lemma in_publish_append: "in_publish (s\<lparr>sloops := xs @ (ctx, pc) # ys\<rparr>) =
    concat (map (being_sent \<circ> snd) xs) @ being_sent pc @ concat (map (being_sent \<circ> snd) ys)"
  by (simp add: in_publish_def)

lemma producer_pending:
  assumes "producer_step rt s t"
  shows "pending t \<subseteq> pending s"
proof -
  from assms have "ap_step (heap_publish rt) s t" "length (senders t) \<le> length (senders s)"
    by (simp_all add: producer_step_def)
  then show ?thesis
  proof (cases rule: ap_step.cases)
    case (send_enqueue xs pm ys e ap')
    from send_enqueue(3) show ?thesis
      by (cases rule: Send_enqueue_cases) (use send_enqueue in \<open>auto simp: pending_def in_publish_def\<close>)
  next
    case (stop ap')
    with ap_frames(2) [OF stop(2)] show ?thesis by (auto simp: pending_def in_publish_def)
  next
    case (read_error e ap')
    with ap_frames(3) [OF read_error(2)] show ?thesis by (auto simp: pending_def in_publish_def)
  qed (auto simp: pending_def in_publish_def try_recv_Some dest!: ap_frames(1))
qed

lemma producer_world:
  assumes "producer_step rt s t" and "bw t \<noteq> bw s"
  shows "\<exists>topic p r. p \<in> pending s \<and> heap_Publish rt topic p (bw s) = (r, bw t)"
proof -
  from assms have "ap_step (heap_publish rt) s t" "outcomes t \<noteq> outcomes s" by (auto simp: producer_step_def)
  then show ?thesis
  proof (cases rule: ap_step.cases)
    case (publish xs ctx pm d ys r w')
    then show ?thesis by (intro exI [of _ "pm_topic pm"] exI [of _ "pm_msg pm"] exI [of _ r])
      (auto simp: pending_def in_publish_def heap_publish_def)
  qed simp_all
qed

lemma ah_inv_init: "initial_ah rt s \<Longrightarrow> ah_inv s"
  by (auto simp: initial_ah_def ah_inv_def init_async_def NewAsyncProducer_def separated_init pending_def in_publish_def)

lemma producer_frame:
  assumes "producer_step rt s t" and "separated (bw s)" and "\<forall>p \<in> pending s. good_msg (heap (bw s)) p"
  shows "separated (bw t)" "grows (heap (bw s)) (heap (bw t))" "known (bw t) = known (bw s)"
proof -
  have "separated (bw t) \<and> grows (heap (bw s)) (heap (bw t)) \<and> known (bw t) = known (bw s)"
  proof (cases "bw t = bw s")
    case False
    from producer_world [OF assms(1) this] obtain topic p r where
      p: "p \<in> pending s" "heap_Publish rt topic p (bw s) = (r, bw t)" by blast
    with assms(3) have "good_msg (heap (bw s)) p" by blast
    with separated_publish [OF assms(2) this p(2)] heap_Publish_frame [OF this p(2)] show ?thesis by blast
  qed (use assms(2) in simp)
  then show "separated (bw t)" "grows (heap (bw s)) (heap (bw t))" "known (bw t) = known (bw s)" by simp_all
qed

lemma ah_inv_step:
  assumes "ah_inv s" and "ah_step rt discipline s t"
  shows "ah_inv t"
  using assms(2)
proof (cases rule: ah_step.cases)
  case (send p t)
  with assms(1) show ?thesis by (auto simp: ah_inv_def pending_def in_publish_def)
next
  case (others l w)
  moreover have "pending ((asys s)\<lparr>bw := w\<rparr>) = pending (asys s)" by (simp add: pending_def in_publish_def)
  ultimately show ?thesis
    using assms(1) heap_step_keeps_messages [OF others(2)] separated_step [OF others(2)] by (simp add: ah_inv_def)
next
  case (producer u)
  from assms(1) have inv: "separated (bw (asys s))" "\<forall>p \<in> pending (asys s). good_msg (hp s) p"
    by (simp_all add: ah_inv_def)
  note f = producer_frame [OF producer(2) inv]
  from producer_pending [OF producer(2)] f grows_frame(3) [OF f(2)] assms(1) show ?thesis
    by (auto simp: ah_inv_def producer(1))
qed

interpretation ahsys: step_invariant "initial_ah rt" "ah_step rt discipline" ah_inv for rt discipline
  by unfold_locales (use ah_inv_init ah_inv_step in blast)+

section \<open>Simulation\<close>

text \<open>The producer's state with the values behind its pointers.\<close>

definition prod_val :: "heap \<Rightarrow> (addr, 'v) AsyncProducer \<Rightarrow> (message, 'v) AsyncProducer" where
  "prod_val h ap =
     \<lparr>ap_serializer = ap_serializer ap, ap_compressor = ap_compressor ap, bufferSize = bufferSize ap,
      msgCh = map (pm_val h) (msgCh ap), errCh = errCh ap, ap_stopCh = ap_stopCh ap, ap_running = ap_running ap,
      ap_sent = ap_sent ap, ap_failed = ap_failed ap\<rparr>"

fun pc_val :: "heap \<Rightarrow> addr send_pc \<Rightarrow> message send_pc" where
  "pc_val h (ApPublish pm d) = ApPublish (pm_val h pm) d"
| "pc_val h ApSelect = ApSelect"
| "pc_val h ApDrain = ApDrain"
| "pc_val h ApDone = ApDone"

definition sys_val ::
  "(addr, 'v, 'h hworld) ap_system \<Rightarrow> message pendingMessage list \<Rightarrow> message pendingMessage list \<Rightarrow>
   (message pendingMessage \<times> go_error option) list \<Rightarrow> (message, 'v, 'h im_world) ap_system" where
  "sys_val s vs rs ps =
     (let h = heap (bw s)
      in \<lparr>prod = prod_val h (prod s), bw = habs_world (bw s), senders = map (pm_val h) (senders s),
          sloops = map (apsnd (pc_val h)) (sloops s), accepted = vs, received = rs, outcomes = ps\<rparr>)"

lemma sys_val_simps [simp]:
  "prod (sys_val s vs rs ps) = prod_val (heap (bw s)) (prod s)" "bw (sys_val s vs rs ps) = habs_world (bw s)"
  "senders (sys_val s vs rs ps) = map (pm_val (heap (bw s))) (senders s)"
  "sloops (sys_val s vs rs ps) = map (apsnd (pc_val (heap (bw s)))) (sloops s)"
  "accepted (sys_val s vs rs ps) = vs" "received (sys_val s vs rs ps) = rs" "outcomes (sys_val s vs rs ps) = ps"
  by (simp_all add: sys_val_def Let_def)

lemma prod_val_fields [simp]:
  "msgCh (prod_val h ap) = map (pm_val h) (msgCh ap)" "ap_stopCh (prod_val h ap) = ap_stopCh ap"
  "bufferSize (prod_val h ap) = bufferSize ap" "errCh (prod_val h ap) = errCh ap"
  "(prod_val h ap)\<lparr>msgCh := map (pm_val h) q\<rparr> = prod_val h (ap\<lparr>msgCh := q\<rparr>)"
  by (simp_all add: prod_val_def)

lemma prod_val_methods:
  "Send_check (prod_val h ap) = Send_check ap"
  "Send_enqueue (pm_val h pm) (prod_val h ap) = apsnd (prod_val h) (Send_enqueue pm ap)"
  "ap_Start_swap (prod_val h ap) = apsnd (prod_val h) (ap_Start_swap ap)"
  "ap_Stop_swap (prod_val h ap) = map_sum id (prod_val h) (ap_Stop_swap ap)"
  "Errors_recv (prod_val h ap) = map_option (apsnd (prod_val h)) (Errors_recv ap)"
  "count_result d r (prod_val h ap) = prod_val h (count_result d r ap)"
  by (cases "errCh ap"; auto simp: prod_val_def Send_check_def Send_enqueue_def try_send_def ap_Start_swap_def
      ap_Stop_swap_def Errors_recv_def count_result_def Let_def split: option.splits sum.splits)+

text \<open>Values depend on the pending messages only.\<close>

lemma values_cong:
  assumes "\<And>p. p \<in> pending s \<Longrightarrow> hread h' p = hread h p"
  shows "prod_val h' (prod s) = prod_val h (prod s)" "map (pm_val h') (senders s) = map (pm_val h) (senders s)"
    "map (apsnd (pc_val h')) (sloops s) = map (apsnd (pc_val h)) (sloops s)"
proof -
  have v: "pm_val h' pm = pm_val h pm" if "pm_msg pm \<in> pending s" for pm using assms [OF that] by (simp add: pm_val_def)
  then show "prod_val h' (prod s) = prod_val h (prod s)" "map (pm_val h') (senders s) = map (pm_val h) (senders s)"
    by (auto simp: prod_val_def pending_def)
  have "pc_val h' pc = pc_val h pc" if "(ctx, pc) \<in> set (sloops s)" for ctx pc
  proof (cases pc)
    case (ApPublish pm d)
    with that have "pm_msg pm \<in> pending s" by (force simp: pending_def in_publish_def)
    with v ApPublish show ?thesis by simp
  qed simp_all
  then show "map (apsnd (pc_val h')) (sloops s) = map (apsnd (pc_val h)) (sloops s)" by auto
qed

text \<open>One step of the producer; the histories grow by the values of what was accepted and published.\<close>

definition grown_val ::
  "(addr, 'v, 'h hworld) ap_system \<Rightarrow> (addr, 'v, 'h hworld) ap_system \<Rightarrow> message pendingMessage list \<Rightarrow>
   message pendingMessage list \<Rightarrow> (message pendingMessage \<times> go_error option) list \<Rightarrow> (message, 'v, 'h im_world) ap_system" where
  "grown_val s t vs rs ps =
     sys_val t (vs @ map (pm_val (heap (bw s))) (drop (length (accepted s)) (accepted t)))
       (rs @ map (pm_val (heap (bw s))) (drop (length (received s)) (received t)))
       (ps @ map (apfst (pm_val (heap (bw s)))) (drop (length (outcomes s)) (outcomes t)))"

lemma quiet_step_simulated:
  assumes "ap_step (heap_publish rt) s t" and "length (senders t) \<le> length (senders s)" and "outcomes t = outcomes s"
    and "bw t = bw s"
  shows "(ap_step (im_publish rt))\<^sup>=\<^sup>= (sys_val s vs rs ps) (grown_val s t vs rs ps)"
proof -
  let ?h = "heap (bw s)" and ?v = "sys_val s vs rs ps"
  let ?ls = "map (apsnd (pc_val ?h))" and ?pms = "map (pm_val ?h)"
  note defs = grown_val_def sys_val_def Let_def prod_val_methods try_recv_Some
  from assms(1) show ?thesis
  proof (cases rule: ap_step.cases)
    case (send_enqueue xs pm ys e ap')
    with ap_step.send_enqueue [of ?v "?pms xs" "pm_val ?h pm" "?pms ys" e "prod_val ?h ap'" "im_publish rt"]
    show ?thesis by (cases e) (simp_all add: defs)
  next
    case (start spawn ap' ctx)
    with ap_step.start [of ?v spawn "prod_val ?h ap'" "im_publish rt" ctx]
    show ?thesis by (cases spawn) (simp_all add: defs)
  next
    case (stop ap')
    with ap_step.stop [of ?v "prod_val ?h ap'" "im_publish rt"] show ?thesis by (simp add: defs)
  next
    case (read_error e ap')
    with ap_step.read_error [of ?v e "prod_val ?h ap'" "im_publish rt"] show ?thesis by (simp add: defs)
  next
    case (recv xs ctx ys pm q)
    with ap_step.recv [of ?v "?ls xs" ctx "?ls ys" "pm_val ?h pm" "?pms q" "im_publish rt"] show ?thesis by (simp add: defs)
  next
    case (stopped xs ctx ys)
    with ap_step.stopped [of ?v "?ls xs" ctx "?ls ys" "im_publish rt"] show ?thesis by (simp add: defs)
  next
    case (context_done xs ctx pc ys e)
    with ap_step.context_done [of ?v "?ls xs" ctx "pc_val ?h pc" "?ls ys" "im_publish rt" e] show ?thesis by (simp add: defs)
  next
    case (cancelled xs ctx ys)
    with ap_step.cancelled [of ?v "?ls xs" ctx "?ls ys" "im_publish rt"] show ?thesis by (simp add: defs)
  next
    case (drain_recv xs ctx ys pm q)
    with ap_step.drain_recv [of ?v "?ls xs" ctx "?ls ys" "pm_val ?h pm" "?pms q" "im_publish rt"]
    show ?thesis by (simp add: defs)
  next
    case (drained xs ctx ys)
    with ap_step.drained [of ?v "?ls xs" ctx "?ls ys" "im_publish rt"] show ?thesis
      by (cases "msgCh (prod s)") (simp_all add: defs)
  qed (use assms(2-4) in \<open>simp_all add: defs\<close>)
qed

lemma publish_step_simulated:
  assumes "producer_step rt s t" and "separated (bw s)" and "\<forall>p \<in> pending s. good_msg (heap (bw s)) p"
    and "outcomes t \<noteq> outcomes s"
  shows "ap_step (im_publish rt) (sys_val s vs rs ps) (grown_val s t vs rs ps)"
proof -
  let ?h = "heap (bw s)" and ?v = "sys_val s vs rs ps"
  let ?ls = "map (apsnd (pc_val ?h))"
  have "hread (heap (bw t)) q = hread ?h q" if "q \<in> pending t" for q
    using that producer_pending [OF assms(1)] assms(3) grows_frame(4) [OF producer_frame(2) [OF assms(1-3)]] by blast
  then have v: "prod_val (heap (bw t)) (prod t) = prod_val ?h (prod t)"
    "map (pm_val (heap (bw t))) (senders t) = map (pm_val ?h) (senders t)"
    "map (apsnd (pc_val (heap (bw t)))) (sloops t) = ?ls (sloops t)"
    by (intro values_cong; blast)+
  from assms(1,4) have "ap_step (heap_publish rt) s t" "outcomes t \<noteq> outcomes s" by (simp_all add: producer_step_def)
  then show ?thesis
  proof (cases rule: ap_step.cases)
    case (publish xs ctx pm d ys r w')
    then have "pm_msg pm \<in> pending s" by (simp add: pending_def in_publish_def)
    with assms(3) have good: "good_msg ?h (pm_msg pm)" by blast
    have P: "heap_Publish rt (pm_topic pm) (pm_msg pm) (bw s) = (r, w')" using publish by (simp add: heap_publish_def)
    from simulate_publish(1) [OF assms(2) good P]
    have "im_publish rt ctx (pm_topic (pm_val ?h pm)) (pm_msg (pm_val ?h pm)) (bw ?v) = (r, habs_world w')"
      by (simp add: im_publish_def pm_val_def)
    moreover have "sloops ?v = ?ls xs @ (ctx, ApPublish (pm_val ?h pm) d) # ?ls ys" using publish by simp
    ultimately have "ap_step (im_publish rt) ?v (?v\<lparr>prod := count_result d r (prod ?v), bw := habs_world w',
        outcomes := ps @ [(pm_val ?h pm, r)], sloops := ?ls xs @ (ctx, if d then ApDrain else ApSelect) # ?ls ys\<rparr>)"
      using ap_step.publish [of ?v "?ls xs" ctx "pm_val ?h pm" d "?ls ys" "im_publish rt" r "habs_world w'"] by simp
    then show ?thesis
      unfolding grown_val_def sys_val_def Let_def v using publish by (cases d) (simp_all add: prod_val_methods)
  qed simp_all
qed

lemma producer_simulated:
  assumes "producer_step rt s t" and "separated (bw s)" and "\<forall>p \<in> pending s. good_msg (heap (bw s)) p"
  shows "(ap_step (im_publish rt))\<^sup>*\<^sup>* (sys_val s vs rs ps) (grown_val s t vs rs ps)"
proof (cases "outcomes t = outcomes s")
  case True
  with assms(1) have "(ap_step (im_publish rt))\<^sup>=\<^sup>= (sys_val s vs rs ps) (grown_val s t vs rs ps)"
    by (intro quiet_step_simulated) (simp_all add: producer_step_def)
  then show ?thesis by auto
next
  case False
  with publish_step_simulated [OF assms] show ?thesis by blast
qed

definition ah_sim :: "('v, 'h) ah_system \<Rightarrow> (message, 'v, 'h im_world) ap_system \<Rightarrow> bool" where
  "ah_sim s v \<longleftrightarrow> ah_inv s \<and> (\<exists>rs. v = sys_val (asys s) (taken_values s) rs (published_values s))"

lemma ah_sim_step:
  assumes "ah_sim s v" and "ah_step rt hands_off s t"
  shows "\<exists>v'. (ap_step (im_publish rt))\<^sup>*\<^sup>* v v' \<and> ah_sim t v'"
proof -
  from assms(1) obtain rs where inv: "ah_inv s" and v: "v = sys_val (asys s) (taken_values s) rs (published_values s)"
    by (auto simp: ah_sim_def)
  let ?val = "\<lambda>rs. sys_val (asys t) (taken_values t) rs (published_values t)"
  have "\<exists>rs'. (ap_step (im_publish rt))\<^sup>*\<^sup>* v (?val rs')"
    using assms(2)
  proof (cases rule: ah_step.cases)
    case (send p topic)
    have "ap_step (im_publish rt) v (v\<lparr>senders := senders v @ [pm_val (hp s) \<lparr>pm_topic = topic, pm_msg = p\<rparr>]\<rparr>)"
      by (rule ap_step.send_check) (use send v in \<open>simp add: prod_val_methods\<close>)
    moreover have "v\<lparr>senders := senders v @ [pm_val (hp s) \<lparr>pm_topic = topic, pm_msg = p\<rparr>]\<rparr> = ?val rs"
      using send v by (simp add: sys_val_def Let_def)
    ultimately show ?thesis by (metis r_into_rtranclp)
  next
    case (others l w)
    then have "hread (heap w) p = hread (hp s) p" if "p \<in> pending (asys s)" for p using that by (simp add: hands_off_def)
    note c = values_cong [of "asys s", OF this]
    have "?val rs = v\<lparr>bw := habs_world w\<rparr>" unfolding v using c others(1) by (simp add: sys_val_def Let_def)
    with ap_step.others [of "im_publish rt" v "habs_world w"] show ?thesis by (metis r_into_rtranclp)
  next
    case (producer u)
    from inv have "separated (bw (asys s))" "\<forall>p \<in> pending (asys s). good_msg (hp s) p" by (simp_all add: ah_inv_def)
    from producer_simulated [OF producer(2) this, of "taken_values s" rs "published_values s"] show ?thesis
      unfolding v grown_val_def producer(1) by auto
  qed
  with ah_inv_step [OF inv assms(2)] show ?thesis by (auto simp: ah_sim_def)
qed

interpretation ah: forward_simulation "initial_ah rt" "ah_step rt hands_off" initial_async "ap_step (im_publish rt)" ah_sim
  for rt
proof (unfold_locales, goal_cases)
  case (1 s)
  then obtain bsize where s: "s = \<lparr>asys = init_async bsize (init_hworld rt), taken_values = [], published_values = []\<rparr>"
    by (auto simp: initial_ah_def)
  have "sys_val (asys s) [] [] [] = init_async bsize (habs_world (init_hworld rt))"
    by (simp add: s sys_val_def init_async_def NewAsyncProducer_def prod_val_def Let_def)
  with ah_inv_init [OF 1] s show ?case by (auto simp: ah_sim_def initial_async_def)
next
  case (2 s v t)
  then show ?case by (rule ah_sim_step)
qed

section \<open>Properties\<close>

lemma in_publish_values: "in_publish (sys_val s vs rs ps) = map (pm_val (heap (bw s))) (in_publish s)"
proof -
  have "being_sent (pc_val h pc) = map (pm_val h) (being_sent pc)" for h pc by (cases pc) simp_all
  then show ?thesis by (simp add: in_publish_def map_concat comp_def)
qed

text \<open>
  C15: the asynchronous producer keeps the pointers it is given. For clients that do not change what a
  message they handed to \<open>Send\<close> holds while it is pending (before and after that they may), the
  producer over the in-memory broker, with messages as pointers on a heap, behaves like the one in
  which messages are values: with the same broker, the same producer (flags, counters, errors) but
  for the values in place of the pointers, and histories in which each message has the value it had when \<open>Send\<close> took it. So what was published, in the channel
  and being published are together exactly the values that were handed in.
\<close>

theorem async_pointers_refine_values:
  assumes "reachable (initial_ah rt) (ah_step rt hands_off) s"
  shows "(\<exists>v. reachable initial_async (ap_step (im_publish rt)) v \<and> accepted v = taken_values s \<and>
      outcomes v = published_values s \<and> bw v = habs_world (bw (asys s)) \<and> prod v = prod_val (hp s) (prod (asys s))) \<and>
    mset (taken_values s) = mset (map fst (published_values s)) +
      mset (map (pm_val (hp s)) (msgCh (prod (asys s)) @ in_publish (asys s)))"
proof -
  from ah.simulated [OF assms] obtain v rs where v: "reachable initial_async (ap_step (im_publish rt)) v"
    "v = sys_val (asys s) (taken_values s) rs (published_values s)" by (auto simp: ah_sim_def)
  from apsys.inv_reachable [OF v(1)] have "conserved v" by simp
  then have c: "rs @ map (pm_val (hp s)) (msgCh (prod (asys s))) = taken_values s"
    "mset rs = mset (map fst (published_values s)) + mset (map (pm_val (hp s)) (in_publish (asys s)))"
    unfolding conserved_def v(2) in_publish_values by simp_all
  have "mset (taken_values s) = mset (map fst (published_values s)) +
      mset (map (pm_val (hp s)) (msgCh (prod (asys s)) @ in_publish (asys s)))"
    unfolding c(1) [symmetric] mset_append c(2) map_append by (simp only: ac_simps)
  with v show ?thesis by (intro conjI exI [of _ v]) simp_all
qed

text \<open>A run: the world of the witnesses of \<open>MessageHeap\<close>, a started producer, and the client's message in its channel.\<close>

definition ptr_pm :: "addr pendingMessage" where
  "ptr_pm = \<lparr>pm_topic = ''t'', pm_msg = 2\<rparr>"

definition demo_producer :: "addr pendingMessage list \<Rightarrow> (addr, bool) AsyncProducer" where
  "demo_producer q = (NewAsyncProducer 2)\<lparr>ap_running := True, msgCh := q\<rparr>"

definition demo_asys :: "addr pendingMessage list \<Rightarrow> addr send_pc \<Rightarrow> bool hworld \<Rightarrow> (addr, bool, bool hworld) ap_system" where
  "demo_asys q pc w = (init_async 2 w)\<lparr>prod := demo_producer q, sloops := [(context_Background, pc)]\<rparr>"

definition demo_queued_ptr :: "bool hworld \<Rightarrow> (bool, bool) ah_system" where
  "demo_queued_ptr w = \<lparr>asys = (demo_asys [ptr_pm] ApSelect w)\<lparr>accepted := [ptr_pm]\<rparr>,
     taken_values = [pm_val demo_heap ptr_pm], published_values = []\<rparr>"

lemma ah_lift_run:
  assumes "heap_run rt es w" and "\<forall>h h'. discipline h h' {}"
  shows "reachable (initial_ah rt) (ah_step rt discipline)
    (\<lparr>asys = init_async bsize w, taken_values = [], published_values = []\<rparr> :: ('v, 'h) ah_system)"
  using assms(1)
proof (induction rule: heap_run.induct)
  case start
  show ?case by (rule reachable.start) (auto simp: initial_ah_def)
next
  case (step es w l w')
  let ?s = "\<lparr>asys = init_async bsize w, taken_values = [], published_values = []\<rparr> :: ('v, 'h) ah_system"
  have "pending (asys ?s) = {}" by (simp add: pending_def in_publish_def init_async_def NewAsyncProducer_def)
  with assms(2) have "discipline (hp ?s) (heap w') (pending (asys ?s))" by simp
  moreover have "bw (asys ?s) = w" by (simp add: init_async_def)
  ultimately have "ah_step rt discipline ?s (?s\<lparr>asys := (asys ?s)\<lparr>bw := w'\<rparr>\<rparr>)"
    using step(2) by (intro ah_step.others [where l = l]) simp_all
  with reachable.step [OF step.IH] show ?case by (simp add: init_async_def)
qed

lemmas demo_ptr_defs = demo_asys_def demo_producer_def init_async_def NewAsyncProducer_def ptr_pm_def

lemma demo_queued_ptr_reachable:
  assumes "\<forall>h h'. discipline h h' {}"
  shows "reachable (initial_ah rt_example) (ah_step rt_example discipline) (demo_queued_ptr demo_hready)"
proof -
  let ?step = "ah_step rt_example discipline" and ?w = demo_hready
  let ?s0 = "\<lparr>asys = init_async 2 ?w, taken_values = [], published_values = []\<rparr> :: (bool, bool) ah_system"
  let ?s1 = "\<lparr>asys = demo_asys [] ApSelect ?w, taken_values = [], published_values = []\<rparr>"
  let ?s2 = "\<lparr>asys = (demo_asys [] ApSelect ?w)\<lparr>senders := [ptr_pm]\<rparr>, taken_values = [], published_values = []\<rparr>"
  have "ap_step (heap_publish rt_example) (asys ?s0) (asys ?s1)"
    using ap_step.start [of "asys ?s0" True "demo_producer []" "heap_publish rt_example" context_Background]
    by (simp add: demo_ptr_defs ap_Start_swap_def)
  then have "producer_step rt_example (asys ?s0) (asys ?s1)" by (simp add: producer_step_def demo_ptr_defs)
  from ah_step.producer [OF this, of discipline] have 1: "?step ?s0 ?s1" by (simp add: demo_ptr_defs)
  have "good_msg (heap ?w) 2" "2 \<in> set (known ?w)" using demo_heap_good(1) by (simp_all add: demo_hready_def)
  then have 2: "?step ?s1 ?s2"
    using ah_step.send [of ?s1 2 rt_example discipline "''t''"] by (simp add: demo_ptr_defs Send_check_def)
  have "ap_step (heap_publish rt_example) (asys ?s2) (asys (demo_queued_ptr ?w))"
    using ap_step.send_enqueue [of "asys ?s2" "[]" ptr_pm "[]" None "demo_producer [ptr_pm]" "heap_publish rt_example"]
    by (simp add: demo_ptr_defs demo_queued_ptr_def Send_enqueue_def try_send_def)
  then have "producer_step rt_example (asys ?s2) (asys (demo_queued_ptr ?w))"
    by (simp add: producer_step_def demo_ptr_defs demo_queued_ptr_def)
  from ah_step.producer [OF this, of discipline] have 3: "?step ?s2 (demo_queued_ptr ?w)"
    by (simp add: demo_ptr_defs demo_queued_ptr_def demo_hready_def)
  from ah_lift_run [of _ _ _ discipline, OF demo_hready_run assms] 1 2 3 show ?thesis by (blast intro: reachable.step)
qed

lemma demo_published_reachable:
  assumes "reachable (initial_ah rt_example) (ah_step rt_example discipline) (demo_queued_ptr w)"
    and "heap_Publish rt_example ''t'' 2 w = (r, w')"
  shows "\<exists>s :: (bool, bool) ah_system. reachable (initial_ah rt_example) (ah_step rt_example discipline) s \<and>
    taken_values s = [pm_val demo_heap ptr_pm] \<and> published_values s = [(pm_val (heap w) ptr_pm, r)]"
proof -
  let ?step = "ah_step rt_example discipline" and ?s0 = "demo_queued_ptr w"
  let ?a1 = "(demo_asys [] (ApPublish ptr_pm False) w)\<lparr>accepted := [ptr_pm], received := [ptr_pm]\<rparr>"
  let ?s1 = "?s0\<lparr>asys := ?a1\<rparr>"
  let ?a2 = "?a1\<lparr>prod := count_result False r (prod ?a1), bw := w', outcomes := [(ptr_pm, r)],
    sloops := [(context_Background, ApSelect)]\<rparr>"
  have "ap_step (heap_publish rt_example) (asys ?s0) ?a1"
    using ap_step.recv [of "asys ?s0" "[]" context_Background "[]" ptr_pm "[]" "heap_publish rt_example"]
    by (simp add: demo_ptr_defs demo_queued_ptr_def)
  then have "producer_step rt_example (asys ?s0) ?a1" by (simp add: producer_step_def demo_ptr_defs demo_queued_ptr_def)
  from ah_step.producer [OF this, of discipline] have 1: "?step ?s0 ?s1" by (simp add: demo_ptr_defs demo_queued_ptr_def)
  have "ap_step (heap_publish rt_example) ?a1 ?a2"
    using ap_step.publish [of ?a1 "[]" context_Background ptr_pm False "[]" "heap_publish rt_example" r w'] assms(2)
    by (simp add: demo_ptr_defs heap_publish_def)
  then have "producer_step rt_example (asys ?s1) ?a2" by (simp add: producer_step_def demo_ptr_defs)
  let ?s2 = "\<lparr>asys = ?a2, taken_values = [pm_val demo_heap ptr_pm], published_values = [(pm_val (heap w) ptr_pm, r)]\<rparr>"
  from ah_step.producer [OF \<open>producer_step rt_example (asys ?s1) ?a2\<close>, of discipline] have 2: "?step ?s1 ?s2"
    by (simp add: demo_ptr_defs demo_queued_ptr_def)
  show ?thesis by (rule exI [of _ ?s2]) (use reachable.step [OF reachable.step [OF assms(1) 1] 2] in simp)
qed

lemma demo_connected_publish:
  assumes "heap w = h" and "good_msg h 2" and "shell w = shell demo_hready"
  shows "\<exists>w'. heap_Publish rt_example ''t'' 2 w = (None, w')"
proof -
  have "connected (im (shell w))" by (simp add: assms(3) demo_hready_def Subscribe_def Connect_def new_world_def Let_def)
  with heap_Publish_spec [of w 2 rt_example "''t''"] assms(1,2) show ?thesis by metis
qed

theorem async_pointers_refine_values_witness:
  "\<exists>s v :: (message, bool, bool im_world) ap_system. reachable initial_async (ap_step (im_publish rt_example)) v \<and>
     outcomes v = published_values (s :: (bool, bool) ah_system) \<and>
     map (Value \<circ> pm_msg) (accepted v) = [Some [7]] \<and> map (Value \<circ> pm_msg \<circ> fst) (outcomes v) = [Some [7]]"
proof -
  obtain w' where "heap_Publish rt_example ''t'' 2 demo_hready = (None, w')"
    using demo_connected_publish [of demo_hready demo_heap] demo_heap_good(1) by (auto simp: demo_hready_def)
  from demo_published_reachable [OF demo_queued_ptr_reachable this, of hands_off] obtain s :: "(bool, bool) ah_system" where
    s: "reachable (initial_ah rt_example) (ah_step rt_example hands_off) s" "taken_values s = [pm_val demo_heap ptr_pm]"
      "published_values s = [(pm_val (heap demo_hready) ptr_pm, None)]"
    by (auto simp: hands_off_def)
  have "Value (hread demo_heap 2) = Some [7]" by code_simp
  with async_pointers_refine_values [OF s(1)] s(2,3) show ?thesis
    by (auto simp: pm_val_def ptr_pm_def demo_hready_def intro!: exI [of _ s])
qed

text \<open>
  Without that care the pointer shows: there is a run in which \<open>Send\<close> accepts a message whose
  value is one byte, the client overwrites the byte, and the message that is published, with
  success, is not the one that was sent.
\<close>

lemma late_write_is_published:
  "\<exists>s :: (bool, bool) ah_system. reachable (initial_ah rt_example) (ah_step rt_example no_discipline) s \<and>
     map (Value \<circ> pm_msg) (taken_values s) = [Some [7]] \<and>
     map (\<lambda>(pm, r). (Value (pm_msg pm), r)) (published_values s) = [(Some [9], None)]"
proof -
  let ?h = "put_cell 0 (CBytes [9]) demo_heap"
  let ?w = "demo_hready\<lparr>heap := ?h\<rparr>" and ?s = "demo_queued_ptr demo_hready"
  have "heap_step rt_example demo_hready None ?w"
    using heap_step.client_write [of 0 demo_hready "CBytes [9]" "CBytes [7]"]
    by (simp add: demo_hready_def demo_heap_def cell_at_def reach_def footprint_def client_cell_def)
  then have "ah_step rt_example no_discipline ?s (?s\<lparr>asys := (asys ?s)\<lparr>bw := ?w\<rparr>\<rparr>)"
    by (intro ah_step.others) (simp_all add: no_discipline_def demo_queued_ptr_def demo_ptr_defs)
  then have 1: "reachable (initial_ah rt_example) (ah_step rt_example no_discipline) (demo_queued_ptr ?w)"
    using reachable.step [OF demo_queued_ptr_reachable] by (simp add: no_discipline_def demo_queued_ptr_def demo_ptr_defs)
  have "good_msg ?h 2" using demo_heap_good by (simp add: good_msg_def good_fields_def good_slice_def good_map_def demo_heap_def
      demo_hmessage_def cell_at_def put_cell_def)
  then obtain w' where "heap_Publish rt_example ''t'' 2 ?w = (None, w')"
    using demo_connected_publish [of ?w ?h] by auto
  from demo_published_reachable [OF 1 this] obtain s :: "(bool, bool) ah_system" where
    "reachable (initial_ah rt_example) (ah_step rt_example no_discipline) s"
    "taken_values s = [pm_val demo_heap ptr_pm]" "published_values s = [(pm_val ?h ptr_pm, None)]" by auto
  moreover have "Value (hread demo_heap 2) = Some [7]" "Value (hread ?h 2) = Some [9]" by code_simp+
  ultimately show ?thesis by (intro exI [of _ s]) (simp add: pm_val_def ptr_pm_def)
qed

end
