(* ===== verification/ConsumerGroup.thy ===== *)
theory ConsumerGroup
  imports Broker_Interface
begin

text \<open>
  \<open>ConsumerGroup\<close> of \<open>pkg/consumer/consumer.go\<close> and its messages
  (\<open>pkg/consumer/i18n_messages.go\<close>).

  The broker the group uses is an argument of its methods: \<open>subscribe\<close> and
  \<open>cancel\<close> (the \<open>Unsubscribe\<close> of a subscription) over a world \<open>'w\<close>. Iterating a
  Go map visits the keys in some order; the orders of the three loops are arguments too. The
  reads and writes of the atomic flag \<open>running\<close> are outside the group's lock, so
  \<open>Start\<close> is the check \<open>Start_check\<close> followed by the locked part
  \<open>Start_locked\<close>, which another call may come between.
\<close>

section \<open>Messages\<close>

definition already_running_key :: string where
  "already_running_key = ''messaging_broker_consumer_group_already_running''"

definition subscribe_failed_key :: string where
  "subscribe_failed_key = ''messaging_broker_subscribe_failed''"

definition translatorProvider :: translator where
  "translatorProvider = NoopTranslator"

definition renderAlreadyRunning :: "translator \<Rightarrow> string \<Rightarrow> string" where
  "renderAlreadyRunning tp gid =
     (let rendered = T tp already_running_key [''id'' \<mapsto> AnyString gid]
      in if rendered = already_running_key
         then ''consumer group '' @ gid @ '' is already running'' else rendered)"

definition renderSubscribeFailure :: "translator \<Rightarrow> string \<Rightarrow> string" where
  "renderSubscribeFailure tp topic =
     (let rendered = T tp subscribe_failed_key [''topic'' \<mapsto> AnyString topic]
      in if rendered = subscribe_failed_key
         then ''failed to subscribe to '' @ topic else rendered)"

section \<open>The group\<close>

record ('h, 's) ConsumerGroup =
  cg_id :: string
  cg_subscriptions :: "string \<rightharpoonup> 's"
  cg_handlers :: "string \<rightharpoonup> 'h"
  cg_running :: bool

definition NewConsumerGroup :: "string \<Rightarrow> string \<Rightarrow> ('h, 's) ConsumerGroup" where
  "NewConsumerGroup uid gid =
     \<lparr>cg_id = (if gid = '''' then ''cg-'' @ take 8 uid else gid),
      cg_subscriptions = Map.empty, cg_handlers = Map.empty, cg_running = False\<rparr>"

definition cg_ID :: "('h, 's) ConsumerGroup \<Rightarrow> string" where
  "cg_ID cg = cg_id cg"

definition cg_Add :: "string \<Rightarrow> 'h \<Rightarrow> ('h, 's) ConsumerGroup \<Rightarrow> ('h, 's) ConsumerGroup" where
  "cg_Add topic h cg = cg\<lparr>cg_handlers := (cg_handlers cg)(topic \<mapsto> h)\<rparr>"

definition cg_IsRunning :: "('h, 's) ConsumerGroup \<Rightarrow> bool" where
  "cg_IsRunning cg = cg_running cg"

definition cg_Topics :: "string list \<Rightarrow> ('h, 's) ConsumerGroup \<Rightarrow> string list" where
  "cg_Topics ord cg = filter (\<lambda>t. cg_handlers cg t \<noteq> None) ord"

text \<open>The clean-up loop of a failed start: the errors of \<open>Unsubscribe\<close> are ignored.\<close>

fun cancel_all :: "('s \<Rightarrow> 'w \<Rightarrow> go_error option \<times> 'w) \<Rightarrow> (string \<rightharpoonup> 's) \<Rightarrow> string list \<Rightarrow> 'w \<Rightarrow> 'w" where
  "cancel_all cancel subs [] w = w"
| "cancel_all cancel subs (t # ts) w =
     (case subs t of
        None \<Rightarrow> cancel_all cancel subs ts w
      | Some s \<Rightarrow> cancel_all cancel subs ts (snd (cancel s w)))"

fun start_loop ::
  "(go_context \<Rightarrow> string \<Rightarrow> 'h \<Rightarrow> 'w \<Rightarrow> (go_error + 's) \<times> 'w) \<Rightarrow>
   ('s \<Rightarrow> 'w \<Rightarrow> go_error option \<times> 'w) \<Rightarrow> translator \<Rightarrow> ((string \<rightharpoonup> 's) \<Rightarrow> string list) \<Rightarrow>
   go_context \<Rightarrow> string list \<Rightarrow> ('h, 's) ConsumerGroup \<Rightarrow> 'w \<Rightarrow>
   go_error option \<times> ('h, 's) ConsumerGroup \<times> 'w" where
  "start_loop subscribe cancel tp ord ctx [] cg w = (None, cg\<lparr>cg_running := True\<rparr>, w)"
| "start_loop subscribe cancel tp ord ctx (t # ts) cg w =
     (case cg_handlers cg t of
        None \<Rightarrow> start_loop subscribe cancel tp ord ctx ts cg w
      | Some h \<Rightarrow>
          (case subscribe ctx t h w of
             (Inl err, w') \<Rightarrow>
               (Some (Errorf_w tp (renderSubscribeFailure tp t) err),
                cg\<lparr>cg_subscriptions := Map.empty\<rparr>,
                cancel_all cancel (cg_subscriptions cg) (ord (cg_subscriptions cg)) w')
           | (Inr s, w') \<Rightarrow>
               start_loop subscribe cancel tp ord ctx ts
                 (cg\<lparr>cg_subscriptions := (cg_subscriptions cg)(t \<mapsto> s)\<rparr>) w'))"

definition Start_check :: "translator \<Rightarrow> ('h, 's) ConsumerGroup \<Rightarrow> go_error option" where
  "Start_check tp cg =
     (if cg_running cg then Some (ErrorString (renderAlreadyRunning tp (cg_id cg))) else None)"

definition Start_locked ::
  "(go_context \<Rightarrow> string \<Rightarrow> 'h \<Rightarrow> 'w \<Rightarrow> (go_error + 's) \<times> 'w) \<Rightarrow>
   ('s \<Rightarrow> 'w \<Rightarrow> go_error option \<times> 'w) \<Rightarrow> translator \<Rightarrow> string list \<Rightarrow>
   ((string \<rightharpoonup> 's) \<Rightarrow> string list) \<Rightarrow> go_context \<Rightarrow> ('h, 's) ConsumerGroup \<Rightarrow> 'w \<Rightarrow>
   go_error option \<times> ('h, 's) ConsumerGroup \<times> 'w" where
  "Start_locked subscribe cancel tp hord ord ctx cg w =
     start_loop subscribe cancel tp ord ctx hord cg w"

definition Start ::
  "(go_context \<Rightarrow> string \<Rightarrow> 'h \<Rightarrow> 'w \<Rightarrow> (go_error + 's) \<times> 'w) \<Rightarrow>
   ('s \<Rightarrow> 'w \<Rightarrow> go_error option \<times> 'w) \<Rightarrow> translator \<Rightarrow> string list \<Rightarrow>
   ((string \<rightharpoonup> 's) \<Rightarrow> string list) \<Rightarrow> go_context \<Rightarrow> ('h, 's) ConsumerGroup \<Rightarrow> 'w \<Rightarrow>
   go_error option \<times> ('h, 's) ConsumerGroup \<times> 'w" where
  "Start subscribe cancel tp hord ord ctx cg w =
     (case Start_check tp cg of
        Some e \<Rightarrow> (Some e, cg, w)
      | None \<Rightarrow> Start_locked subscribe cancel tp hord ord ctx cg w)"

fun stop_loop ::
  "('s \<Rightarrow> 'w \<Rightarrow> go_error option \<times> 'w) \<Rightarrow> translator \<Rightarrow> (string \<rightharpoonup> 's) \<Rightarrow> string list \<Rightarrow>
   go_error option list \<Rightarrow> 'w \<Rightarrow> go_error option list \<times> 'w" where
  "stop_loop cancel tp subs [] errs w = (errs, w)"
| "stop_loop cancel tp subs (t # ts) errs w =
     (case subs t of
        None \<Rightarrow> stop_loop cancel tp subs ts errs w
      | Some s \<Rightarrow>
          (case cancel s w of
             (None, w') \<Rightarrow> stop_loop cancel tp subs ts errs w'
           | (Some err, w') \<Rightarrow>
               stop_loop cancel tp subs ts
                 (MultiError_Add errs (Some (Errorf_w tp (''failed to unsubscribe from '' @ t) err))) w'))"

definition Stop ::
  "('s \<Rightarrow> 'w \<Rightarrow> go_error option \<times> 'w) \<Rightarrow> translator \<Rightarrow> string list \<Rightarrow>
   ('h, 's) ConsumerGroup \<Rightarrow> 'w \<Rightarrow> go_error option \<times> ('h, 's) ConsumerGroup \<times> 'w" where
  "Stop cancel tp ord cg w =
     (if \<not> cg_running cg then (None, cg, w)
      else
        let (errs, w') = stop_loop cancel tp (cg_subscriptions cg) ord [] w
        in (MultiError_ErrorOrNil errs,
            cg\<lparr>cg_running := False, cg_subscriptions := Map.empty\<rparr>, w'))"

section \<open>What subscribing and cancelling keep, the group keeps\<close>

locale keeping =
  fixes subscribe :: "go_context \<Rightarrow> string \<Rightarrow> 'h \<Rightarrow> 'w \<Rightarrow> (go_error + 's) \<times> 'w"
    and cancel :: "'s \<Rightarrow> 'w \<Rightarrow> go_error option \<times> 'w"
    and good :: "'w \<Rightarrow> bool"
    and allowed :: "'h set"
  assumes good_subscribe: "good w \<Longrightarrow> f \<in> allowed \<Longrightarrow> good (snd (subscribe ctx t f w))"
    and good_cancel: "good w \<Longrightarrow> good (snd (cancel s w))"
begin

lemma good_cancel_all: "good w \<Longrightarrow> good (cancel_all cancel subs ts w)"
  by (induction ts arbitrary: w) (auto split: option.splits intro: good_cancel)

lemma good_start_loop:
  "good w \<Longrightarrow> ran (cg_handlers cg) \<subseteq> allowed \<Longrightarrow> good (snd (snd (start_loop subscribe cancel tp ord ctx ts cg w)))"
proof (induction ts arbitrary: cg w)
  case (Cons t ts)
  have "good (snd (subscribe ctx t f w))" if "cg_handlers cg t = Some f" for f
    using that Cons.prems good_subscribe by (blast intro: ranI)
  with Cons show ?case
    by (auto split: option.splits prod.splits sum.splits intro!: good_cancel_all)
qed simp

lemma good_Start:
  "good w \<Longrightarrow> ran (cg_handlers cg) \<subseteq> allowed \<Longrightarrow> good (snd (snd (Start subscribe cancel tp hord ord ctx cg w)))"
  by (simp add: Start_def Start_locked_def good_start_loop split: option.splits)

lemma good_stop_loop: "good w \<Longrightarrow> good (snd (stop_loop cancel tp subs ts errs w))"
proof (induction ts arbitrary: errs w)
  case (Cons t ts)
  have "good (snd (cancel s w))" for s using Cons.prems good_cancel by blast
  with Cons.IH show ?case
    using Cons.prems by (auto split: option.splits prod.splits) (metis snd_conv)+
qed simp

lemma good_Stop: "good w \<Longrightarrow> good (snd (snd (Stop cancel tp ord cg w)))"
  using good_stop_loop [of w tp "cg_subscriptions cg" ord "[]"] by (auto simp: Stop_def split: prod.splits)

end

sublocale subscribing \<subseteq> kept: keeping subscribe cancel inv UNIV
  by unfold_locales (simp_all add: subscribe_inv cancel_inv)

section \<open>The group over any broker\<close>

context subscribing
begin

lemma cancel_all_active:
  assumes "inv w" and "dom subs \<subseteq> set ts"
  shows "inv (cancel_all cancel subs ts w) \<and>
    active (cancel_all cancel subs ts w) = {x \<in> active w. fst x \<notin> ran subs}"
proof -
  have "inv (cancel_all cancel subs ts w) \<and>
      active (cancel_all cancel subs ts w) = {x \<in> active w. \<forall>t \<in> set ts. subs t \<noteq> Some (fst x)}"
    using assms(1)
    by (induction ts arbitrary: w) (auto split: option.splits simp: cancel_inv cancel_active)
  moreover have "(\<forall>t \<in> set ts. subs t \<noteq> Some s) \<longleftrightarrow> s \<notin> ran subs" for s
    using assms(2) by (auto simp: ran_def)
  ultimately show ?thesis by simp
qed

lemma stop_loop_world:
  "inv w \<Longrightarrow> snd (stop_loop cancel tp subs ts errs w) = cancel_all cancel subs ts w"
proof (induction ts arbitrary: errs w)
  case (Cons t ts)
  show ?case
  proof (cases "subs t")
    case (Some s)
    obtain e w' where c: "cancel s w = (e, w')" by fastforce
    with Cons.prems cancel_inv [of w s] have "inv w'" by simp
    with Cons.IH Some c show ?thesis by (cases e) simp_all
  qed (use Cons in simp)
qed simp

text \<open>
  The state of the start loop: what is active is what was active before and one new
  subscription for each entry of the group's map.
\<close>

definition added :: "('h, 's) ConsumerGroup \<Rightarrow> ('s \<times> string \<times> 'h) set" where
  "added cg = {(s, t, h). cg_subscriptions cg t = Some s \<and> cg_handlers cg t = Some h}"

definition loop_inv :: "('s \<times> string \<times> 'h) set \<Rightarrow> ('h, 's) ConsumerGroup \<Rightarrow> 'w \<Rightarrow> bool" where
  "loop_inv A cg w \<longleftrightarrow> inv w \<and> active w = A \<union> added cg \<and>
     dom (cg_subscriptions cg) \<subseteq> dom (cg_handlers cg) \<and> ran (cg_subscriptions cg) \<inter> fst ` A = {}"

lemma ran_added: "loop_inv A cg w \<Longrightarrow> ran (cg_subscriptions cg) = fst ` added cg"
  by (force simp: loop_inv_def added_def ran_def dom_def image_iff)

lemma loop_inv_subscribe:
  assumes "loop_inv A cg w" and "cg_handlers cg t = Some h" and "cg_subscriptions cg t = None"
    and "subscribe ctx t h w = (Inr s, w')"
  shows "loop_inv A (cg\<lparr>cg_subscriptions := (cg_subscriptions cg)(t \<mapsto> s)\<rparr>) w'"
proof -
  from assms(1) have "inv w" by (simp add: loop_inv_def)
  with subscribe_ok [OF this assms(4)] subscribe_inv [OF this, of ctx t h] assms
  have s: "s \<notin> fst ` active w" "active w' = insert (s, t, h) (active w)" "inv w'" by simp_all
  from assms(2,3) have "added (cg\<lparr>cg_subscriptions := (cg_subscriptions cg)(t \<mapsto> s)\<rparr>) =
      insert (s, t, h) (added cg)"
    by (auto simp: added_def split: if_splits)
  with assms s show ?thesis by (auto simp: loop_inv_def ran_map_upd)
qed

lemma loop_inv_cleanup:
  assumes "loop_inv A cg w" and "subscribe ctx t h w = (Inl e, w')"
    and "dom (cg_subscriptions cg) \<subseteq> set (ord (cg_subscriptions cg))"
  shows "active (cancel_all cancel (cg_subscriptions cg) (ord (cg_subscriptions cg)) w') = A"
proof -
  from assms(1) have "inv w" by (simp add: loop_inv_def)
  with subscribe_fail [OF this assms(2)] subscribe_inv [OF this, of ctx t h] assms(2)
  have "active w' = active w" "inv w'" by simp_all
  with cancel_all_active [OF _ assms(3), of w'] assms(1) ran_added [OF assms(1)]
  show ?thesis by (auto simp: loop_inv_def)
qed

lemma start_loop_ok:
  assumes "start_loop subscribe cancel tp ord ctx ts cg w = (None, cg', w')"
    and "loop_inv A cg w" and "distinct ts" and "\<forall>t \<in> set ts. cg_subscriptions cg t = None"
  shows "loop_inv A cg' w' \<and> cg_running cg' \<and> cg_handlers cg' = cg_handlers cg \<and>
    dom (cg_subscriptions cg') = dom (cg_subscriptions cg) \<union> (set ts \<inter> dom (cg_handlers cg))"
  using assms
proof (induction ts arbitrary: cg w)
  case Nil
  then have "cg' = cg\<lparr>cg_running := True\<rparr>" "w' = w" by simp_all
  with Nil(2) show ?case by (simp add: loop_inv_def added_def)
next
  case (Cons t ts)
  show ?case
  proof (cases "cg_handlers cg t")
    case None
    with Cons show ?thesis by auto
  next
    case (Some h)
    with Cons.prems obtain s w1 where sub: "subscribe ctx t h w = (Inr s, w1)"
      by (auto split: prod.splits sum.splits)
    let ?cg = "cg\<lparr>cg_subscriptions := (cg_subscriptions cg)(t \<mapsto> s)\<rparr>"
    from Cons.prems Some sub have "loop_inv A ?cg w1" by (auto intro: loop_inv_subscribe)
    moreover from Cons.prems have "\<forall>t' \<in> set ts. cg_subscriptions ?cg t' = None" by auto
    moreover from Cons.prems Some sub have "start_loop subscribe cancel tp ord ctx ts ?cg w1 = (None, cg', w')"
      "distinct ts" by simp_all
    ultimately have "loop_inv A cg' w' \<and> cg_running cg' \<and> cg_handlers cg' = cg_handlers ?cg \<and>
        dom (cg_subscriptions cg') = dom (cg_subscriptions ?cg) \<union> (set ts \<inter> dom (cg_handlers ?cg))"
      using Cons.IH by blast
    moreover have "dom (cg_subscriptions ?cg) = insert t (dom (cg_subscriptions cg))" by simp
    moreover have "set (t # ts) \<inter> dom (cg_handlers cg) = insert t (set ts \<inter> dom (cg_handlers cg))"
      using Some by auto
    ultimately show ?thesis by simp
  qed
qed

lemma start_loop_fail:
  assumes "start_loop subscribe cancel tp ord ctx ts cg w = (Some e, cg', w')"
    and "loop_inv A cg w" and "distinct ts" and "\<forall>t \<in> set ts. cg_subscriptions cg t = None"
    and "\<forall>m. dom m \<subseteq> dom (cg_handlers cg) \<longrightarrow> iteration_of m (ord m)"
  shows "active w' = A \<and> cg_running cg' = cg_running cg \<and> cg_subscriptions cg' = Map.empty \<and>
    cg_handlers cg' = cg_handlers cg"
  using assms
proof (induction ts arbitrary: cg w)
  case (Cons t ts)
  show ?case
  proof (cases "cg_handlers cg t")
    case None
    with Cons show ?thesis by auto
  next
    case (Some h)
    obtain r w1 where sub: "subscribe ctx t h w = (r, w1)" by fastforce
    show ?thesis
    proof (cases r)
      case (Inl err)
      from Cons.prems(2,5) have "dom (cg_subscriptions cg) \<subseteq> set (ord (cg_subscriptions cg))"
        by (simp add: loop_inv_def iteration_of_def)
      with Cons.prems Some sub Inl show ?thesis by (auto dest: loop_inv_cleanup)
    next
      case (Inr s)
      let ?cg = "cg\<lparr>cg_subscriptions := (cg_subscriptions cg)(t \<mapsto> s)\<rparr>"
      from Cons.prems Some sub Inr have "loop_inv A ?cg w1" by (auto intro: loop_inv_subscribe)
      moreover from Cons.prems have "\<forall>t' \<in> set ts. cg_subscriptions ?cg t' = None" by auto
      ultimately show ?thesis using Cons.IH [of ?cg w1] Cons.prems Some sub Inr by simp
    qed
  qed
qed simp

lemma fresh_group_loop_inv:
  "inv w \<Longrightarrow> cg_subscriptions cg = Map.empty \<Longrightarrow> loop_inv (active w) cg w"
  by (auto simp: loop_inv_def added_def)

lemma start_success:
  assumes "inv w" and "cg_subscriptions cg = Map.empty" and "iteration_of (cg_handlers cg) hord"
    and "Start_locked subscribe cancel tp hord ord ctx cg w = (None, cg', w')"
  shows "inv w' \<and> cg_running cg' \<and> cg_handlers cg' = cg_handlers cg \<and>
    dom (cg_subscriptions cg') = dom (cg_handlers cg) \<and>
    active w' = active w \<union> added cg' \<and> ran (cg_subscriptions cg') \<inter> fst ` active w = {}"
  using start_loop_ok [OF assms(4) [unfolded Start_locked_def] fresh_group_loop_inv [OF assms(1,2)]]
    assms(2,3)
  by (auto simp: iteration_of_def loop_inv_def)

lemma start_failure:
  assumes "inv w" and "cg_subscriptions cg = Map.empty" and "iteration_of (cg_handlers cg) hord"
    and "\<forall>m. dom m \<subseteq> dom (cg_handlers cg) \<longrightarrow> iteration_of m (ord m)"
    and "Start_locked subscribe cancel tp hord ord ctx cg w = (Some e, cg', w')"
  shows "active w' = active w \<and> cg_running cg' = cg_running cg \<and>
    cg_subscriptions cg' = Map.empty \<and> cg_handlers cg' = cg_handlers cg"
  using start_loop_fail [OF assms(5) [unfolded Start_locked_def] fresh_group_loop_inv [OF assms(1,2)]]
    assms(2-4) by (simp add: iteration_of_def)

lemma stop_removes:
  assumes "inv w" and "cg_running cg" and "iteration_of (cg_subscriptions cg) ord"
    and "Stop cancel tp ord cg w = (e, cg', w')"
  shows "inv w' \<and> active w' = {x \<in> active w. fst x \<notin> ran (cg_subscriptions cg)} \<and>
    \<not> cg_running cg' \<and> cg_subscriptions cg' = Map.empty"
  using assms cancel_all_active [OF assms(1), of "cg_subscriptions cg" ord]
    stop_loop_world [OF assms(1), of tp "cg_subscriptions cg" ord "[]"]
  by (auto simp: Stop_def iteration_of_def split: prod.splits)

lemma start_stop_restores:
  assumes "inv w" and "cg_subscriptions cg = Map.empty" and "iteration_of (cg_handlers cg) hord"
    and "Start_locked subscribe cancel tp hord ord ctx cg w = (None, cg1, w1)"
    and "iteration_of (cg_subscriptions cg1) sord" and "Stop cancel tp sord cg1 w1 = (e, cg2, w2)"
  shows "active w2 = active w \<and> \<not> cg_running cg2 \<and> cg_subscriptions cg2 = Map.empty"
proof -
  note st = start_success [OF assms(1-4)]
  with stop_removes [OF _ _ assms(5,6)] have "inv w1" "cg_running cg1"
    and w2: "active w2 = {x \<in> active w1. fst x \<notin> ran (cg_subscriptions cg1)}"
      "\<not> cg_running cg2" "cg_subscriptions cg2 = Map.empty"
    by simp_all
  have new: "fst x \<in> ran (cg_subscriptions cg1)" if "x \<in> added cg1" for x
    using that by (auto simp: added_def ran_def)
  have old: "fst x \<notin> ran (cg_subscriptions cg1)" if "x \<in> active w" for x
    using that st by blast
  from st w2(1) have "active w2 = {x \<in> active w \<union> added cg1. fst x \<notin> ran (cg_subscriptions cg1)}"
    by simp
  also have "\<dots> = active w" using new old by blast
  finally show ?thesis using w2 by simp
qed

text \<open>Any successful locked start only adds subscriptions, and those of its topics are new.\<close>

lemma start_loop_adds:
  assumes "start_loop subscribe cancel tp ord ctx ts cg w = (None, cg', w')" and "inv w"
  shows "inv w' \<and> active w \<subseteq> active w' \<and> cg_running cg' \<and> cg_handlers cg' = cg_handlers cg \<and>
    (\<forall>t. t \<notin> set ts \<longrightarrow> cg_subscriptions cg' t = cg_subscriptions cg t) \<and>
    (\<forall>t \<in> set ts. cg_handlers cg t \<noteq> None \<longrightarrow>
       (\<exists>s. cg_subscriptions cg' t = Some s \<and> s \<notin> fst ` active w))"
  using assms
proof (induction ts arbitrary: cg w)
  case Nil
  then have "cg' = cg\<lparr>cg_running := True\<rparr>" "w' = w" by simp_all
  with Nil(2) show ?case by simp
next
  case (Cons t ts)
  show ?case
  proof (cases "cg_handlers cg t")
    case None
    with Cons show ?thesis by auto
  next
    case (Some h)
    with Cons.prems obtain s w1 where sub: "subscribe ctx t h w = (Inr s, w1)"
      by (auto split: prod.splits sum.splits)
    let ?cg = "cg\<lparr>cg_subscriptions := (cg_subscriptions cg)(t \<mapsto> s)\<rparr>"
    from sub subscribe_ok [OF Cons.prems(2) sub] subscribe_inv [OF Cons.prems(2), of ctx t h]
    have w1: "inv w1" "s \<notin> fst ` active w" "active w1 = insert (s, t, h) (active w)" by simp_all
    from Cons.prems Some sub have "start_loop subscribe cancel tp ord ctx ts ?cg w1 = (None, cg', w')"
      by simp
    note IH = Cons.IH [OF this w1(1)]
    have "\<exists>s'. cg_subscriptions cg' t = Some s' \<and> s' \<notin> fst ` active w"
    proof (cases "t \<in> set ts")
      case True
      with IH Some w1(3) show ?thesis by auto
    next
      case False
      with IH w1(2) show ?thesis by simp
    qed
    with IH w1(3) show ?thesis by auto
  qed
qed

lemma double_start_leaks:
  assumes "inv w" and "cg_subscriptions cg = Map.empty" and "iteration_of (cg_handlers cg) hord"
    and "Start_locked subscribe cancel tp hord ord ctx cg w = (None, cg1, w1)"
    and "Start_locked subscribe cancel tp hord ord ctx cg1 w1 = (None, cg2, w2)"
    and "iteration_of (cg_subscriptions cg2) sord" and "Stop cancel tp sord cg2 w2 = (e, cg3, w3)"
    and "cg_handlers cg t = Some h"
  shows "\<exists>s. cg_subscriptions cg1 t = Some s \<and> (s, t, h) \<in> active w3"
proof -
  note st = start_success [OF assms(1-4)]
  then obtain s where s: "cg_subscriptions cg1 t = Some s" "(s, t, h) \<in> active w1"
    using assms(8) by (force simp: added_def)
  from st have "inv w1" by simp
  note add = start_loop_adds [OF assms(5) [unfolded Start_locked_def] this]
  then have "inv w2" "cg_running cg2" and sub: "(s, t, h) \<in> active w2" using s by auto
  from stop_removes [OF this(1,2) assms(6,7)]
  have w3: "active w3 = {x \<in> active w2. fst x \<notin> ran (cg_subscriptions cg2)}" by simp
  have "s \<notin> ran (cg_subscriptions cg2)"
  proof
    assume "s \<in> ran (cg_subscriptions cg2)"
    then obtain t' where t': "cg_subscriptions cg2 t' = Some s" by (auto simp: ran_def)
    have "t' \<in> set hord"
      using t' add st assms(3) by (cases "t' \<in> set hord") (auto simp: iteration_of_def)
    moreover from this have "cg_handlers cg1 t' \<noteq> None"
      using st assms(3) by (auto simp: iteration_of_def)
    ultimately have "\<exists>s'. cg_subscriptions cg2 t' = Some s' \<and> s' \<notin> fst ` active w1" using add by blast
    with t' have "s \<notin> fst ` active w1" by auto
    moreover from s(2) have "s \<in> fst ` active w1" by (rule image_eqI [rotated]) simp
    ultimately show False by contradiction
  qed
  with sub w3 s(1) show ?thesis by simp
qed

end

section \<open>The group over a broker that selects topics\<close>

lemma start_loop_keeps_id:
  "start_loop subscribe cancel tp ord ctx ts cg w = (e, cg', w') \<Longrightarrow> cg_id cg' = cg_id cg"
  by (induction ts arbitrary: cg w) (auto split: option.splits prod.splits sum.splits)

text \<open>A failed loop went through some topics, and the next one is refused by the broker.\<close>

lemma start_loop_error:
  assumes "start_loop subscribe cancel tp ord ctx ts cg w = (Some e, cg', w')"
  shows "\<exists>as t bs cg1 v h err v'. ts = as @ t # bs \<and>
    start_loop subscribe cancel tp ord ctx as cg w = (None, cg1, v) \<and> cg_handlers cg t = Some h \<and>
    subscribe ctx t h v = (Inl err, v') \<and> e = Errorf_w tp (renderSubscribeFailure tp t) err"
    (is "\<exists>as t bs cg1 v h err v'. ?P ts cg w as t bs cg1 v h err v'")
  using assms
proof (induction ts arbitrary: cg w)
  case (Cons t ts)
  show ?case
  proof (cases "cg_handlers cg t")
    case None
    with Cons obtain as t' bs cg1 v h err v' where "?P ts cg w as t' bs cg1 v h err v'" by fastforce
    with None have "?P (t # ts) cg w (t # as) t' bs cg1 v h err v'" by simp
    then show ?thesis by blast
  next
    case (Some h)
    obtain r w1 where sub: "subscribe ctx t h w = (r, w1)" by fastforce
    show ?thesis
    proof (cases r)
      case (Inl err)
      with Cons.prems Some sub have "?P (t # ts) cg w [] t ts (cg\<lparr>cg_running := True\<rparr>) w h err w1" by simp
      then show ?thesis by blast
    next
      case (Inr s)
      let ?cg = "cg\<lparr>cg_subscriptions := (cg_subscriptions cg)(t \<mapsto> s)\<rparr>"
      from Cons Some sub Inr obtain as t' bs cg1 v h' err v' where "?P ts ?cg w1 as t' bs cg1 v h' err v'" by fastforce
      with Some sub Inr have "?P (t # ts) cg w (t # as) t' bs cg1 v h' err v'" by simp
      then show ?thesis by blast
    qed
  qed
qed simp

text \<open>
  \<open>selective\<close> extends the contract by what decides whether a group starts: while the broker
  is \<open>ready\<close> it takes a subscription exactly for the topics and handlers it
  \<open>accepts\<close>, subscribing leaves it ready, and cancelling reports no error. Then \<open>Start\<close> succeeds
  exactly when all registered handlers are accepted, and \<open>Stop\<close> undoes it.
\<close>

locale selective = subscribing subscribe cancel active inv
  for subscribe :: "go_context \<Rightarrow> string \<Rightarrow> 'h \<Rightarrow> 'w \<Rightarrow> (go_error + 's) \<times> 'w"
    and cancel :: "'s \<Rightarrow> 'w \<Rightarrow> go_error option \<times> 'w"
    and active :: "'w \<Rightarrow> ('s \<times> string \<times> 'h) set"
    and inv :: "'w \<Rightarrow> bool" +
  fixes ready :: "'w \<Rightarrow> bool"
    and accepts :: "string \<Rightarrow> 'h \<Rightarrow> bool"
  assumes subscribe_iff: "inv w \<Longrightarrow> ready w \<Longrightarrow> isl (fst (subscribe ctx t h w)) \<longleftrightarrow> \<not> accepts t h"
    and subscribe_ready: "inv w \<Longrightarrow> ready w \<Longrightarrow> ready (snd (subscribe ctx t h w))"
    and cancel_nil: "inv w \<Longrightarrow> fst (cancel s w) = None"
begin

lemma start_loop_iff:
  assumes "inv w" and "ready w"
  shows "fst (start_loop subscribe cancel tp ord ctx ts cg w) = None \<longleftrightarrow>
    (\<forall>t \<in> set ts. \<forall>h. cg_handlers cg t = Some h \<longrightarrow> accepts t h)"
  using assms
proof (induction ts arbitrary: cg w)
  case (Cons t ts)
  show ?case
  proof (cases "cg_handlers cg t")
    case (Some h)
    obtain r w1 where r: "subscribe ctx t h w = (r, w1)" by fastforce
    with Cons.prems subscribe_inv [of w ctx t h] subscribe_ready [of w ctx t h] subscribe_iff [of w ctx t h]
    have "inv w1" "ready w1" "isl r \<longleftrightarrow> \<not> accepts t h" by simp_all
    with Cons.IH r Some show ?thesis by (cases r) auto
  qed (use Cons in auto)
qed simp

lemma stop_loop_nil: "inv w \<Longrightarrow> fst (stop_loop cancel tp subs ts errs w) = errs"
proof (induction ts arbitrary: w)
  case (Cons t ts)
  show ?case
  proof (cases "subs t")
    case (Some s)
    with Cons cancel_inv [of w s] cancel_nil [of w s] show ?thesis by (cases "cancel s w") simp
  qed (use Cons in simp)
qed simp

lemma Stop_nil:
  assumes "inv w" and "cg_running cg"
  shows "\<exists>w'. Stop cancel tp ord cg w = (None, cg\<lparr>cg_running := False, cg_subscriptions := Map.empty\<rparr>, w')"
  using stop_loop_nil [OF assms(1), of tp "cg_subscriptions cg" ord "[]"] assms(2)
  by (cases "stop_loop cancel tp (cg_subscriptions cg) ord [] w") (simp add: Stop_def)

lemma started_group:
  assumes "inv w" and "\<not> cg_running cg" and "cg_subscriptions cg = Map.empty"
    and "iteration_of (cg_handlers cg) hord"
    and "Start subscribe cancel tp hord ord ctx cg w = (None, cg', w')"
  shows "cg_IsRunning cg'"
    and "cg_handlers cg t = Some h \<Longrightarrow> \<exists>s. cg_subscriptions cg' t = Some s \<and> (s, t, h) \<in> active w'"
    and "iteration_of (cg_subscriptions cg') sord \<Longrightarrow>
      \<exists>w''. Stop cancel tp sord cg' w' = (None, cg, w'') \<and> active w'' = active w"
proof -
  from assms(2,5) have st: "Start_locked subscribe cancel tp hord ord ctx cg w = (None, cg', w')"
    by (simp add: Start_def Start_check_def)
  note ok = start_success [OF assms(1,3,4) st]
  then show "cg_IsRunning cg'" by (simp add: cg_IsRunning_def)
  show "\<exists>s. cg_subscriptions cg' t = Some s \<and> (s, t, h) \<in> active w'" if "cg_handlers cg t = Some h"
  proof -
    from ok that obtain s where "cg_subscriptions cg' t = Some s" by blast
    with ok that show ?thesis by (simp add: added_def)
  qed
  show "\<exists>w''. Stop cancel tp sord cg' w' = (None, cg, w'') \<and> active w'' = active w"
    if sord: "iteration_of (cg_subscriptions cg') sord"
  proof -
    from start_loop_keeps_id st have "cg_id cg' = cg_id cg" by (simp add: Start_locked_def)
    with ok assms(2,3) have "cg'\<lparr>cg_running := False, cg_subscriptions := Map.empty\<rparr> = cg" by simp
    with Stop_nil ok obtain w2 where w2: "Stop cancel tp sord cg' w' = (None, cg, w2)" by metis
    with start_stop_restores [OF assms(1,3,4) st sord w2] show ?thesis by blast
  qed
qed

end


section \<open>Properties\<close>

subsection \<open>The group over the in-memory broker\<close>

lemma inMemorySub_Unsubscribe_nil [simp]: "fst (inMemorySub_Unsubscribe a w) = None"
  by (auto simp: inMemorySub_Unsubscribe_def Let_def split: option.splits)

interpretation im_group: selective "im_subscribe rt" inMemorySub_Unsubscribe active_subs "im_ok rt" IsConnected
  "\<lambda>t h. True" for rt
  by unfold_locales (auto simp: im_subscribe_def Subscribe_connected IsConnected_def)

lemma im_frame_Subscribe:
  "connected (im (snd (im_subscribe rt ctx t h w))) = connected (im w)"
  "stopCh (im (snd (im_subscribe rt ctx t h w))) = stopCh (im w)"
  "goroutines (snd (im_subscribe rt ctx t h w)) = goroutines w"
  by (auto simp: im_subscribe_def Subscribe_def Let_def)

lemma im_frame_cancel:
  "connected (im (snd (inMemorySub_Unsubscribe a w))) = connected (im w)"
  "stopCh (im (snd (inMemorySub_Unsubscribe a w))) = stopCh (im w)"
  "goroutines (snd (inMemorySub_Unsubscribe a w)) = goroutines w"
  by (auto simp: inMemorySub_Unsubscribe_def Let_def split: option.splits)

lemma cancel_all_frame:
  "connected (im (cancel_all inMemorySub_Unsubscribe subs ts w)) = connected (im w) \<and>
   stopCh (im (cancel_all inMemorySub_Unsubscribe subs ts w)) = stopCh (im w) \<and>
   goroutines (cancel_all inMemorySub_Unsubscribe subs ts w) = goroutines w"
  by (induction ts arbitrary: w) (auto simp: im_frame_cancel split: option.splits)

lemma start_loop_frame:
  assumes "start_loop (im_subscribe rt) inMemorySub_Unsubscribe tp ord ctx ts cg w = (e, cg', w')"
  shows "connected (im w') = connected (im w) \<and> stopCh (im w') = stopCh (im w) \<and> goroutines w' = goroutines w"
  using assms
proof (induction ts arbitrary: cg w)
  case (Cons t ts)
  show ?case
  proof (cases "cg_handlers cg t")
    case (Some h)
    obtain r w1 where s: "im_subscribe rt ctx t h w = (r, w1)" by fastforce
    with im_frame_Subscribe [of rt ctx t h w] have f: "connected (im w1) = connected (im w)"
      "stopCh (im w1) = stopCh (im w)" "goroutines w1 = goroutines w" by simp_all
    show ?thesis
    proof (cases r)
      case (Inl err)
      with Cons.prems Some s f show ?thesis by (auto simp: cancel_all_frame)
    next
      case (Inr a)
      with Cons.prems Some s have "start_loop (im_subscribe rt) inMemorySub_Unsubscribe tp ord ctx ts
          (cg\<lparr>cg_subscriptions := (cg_subscriptions cg)(t \<mapsto> a)\<rparr>) w1 = (e, cg', w')" by simp
      with Cons.IH f show ?thesis by metis
    qed
  qed (use Cons in simp)
qed simp

lemma im_start_loop_succeeds:
  assumes "connected (im w)"
  shows "fst (start_loop (im_subscribe rt) inMemorySub_Unsubscribe tp ord ctx ts cg w) = None"
  using assms
  by (induction ts arbitrary: cg w) (auto simp: im_subscribe_def Subscribe_connected split: option.splits)

lemma im_stop_loop_nil:
  "fst (stop_loop inMemorySub_Unsubscribe tp subs ts errs w) = errs"
proof (induction ts arbitrary: w)
  case (Cons t ts)
  then show ?case
    by (simp split: option.splits prod.splits) (metis fst_conv inMemorySub_Unsubscribe_nil option.distinct(1))
qed simp

lemma Stop_running:
  assumes "cg_running cg"
  shows "Stop inMemorySub_Unsubscribe tp ord cg w =
    (None, cg\<lparr>cg_running := False, cg_subscriptions := Map.empty\<rparr>,
     snd (stop_loop inMemorySub_Unsubscribe tp (cg_subscriptions cg) ord [] w))"
proof (cases "stop_loop inMemorySub_Unsubscribe tp (cg_subscriptions cg) ord [] w")
  case (Pair errs w')
  with im_stop_loop_nil [of tp "cg_subscriptions cg" ord "[]" w] assms show ?thesis
    by (simp add: Stop_def)
qed

text \<open>
  C16: on a connected in-memory broker, \<open>Start\<close> of a stopped group succeeds whatever the
  order in which the handlers are visited: the group is running and every registered topic has
  an active subscription with its handler. A \<open>Stop\<close> after it reports no error, brings the
  group back to what it was and leaves exactly the subscriptions that were active before.
\<close>

theorem group_start_stop:
  assumes "im_ok rt w" and "IsConnected w" and "\<not> cg_running cg"
    and "cg_subscriptions cg = Map.empty" and "iteration_of (cg_handlers cg) hord"
  shows "\<exists>cg1 w1. Start (im_subscribe rt) inMemorySub_Unsubscribe tp hord ord ctx cg w = (None, cg1, w1) \<and>
    cg_IsRunning cg1 \<and>
    (\<forall>t h. cg_handlers cg t = Some h \<longrightarrow>
       (\<exists>a. cg_subscriptions cg1 t = Some a \<and> (a, t, h) \<in> active_subs w1)) \<and>
    (\<forall>sord. iteration_of (cg_subscriptions cg1) sord \<longrightarrow>
       (\<exists>w2. Stop inMemorySub_Unsubscribe tp sord cg1 w1 = (None, cg, w2) \<and>
             active_subs w2 = active_subs w))"
proof -
  have "fst (Start (im_subscribe rt) inMemorySub_Unsubscribe tp hord ord ctx cg w) = None"
    using im_group.start_loop_iff [OF assms(1,2)] assms(3) by (simp add: Start_def Start_check_def Start_locked_def)
  then obtain cg1 w1 where st: "Start (im_subscribe rt) inMemorySub_Unsubscribe tp hord ord ctx cg w = (None, cg1, w1)"
    by (metis fst_conv prod.exhaust)
  from im_group.started_group [OF assms(1,3,4,5) st] show ?thesis by (simp add: st)
qed

definition demo_group :: "(bool, nat) ConsumerGroup" where
  "demo_group = cg_Add ''b'' False (cg_Add ''a'' True (NewConsumerGroup ''u'' ''g''))"

lemma demo_group_simps [simp]:
  "\<not> cg_running demo_group" "cg_subscriptions demo_group = Map.empty"
  "cg_handlers demo_group = [''a'' \<mapsto> True, ''b'' \<mapsto> False]"
  "iteration_of (cg_handlers demo_group) [''a'', ''b'']"
  by (auto simp: demo_group_def cg_Add_def NewConsumerGroup_def iteration_of_def)

lemma example_ready: "im_ok rt_example example_world" "IsConnected example_world"
  by (simp_all add: im_ok_def im_inv_example IsConnected_def)

theorem group_start_stop_witness:
  "\<exists>cg1 w1. Start (im_subscribe rt_example) inMemorySub_Unsubscribe NoopTranslator [''a'', ''b'']
      (\<lambda>m. []) \<lparr>ctx_deadline = None, ctx_err = None\<rparr>
      demo_group example_world = (None, cg1, w1) \<and>
    cg_IsRunning cg1 \<and> (\<exists>a. (a, ''b'', False) \<in> active_subs w1)"
  using group_start_stop [OF example_ready demo_group_simps(1,2,4), of NoopTranslator "\<lambda>m. []"
      "\<lparr>ctx_deadline = None, ctx_err = None\<rparr>"]
  by (elim exE conjE) (use demo_group_simps(3) in force)

subsection \<open>A failed start\<close>

text \<open>
  C17: over any broker that keeps the contract of \<open>subscribing\<close>, a \<open>Start\<close> that
  fails cancels the subscriptions it has made: the active subscriptions and the group are as
  before. The error tells what happened: there is a first topic, in the order the handlers were
  visited, whose handler the broker refused, in the state the topics before it had led to, and the
  error wraps exactly the broker's error with the message for that topic.
\<close>

theorem failed_group_start_is_clean:
  assumes "subscribing subscribe cancel active ok" and "ok w" and "\<not> cg_running cg"
    and "cg_subscriptions cg = Map.empty" and "iteration_of (cg_handlers cg) hord"
    and "\<forall>m. dom m \<subseteq> dom (cg_handlers cg) \<longrightarrow> iteration_of m (ord m)"
    and "Start subscribe cancel tp hord ord ctx cg w = (Some e, cg', w')"
  shows "active w' = active w \<and> cg' = cg \<and>
    (\<exists>before t after cg1 v h err v'. hord = before @ t # after \<and>
       Start subscribe cancel tp before ord ctx cg w = (None, cg1, v) \<and> cg_handlers cg t = Some h \<and>
       subscribe ctx t h v = (Inl err, v') \<and>
       e = Errorf_w tp (renderSubscribeFailure tp t) err \<and> errors_Unwrap e = Some err)"
proof -
  have loop: "Start subscribe cancel tp ts ord ctx cg w = start_loop subscribe cancel tp ord ctx ts cg w" for ts
    using assms(3) by (simp add: Start_def Start_check_def Start_locked_def)
  note st = assms(7) [unfolded loop]
  from start_loop_keeps_id [OF st] have "cg_id cg' = cg_id cg" .
  with subscribing.start_failure [OF assms(1,2,4,5,6), unfolded Start_locked_def, OF st] assms(4)
  have "active w' = active w" "cg' = cg" by auto
  moreover from start_loop_error [OF st]
  have "\<exists>before t after cg1 v h err v'. hord = before @ t # after \<and>
       Start subscribe cancel tp before ord ctx cg w = (None, cg1, v) \<and> cg_handlers cg t = Some h \<and>
       subscribe ctx t h v = (Inl err, v') \<and>
       e = Errorf_w tp (renderSubscribeFailure tp t) err \<and> errors_Unwrap e = Some err"
    unfolding loop by (elim exE conjE, intro exI conjI) (simp_all add: Errorf_w_def)
  ultimately show ?thesis by (intro conjI)
qed

subsection \<open>Concurrent starts\<close>

lemma im_start_loop_connected:
  "connected (im w) \<Longrightarrow>
   connected (im (snd (snd (start_loop (im_subscribe rt) inMemorySub_Unsubscribe tp ord ctx ts cg w))))"
  by (induction ts arbitrary: cg w) (auto simp: im_subscribe_def Subscribe_connected split: option.splits)

text \<open>
  C39: the flag \<open>running\<close> is read before the lock is taken. Two calls of \<open>Start\<close>
  that both pass the check and then run their locked parts one after the other both succeed, and
  a later \<open>Stop\<close> reports no error although every registered topic keeps an active
  subscription that the group no longer knows.
\<close>

theorem concurrent_starts_leak:
  assumes "im_ok rt w" and "IsConnected w" and "\<not> cg_running cg"
    and "cg_subscriptions cg = Map.empty" and "iteration_of (cg_handlers cg) hord"
  shows "Start_check tp cg = None \<and>
    (\<exists>cg1 w1 cg2 w2.
       Start_locked (im_subscribe rt) inMemorySub_Unsubscribe tp hord ord ctx cg w = (None, cg1, w1) \<and>
       Start_locked (im_subscribe rt) inMemorySub_Unsubscribe tp hord ord ctx cg1 w1 = (None, cg2, w2) \<and>
       (\<forall>sord e cg3 w3. iteration_of (cg_subscriptions cg2) sord \<longrightarrow>
          Stop inMemorySub_Unsubscribe tp sord cg2 w2 = (e, cg3, w3) \<longrightarrow>
          e = None \<and> cg_subscriptions cg3 = Map.empty \<and>
          (\<forall>t h. cg_handlers cg t = Some h \<longrightarrow> (\<exists>a. (a, t, h) \<in> active_subs w3))))"
proof -
  let ?start = "Start_locked (im_subscribe rt) inMemorySub_Unsubscribe tp hord ord ctx"
  have ok: "fst (?start c v) = None" "connected (im (snd (snd (?start c v))))"
    if "connected (im v)" for c v
    using that im_start_loop_succeeds im_start_loop_connected by (simp_all add: Start_locked_def)
  obtain cg1 w1 where st1: "?start cg w = (None, cg1, w1)" and "connected (im w1)"
    using ok [of w cg] assms(2) by (cases "?start cg w") (auto simp: IsConnected_def)
  then obtain cg2 w2 where st2: "?start cg1 w1 = (None, cg2, w2)"
    using ok(1) [of w1 cg1] by (cases "?start cg1 w1") auto
  have run: "cg_running cg2"
    using imsub.start_loop_adds [OF st2 [unfolded Start_locked_def]]
      imsub.start_success [OF assms(1,4,5) st1] by blast
  have "e = None \<and> cg_subscriptions cg3 = Map.empty \<and>
      (\<forall>t h. cg_handlers cg t = Some h \<longrightarrow> (\<exists>a. (a, t, h) \<in> active_subs w3))"
    if "iteration_of (cg_subscriptions cg2) sord"
      "Stop inMemorySub_Unsubscribe tp sord cg2 w2 = (e, cg3, w3)" for sord e cg3 w3
    using imsub.double_start_leaks [OF assms(1,4,5) st1 st2 that] that(2) Stop_running [OF run, of tp sord w2]
    by auto
  with st1 st2 assms(3) show ?thesis by (auto simp: Start_check_def)
qed

theorem concurrent_starts_leak_witness:
  "\<exists>cg1 w1 cg2 w2.
     Start_locked (im_subscribe rt_example) inMemorySub_Unsubscribe NoopTranslator [''a'', ''b''] (\<lambda>m. [])
       \<lparr>ctx_deadline = None, ctx_err = None\<rparr> demo_group example_world =
       (None, cg1, w1) \<and>
     Start_locked (im_subscribe rt_example) inMemorySub_Unsubscribe NoopTranslator [''a'', ''b''] (\<lambda>m. [])
       \<lparr>ctx_deadline = None, ctx_err = None\<rparr> cg1 w1 = (None, cg2, w2)"
  using concurrent_starts_leak [OF example_ready demo_group_simps(1,2,4), of NoopTranslator "\<lambda>m. []"
      "\<lparr>ctx_deadline = None, ctx_err = None\<rparr>"]
  by blast

end
