(* ===== verification/Registry.thy ===== *)
theory Registry
  imports ConsumerGroup "HOL-Library.List_Lexorder" "HOL-Library.Char_ord"
begin

text \<open>
  What the consumers of the two adapters (\<open>pkg/kafka/kafka.go\<close>, \<open>pkg/rabbitmq/rabbitmq.go\<close>) promise
  in common: a registry of subscriptions. The specification has three states of the connection
  instead of two flags, no counter, no identifiers, no cancel functions or channels, and no order
  of the map: it knows the topic of every handle it gave out, the handlers that are live and the
  handle that stands for a topic. The adapters differ in the errors they refuse a call with.
\<close>

datatype status = Unconnected | Open | Shut

record 'h registry =
  rg_status :: status
  rg_topics :: "string list"
  rg_live :: "nat \<rightharpoonup> 'h"
  rg_current :: "string \<rightharpoonup> nat"

record refusals =
  invalid_config :: "go_error option"
  no_topic :: go_error
  no_handler :: go_error

datatype 'h consumer_call =
    CoConnect | CoClose | CoIsConnected | CoSubscribe go_context string "'h option" | CoUnsubscribe string
  | CoCancel nat | CoIsActive nat | CoTopic nat

datatype consumer_response =
    RErr "go_error option" | RSub "go_error + nat" | RBool bool | RName "string option" | RPanic go_panic

definition new_registry :: "'h registry" where
  "new_registry = \<lparr>rg_status = Unconnected, rg_topics = [], rg_live = Map.empty, rg_current = Map.empty\<rparr>"

fun registry_call :: "refusals \<Rightarrow> 'h consumer_call \<Rightarrow> 'h registry \<Rightarrow> consumer_response \<times> 'h registry" where
  "registry_call x CoConnect r =
     (if rg_status r = Open then (RErr None, r)
      else (RErr (invalid_config x),
            if rg_status r = Unconnected \<and> invalid_config x = None then r\<lparr>rg_status := Open\<rparr> else r))"
| "registry_call x CoClose r =
     (RErr None,
      if rg_status r = Shut then r
      else r\<lparr>rg_status := Shut, rg_live := rg_live r |` (- ran (rg_current r))\<rparr>)"
| "registry_call x CoIsConnected r = (RBool (rg_status r = Open), r)"
| "registry_call x (CoSubscribe ctx t h) r =
     (if rg_status r \<noteq> Open then (RSub (Inl (Sentinel ErrNotConnected)), r)
      else if t = '''' then (RSub (Inl (no_topic x)), r)
      else case h of
             None \<Rightarrow> (RSub (Inl (no_handler x)), r)
           | Some f \<Rightarrow>
               let a = length (rg_topics r)
               in (RSub (Inr a), r\<lparr>rg_topics := rg_topics r @ [t], rg_live := (rg_live r)(a \<mapsto> f),
                                   rg_current := (rg_current r)(t \<mapsto> a)\<rparr>))"
| "registry_call x (CoUnsubscribe t) r =
     (RErr None,
      case rg_current r t of
        None \<Rightarrow> r
      | Some a \<Rightarrow> r\<lparr>rg_live := (rg_live r)(a := None), rg_current := (rg_current r)(t := None)\<rparr>)"
| "registry_call x (CoCancel a) r = (RErr None, r\<lparr>rg_live := (rg_live r)(a := None)\<rparr>)"
| "registry_call x (CoIsActive a) r = (RBool (rg_live r a \<noteq> None), r)"
| "registry_call x (CoTopic a) r =
     (RName (if a < length (rg_topics r) then Some (rg_topics r ! a) else None), r)"

text \<open>
  The rules a client can count on: closing is final, a handle that is not live never comes back to
  life, and a topic's handle is always one that was given out for it.
\<close>

lemma registry_shut: "rg_status r = Shut \<Longrightarrow> rg_status (snd (registry_call x c r)) = Shut"
  by (cases c) (auto split: option.split)

lemma registry_dead:
  assumes "a < length (rg_topics r)" and "rg_live r a = None"
  shows "a < length (rg_topics (snd (registry_call x c r))) \<and> rg_live (snd (registry_call x c r)) a = None"
  using assms by (cases c) (auto simp: Let_def restrict_map_def split: option.split)

definition registry_ok :: "'h registry \<Rightarrow> bool" where
  "registry_ok r \<longleftrightarrow> dom (rg_live r) \<subseteq> {..<length (rg_topics r)} \<and>
     (\<forall>t a. rg_current r t = Some a \<longrightarrow> a < length (rg_topics r) \<and> rg_topics r ! a = t)"

interpretation registry_inv: step_invariant "\<lambda>r. r = new_registry" "\<lambda>r r'. \<exists>c. r' = snd (registry_call x c r)"
  registry_ok for x
proof (unfold_locales, goal_cases)
  case (2 r r')
  then obtain c where c: "r' = snd (registry_call x c r)" and ok: "registry_ok r" by blast
  then show ?case
    by (cases c) (auto simp: registry_ok_def Let_def nth_append restrict_map_def dom_def less_Suc_eq
        split: option.splits if_splits)
qed (simp add: registry_ok_def new_registry_def)

text \<open>The effect of a loop that cancels the entries of a map, in any order that visits them all.\<close>

lemma restrict_off: "dom m \<subseteq> set ts \<Longrightarrow> (\<lambda>b. if \<exists>t \<in> set ts. m t = Some b then None else l b) = l |` (- ran m)"
  by (auto simp: fun_eq_iff restrict_map_def ran_def)


text \<open>One order in which a map may be visited, for the examples.\<close>

definition visit :: "(string \<rightharpoonup> 'v) \<Rightarrow> string list" where
  "visit m = sorted_list_of_set (dom m)"

lemma visit_iteration: "finite (dom m) \<Longrightarrow> iteration_of m (visit m)"
  by (simp add: visit_def iteration_of_def)

definition example_ctx :: go_context where
  "example_ctx = \<lparr>ctx_deadline = None, ctx_err = None\<rparr>"

end
