(* ===== verification/Kafka.thy ===== *)
theory Kafka
  imports Registry
begin

text \<open>
  The Kafka adapter, \<open>pkg/kafka/kafka.go\<close>: the configuration, the producer and the consumer.

  The function that really publishes is injected by the user of the library; it is a field of the
  producer that acts on a world \<open>'w\<close>. Subscription objects live on a heap, and the consumer's
  map holds their addresses, because a subscription that was handed out stays in use when its
  entry is replaced or deleted. Cancelling the subscription's context is the flag
  \<open>ks_cancelled\<close>.
\<close>

section \<open>Configuration\<close>

datatype PartitionStrategy = RoundRobin | Hash | Manual | OtherStrategy int

fun PartitionStrategy_String :: "PartitionStrategy \<Rightarrow> string" where
  "PartitionStrategy_String RoundRobin = ''round_robin''"
| "PartitionStrategy_String Hash = ''hash''"
| "PartitionStrategy_String Manual = ''manual''"
| "PartitionStrategy_String (OtherStrategy i) = ''unknown''"

record kafka_Config =
  k_Brokers :: "string list"
  k_ClientID :: string
  k_GroupID :: string
  k_Topics :: "string list"
  k_SASLEnabled :: bool
  k_SASLMechanism :: string
  k_SASLUsername :: string
  k_SASLPassword :: string
  k_TLSEnabled :: bool
  k_TLSConfig :: "nat option"
  k_TLSSkipVerify :: bool
  k_RequiredAcks :: int64
  k_MaxRetries :: int64
  k_RetryBackoff :: int64
  k_BatchSize :: int64
  k_BatchTimeout :: int64
  k_MaxMessageBytes :: int64
  k_CompressionCodec :: string
  k_Idempotent :: bool
  k_Partitioning :: PartitionStrategy
  k_AutoOffsetReset :: string
  k_EnableAutoCommit :: bool
  k_AutoCommitInterval :: int64
  k_SessionTimeout :: int64
  k_HeartbeatInterval :: int64
  k_MaxPollRecords :: int64
  k_FetchMinBytes :: int64
  k_FetchMaxBytes :: int64
  k_FetchMaxWait :: int64
  k_DialTimeout :: int64
  k_ReadTimeout :: int64
  k_WriteTimeout :: int64
  k_MetadataRefresh :: int64

definition millisecond :: int64 where "millisecond = 1000000"
definition second :: int64 where "second = 1000000000"
definition minute :: int64 where "minute = 60000000000"

definition kafka_DefaultConfig :: kafka_Config where
  "kafka_DefaultConfig =
     \<lparr>k_Brokers = [''localhost:9092''], k_ClientID = ''messaging-client'', k_GroupID = ''messaging-group'',
      k_Topics = [], k_SASLEnabled = False, k_SASLMechanism = ''PLAIN'', k_SASLUsername = '''',
      k_SASLPassword = '''', k_TLSEnabled = False, k_TLSConfig = None, k_TLSSkipVerify = False,
      k_RequiredAcks = - 1, k_MaxRetries = 3, k_RetryBackoff = 100 * millisecond, k_BatchSize = 16384,
      k_BatchTimeout = 10 * millisecond, k_MaxMessageBytes = 1048576, k_CompressionCodec = ''lz4'',
      k_Idempotent = True, k_Partitioning = RoundRobin, k_AutoOffsetReset = ''earliest'',
      k_EnableAutoCommit = False, k_AutoCommitInterval = 5 * second, k_SessionTimeout = 30 * second,
      k_HeartbeatInterval = 3 * second, k_MaxPollRecords = 500, k_FetchMinBytes = 1,
      k_FetchMaxBytes = 52428800, k_FetchMaxWait = 500 * millisecond, k_DialTimeout = 30 * second,
      k_ReadTimeout = 30 * second, k_WriteTimeout = 30 * second, k_MetadataRefresh = 5 * minute\<rparr>"

definition kafka_Validate :: "kafka_Config \<Rightarrow> go_error option" where
  "kafka_Validate c =
     (if length (k_Brokers c) = 0 then Some (ErrorString ''at least one broker is required'')
      else if has_empty (k_Brokers c) then Some (ErrorString ''broker address cannot be empty'')
      else if k_ClientID c = '''' then Some (ErrorString ''client_id is required'')
      else if sint (k_BatchSize c) < 1 then Some (ErrorString ''batch_size must be at least 1'')
      else if k_SASLEnabled c \<and> k_SASLUsername c = ''''
        then Some (ErrorString ''sasl_username is required when SASL is enabled'')
      else None)"

section \<open>Producer\<close>

record 'w kafka_Producer =
  kp_config :: kafka_Config
  kp_connected :: bool
  kp_closed :: bool
  kp_publishFn :: "'w publish_fn option"

definition kafka_NewProducer :: "kafka_Config option \<Rightarrow> 'w kafka_Producer" where
  "kafka_NewProducer cfg =
     \<lparr>kp_config = (case cfg of None \<Rightarrow> kafka_DefaultConfig | Some c \<Rightarrow> c), kp_connected = False,
      kp_closed = False, kp_publishFn = None\<rparr>"

definition kafka_SetPublishFunc :: "'w publish_fn option \<Rightarrow> 'w kafka_Producer \<Rightarrow> 'w kafka_Producer" where
  "kafka_SetPublishFunc fn p = p\<lparr>kp_publishFn := fn\<rparr>"

definition kafka_Producer_Connect :: "'w kafka_Producer \<Rightarrow> go_error option \<times> 'w kafka_Producer" where
  "kafka_Producer_Connect p =
     (if kp_connected p then (None, p)
      else case kafka_Validate (kp_config p) of
             Some err \<Rightarrow>
               (Some (NewBrokerError ErrCodeInvalidConfig ''invalid kafka producer config'' (Some err)), p)
           | None \<Rightarrow> (None, p\<lparr>kp_connected := True\<rparr>))"

definition kafka_Producer_Close :: "'w kafka_Producer \<Rightarrow> go_error option \<times> 'w kafka_Producer" where
  "kafka_Producer_Close p =
     (if kp_closed p then (None, p) else (None, p\<lparr>kp_closed := True, kp_connected := False\<rparr>))"

definition kafka_Producer_IsConnected :: "'w kafka_Producer \<Rightarrow> bool" where
  "kafka_Producer_IsConnected p \<longleftrightarrow> kp_connected p \<and> \<not> kp_closed p"

definition kafka_Publish ::
  "go_context \<Rightarrow> string \<Rightarrow> message option \<Rightarrow> 'w kafka_Producer \<Rightarrow> 'w \<Rightarrow> go_error option \<times> 'w" where
  "kafka_Publish ctx topic msg p w =
     (if \<not> kafka_Producer_IsConnected p then (Some (Sentinel ErrNotConnected), w)
      else case msg of
             None \<Rightarrow> (Some (Sentinel ErrMessageInvalid), w)
           | Some m \<Rightarrow> (case kp_publishFn p of Some fn \<Rightarrow> fn ctx topic m w | None \<Rightarrow> (None, w)))"

definition kafka_Producer_Config :: "'w kafka_Producer \<Rightarrow> kafka_Config" where
  "kafka_Producer_Config p = kp_config p"

section \<open>Consumer\<close>

record 'h kafkaSubscription =
  ks_id :: string
  ks_topic :: string
  ks_groupID :: string
  ks_handler :: 'h
  ks_cancelled :: bool
  ks_active :: bool

record kafka_Consumer =
  kc_config :: kafka_Config
  kc_connected :: bool
  kc_closed :: bool
  kc_subscriptions :: "string \<rightharpoonup> nat"
  kc_subCounter :: int64

record 'h kafka_world =
  kcon :: kafka_Consumer
  kheap :: "'h kafkaSubscription list"
  kticks :: nat

definition ks_at :: "'h kafka_world \<Rightarrow> nat \<Rightarrow> 'h kafkaSubscription option" where
  "ks_at w a = (if a < length (kheap w) then Some (kheap w ! a) else None)"

definition kafkaSubscription_Unsubscribe :: "nat \<Rightarrow> 'h kafka_world \<Rightarrow> go_error option \<times> 'h kafka_world" where
  "kafkaSubscription_Unsubscribe a w =
     (case ks_at w a of
        None \<Rightarrow> (None, w)
      | Some s \<Rightarrow>
          if \<not> ks_active s then (None, w)
          else (None, w\<lparr>kheap := (kheap w)[a := s\<lparr>ks_active := False, ks_cancelled := True\<rparr>]\<rparr>))"

definition kafkaSubscription_IsActive :: "'h kafka_world \<Rightarrow> nat \<Rightarrow> bool" where
  "kafkaSubscription_IsActive w a = (case ks_at w a of None \<Rightarrow> False | Some s \<Rightarrow> ks_active s)"

definition kafkaSubscription_Topic :: "'h kafka_world \<Rightarrow> nat \<Rightarrow> string option" where
  "kafkaSubscription_Topic w a = map_option ks_topic (ks_at w a)"

definition kafkaSubscription_ID :: "'h kafka_world \<Rightarrow> nat \<Rightarrow> string option" where
  "kafkaSubscription_ID w a = map_option ks_id (ks_at w a)"

definition kafka_NewConsumer :: "kafka_Config option \<Rightarrow> kafka_Consumer" where
  "kafka_NewConsumer cfg =
     \<lparr>kc_config = (case cfg of None \<Rightarrow> kafka_DefaultConfig | Some c \<Rightarrow> c), kc_connected = False,
      kc_closed = False, kc_subscriptions = Map.empty, kc_subCounter = 0\<rparr>"

definition kafka_new_world :: "kafka_Config option \<Rightarrow> 'h kafka_world" where
  "kafka_new_world cfg = \<lparr>kcon = kafka_NewConsumer cfg, kheap = [], kticks = 0\<rparr>"

definition kafka_Consumer_Connect :: "'h kafka_world \<Rightarrow> go_error option \<times> 'h kafka_world" where
  "kafka_Consumer_Connect w =
     (if kc_connected (kcon w) then (None, w)
      else case kafka_Validate (kc_config (kcon w)) of
             Some err \<Rightarrow>
               (Some (NewBrokerError ErrCodeInvalidConfig ''invalid kafka consumer config'' (Some err)), w)
           | None \<Rightarrow> (None, w\<lparr>kcon := (kcon w)\<lparr>kc_connected := True\<rparr>\<rparr>))"

definition kafka_Consumer_Close :: "string list \<Rightarrow> 'h kafka_world \<Rightarrow> go_error option \<times> 'h kafka_world" where
  "kafka_Consumer_Close ord w =
     (if kc_closed (kcon w) then (None, w)
      else
        let w1 = w\<lparr>kcon := (kcon w)\<lparr>kc_closed := True\<rparr>\<rparr>;
            w2 = cancel_all kafkaSubscription_Unsubscribe (kc_subscriptions (kcon w1)) ord w1
        in (None, w2\<lparr>kcon := (kcon w2)\<lparr>kc_connected := False\<rparr>\<rparr>))"

definition kafka_Consumer_IsConnected :: "'h kafka_world \<Rightarrow> bool" where
  "kafka_Consumer_IsConnected w \<longleftrightarrow> kc_connected (kcon w) \<and> \<not> kc_closed (kcon w)"

definition kafka_Subscribe ::
  "runtime \<Rightarrow> go_context \<Rightarrow> string \<Rightarrow> 'h option \<Rightarrow> 'h kafka_world \<Rightarrow> (go_error + nat) \<times> 'h kafka_world" where
  "kafka_Subscribe rt ctx topic handler w =
     (if \<not> kafka_Consumer_IsConnected w then (Inl (Sentinel ErrNotConnected), w)
      else if topic = ''''
        then (Inl (NewBrokerError ErrCodeSubscribeFailed ''topic is required'' None), w)
      else case handler of
             None \<Rightarrow> (Inl (NewBrokerError ErrCodeSubscribeFailed ''handler is required'' None), w)
           | Some h \<Rightarrow>
               let n = kc_subCounter (kcon w) + 1;
                   subID = ''kafka-sub-'' @ fmt_d (sint n) @ ''-'' @ take 8 (uuid_New rt (kticks w));
                   sub = \<lparr>ks_id = subID, ks_topic = topic, ks_groupID = k_GroupID (kc_config (kcon w)),
                          ks_handler = h, ks_cancelled = False, ks_active = True\<rparr>;
                   a = length (kheap w)
               in (Inr a,
                   w\<lparr>kcon := (kcon w)\<lparr>kc_subCounter := n,
                                      kc_subscriptions := (kc_subscriptions (kcon w))(topic \<mapsto> a)\<rparr>,
                     kheap := kheap w @ [sub], kticks := Suc (kticks w)\<rparr>))"

definition kafka_Unsubscribe :: "string \<Rightarrow> 'h kafka_world \<Rightarrow> go_error option \<times> 'h kafka_world" where
  "kafka_Unsubscribe topic w =
     (case kc_subscriptions (kcon w) topic of
        None \<Rightarrow> (None, w)
      | Some a \<Rightarrow>
          let (err, w1) = kafkaSubscription_Unsubscribe a w
          in (err, w1\<lparr>kcon := (kcon w1)\<lparr>kc_subscriptions := (kc_subscriptions (kcon w1))(topic := None)\<rparr>\<rparr>))"

definition kafka_Consumer_Config :: "'h kafka_world \<Rightarrow> kafka_Config" where
  "kafka_Consumer_Config w = kc_config (kcon w)"

section \<open>Calls on a consumer and its subscriptions\<close>

inductive kafka_step :: "runtime \<Rightarrow> 'h kafka_world \<Rightarrow> 'h kafka_world \<Rightarrow> bool" for rt where
  connect: "kafka_step rt w (snd (kafka_Consumer_Connect w))"
| close: "kafka_step rt w (snd (kafka_Consumer_Close ord w))"
| subscribe: "kafka_step rt w (snd (kafka_Subscribe rt ctx t h w))"
| unsubscribe: "kafka_step rt w (snd (kafka_Unsubscribe t w))"
| cancel: "kafka_step rt w (snd (kafkaSubscription_Unsubscribe a w))"

section \<open>The consumer provides the contract of \<open>subscribing\<close>\<close>

text \<open>
  \<open>Subscribe\<close> takes a handler that may be nil; the contract is about the handlers as given, and a
  subscription with a nil handler is never active.
\<close>

definition kafka_active :: "'h kafka_world \<Rightarrow> (nat \<times> string \<times> 'h option) set" where
  "kafka_active w =
     {(a, t, h). \<exists>s. ks_at w a = Some s \<and> ks_active s \<and> ks_topic s = t \<and> h = Some (ks_handler s)}"

definition kafka_inv :: "'h kafka_world \<Rightarrow> bool" where
  "kafka_inv w \<longleftrightarrow> (\<forall>a s. ks_at w a = Some s \<longrightarrow> ks_active s = (\<not> ks_cancelled s)) \<and>
     (\<forall>t a. kc_subscriptions (kcon w) t = Some a \<longrightarrow> (\<exists>s. ks_at w a = Some s \<and> ks_topic s = t))"

lemma kafka_Subscribe_cases:
  assumes "kafka_Subscribe rt ctx t h w = (r, w')"
  obtains (failed) e where "r = Inl e" "w' = w"
    | (ok) sub where "r = Inr (length (kheap w))" "kheap w' = kheap w @ [sub]" "ks_topic sub = t"
        "h = Some (ks_handler sub)" "ks_active sub" "\<not> ks_cancelled sub"
        "kc_subscriptions (kcon w') = (kc_subscriptions (kcon w))(t \<mapsto> length (kheap w))"
        "kc_closed (kcon w') = kc_closed (kcon w)" "kc_connected (kcon w') = kc_connected (kcon w)"
        "kafka_Consumer_IsConnected w" "t \<noteq> ''''"
proof (cases "kafka_Consumer_IsConnected w \<and> t \<noteq> '''' \<and> h \<noteq> None")
  case True
  then obtain f where "h = Some f" by blast
  with assms True have "r = Inr (length (kheap w))"
    "\<exists>sub. kheap w' = kheap w @ [sub] \<and> ks_topic sub = t \<and> h = Some (ks_handler sub) \<and> ks_active sub \<and> \<not> ks_cancelled sub"
    "kc_subscriptions (kcon w') = (kc_subscriptions (kcon w))(t \<mapsto> length (kheap w))"
    "kc_closed (kcon w') = kc_closed (kcon w)" "kc_connected (kcon w') = kc_connected (kcon w)"
    by (auto simp: kafka_Subscribe_def Let_def)
  with ok True show ?thesis by blast
next
  case False
  with assms failed show ?thesis by (auto simp: kafka_Subscribe_def split: if_splits)
qed

lemma ks_at_append:
  "kheap w' = kheap w @ [sub] \<Longrightarrow> ks_at w' a = (if a = length (kheap w) then Some sub else ks_at w a)"
  by (auto simp: ks_at_def nth_append)

lemma ks_at_None: "ks_at w (length (kheap w)) = None"
  by (simp add: ks_at_def)

lemma ks_at_in: "ks_at w a = Some s \<Longrightarrow> s \<in> set (kheap w)"
  by (auto simp: ks_at_def split: if_splits)

lemma kafka_cancel_at:
  "ks_at (snd (kafkaSubscription_Unsubscribe a w)) b =
     (if b = a then map_option (\<lambda>s. if ks_active s then s\<lparr>ks_active := False, ks_cancelled := True\<rparr> else s) (ks_at w a)
      else ks_at w b)"
  by (auto simp: kafkaSubscription_Unsubscribe_def ks_at_def split: option.splits)

lemma kafka_cancel_frame [simp]:
  "kcon (snd (kafkaSubscription_Unsubscribe a w)) = kcon w" "fst (kafkaSubscription_Unsubscribe a w) = None"
  by (auto simp: kafkaSubscription_Unsubscribe_def split: option.splits)

lemma kafka_inv_entry:
  "kafka_inv w \<Longrightarrow> kc_subscriptions (kcon w) t = Some a \<Longrightarrow> \<exists>s. ks_at w a = Some s \<and> ks_topic s = t"
  by (simp add: kafka_inv_def)

lemma kafka_inv_fresh: "kafka_inv w \<Longrightarrow> kc_subscriptions (kcon w) t \<noteq> Some (length (kheap w))"
  using kafka_inv_entry [of w t "length (kheap w)"] by (auto simp: ks_at_None)

lemma kafka_inv_cancel:
  assumes "kafka_inv w"
  shows "kafka_inv (snd (kafkaSubscription_Unsubscribe a w))"
proof (cases "ks_at w a")
  case (Some s)
  let ?off = "\<lambda>s. if ks_active s then s\<lparr>ks_active := False, ks_cancelled := True\<rparr> else s"
  have "ks_topic (?off s) = ks_topic s" "ks_active (?off s) = (\<not> ks_cancelled (?off s))"
    using assms Some by (auto simp: kafka_inv_def)
  moreover have "ks_topic s = t" if "kc_subscriptions (kcon w) t = Some a" for t
    using kafka_inv_entry [OF assms that] Some by simp
  ultimately show ?thesis using assms Some by (auto simp: kafka_inv_def kafka_cancel_at simp del: if_split)
qed (use assms in \<open>simp add: kafkaSubscription_Unsubscribe_def\<close>)

lemma kafka_inv_Subscribe:
  assumes "kafka_inv w"
  shows "kafka_inv (snd (kafka_Subscribe rt ctx t h w))"
proof -
  obtain r w' where r: "kafka_Subscribe rt ctx t h w = (r, w')" by fastforce
  then show ?thesis
  proof (cases rule: kafka_Subscribe_cases)
    case (ok sub)
    have fresh: "kc_subscriptions (kcon w) t' \<noteq> Some (length (kheap w))" for t'
      using assms by (rule kafka_inv_fresh)
    from assms ok fresh r show ?thesis
      by (simp add: kafka_inv_def ks_at_append [OF ok(2)])
  qed (use assms r in simp)
qed

interpretation kafka_sub: subscribing "kafka_Subscribe rt" kafkaSubscription_Unsubscribe kafka_active kafka_inv
  for rt
proof (unfold_locales, goal_cases)
  case (1 w ctx t h)
  then show ?case by (rule kafka_inv_Subscribe)
next
  case (2 w s)
  then show ?case by (rule kafka_inv_cancel)
next
  case (3 w ctx t h s w')
  from 3(2) show ?case
    by (cases rule: kafka_Subscribe_cases) (auto simp: kafka_active_def ks_at_append ks_at_None split: if_splits)
next
  case (4 w ctx t h e w')
  from 4(2) show ?case by (cases rule: kafka_Subscribe_cases) simp_all
next
  case (5 w s)
  show ?case
  proof (cases "ks_at w s")
    case (Some x)
    then show ?thesis by (cases "ks_active x") (auto simp: kafka_active_def kafka_cancel_at split: if_splits)
  qed (auto simp: kafka_active_def kafka_cancel_at split: if_splits)
qed

interpretation kafka_group: selective "kafka_Subscribe rt" kafkaSubscription_Unsubscribe kafka_active kafka_inv
  kafka_Consumer_IsConnected "\<lambda>t h. t \<noteq> '''' \<and> h \<noteq> None" for rt
proof (unfold_locales, goal_cases)
  case (1 w ctx t h)
  then show ?case by (simp add: kafka_Subscribe_def Let_def split: option.split)
next
  case (2 w ctx t h)
  then show ?case
    by (simp add: kafka_Subscribe_def kafka_Consumer_IsConnected_def Let_def split: option.split)
next
  case (3 w s)
  then show ?case by (simp add: kafkaSubscription_Unsubscribe_def split: option.split)
qed

section \<open>Runs\<close>

fun kafka_producer_call :: "'w producer_call \<Rightarrow> 'w kafka_Producer \<Rightarrow> 'w kafka_Producer" where
  "kafka_producer_call PConnect p = snd (kafka_Producer_Connect p)"
| "kafka_producer_call PClose p = snd (kafka_Producer_Close p)"
| "kafka_producer_call (PSetPublish fn) p = kafka_SetPublishFunc fn p"

interpretation kafka_closing: closing kafka_producer_call kp_closed kafka_Producer_IsConnected
proof (unfold_locales, goal_cases)
  case (1 p op)
  then show ?case
    by (cases op) (auto simp: kafka_Producer_Connect_def kafka_Producer_Close_def kafka_SetPublishFunc_def
        split: option.splits)
qed (simp add: kafka_Producer_IsConnected_def)

lemma kafka_IsActive_iff: "kafkaSubscription_IsActive w a \<longleftrightarrow> a \<in> fst ` kafka_active w"
  by (force simp: kafkaSubscription_IsActive_def kafka_active_def split: option.splits)

lemma ks_at_kcon [simp]: "ks_at (w\<lparr>kcon := c\<rparr>) = ks_at w"
  by (rule ext) (simp add: ks_at_def)

lemma kafka_active_kcon [simp]: "kafka_active (w\<lparr>kcon := c\<rparr>) = kafka_active w"
  by (simp add: kafka_active_def)

lemma kafka_Close_active:
  assumes "kafka_inv w" and "\<not> kc_closed (kcon w)" and "iteration_of (kc_subscriptions (kcon w)) ord"
  shows "kafka_active (snd (kafka_Consumer_Close ord w)) =
      {x \<in> kafka_active w. fst x \<notin> ran (kc_subscriptions (kcon w))}"
    and "\<not> kafka_Consumer_IsConnected (snd (kafka_Consumer_Close ord w))"
proof -
  let ?w = "w\<lparr>kcon := (kcon w)\<lparr>kc_closed := True\<rparr>\<rparr>"
  have "kafka_inv ?w" using assms(1) by (simp add: kafka_inv_def)
  from kafka_sub.cancel_all_active [OF this, of "kc_subscriptions (kcon w)" ord] assms(2,3)
  show "kafka_active (snd (kafka_Consumer_Close ord w)) =
      {x \<in> kafka_active w. fst x \<notin> ran (kc_subscriptions (kcon w))}"
    by (simp add: kafka_Consumer_Close_def Let_def iteration_of_def)
  show "\<not> kafka_Consumer_IsConnected (snd (kafka_Consumer_Close ord w))"
    using assms(2) by (simp add: kafka_Consumer_Close_def Let_def kafka_Consumer_IsConnected_def)
qed

section \<open>The consumer as a registry of subscriptions\<close>

text \<open>
  The calls of a client on the consumer and on the subscriptions it was handed, with what they
  return; \<open>ord\<close> is the order in which the loop of \<open>Close\<close> visits the map.
\<close>

fun kafka_call ::
  "runtime \<Rightarrow> ((string \<rightharpoonup> nat) \<Rightarrow> string list) \<Rightarrow> 'h consumer_call \<Rightarrow> 'h kafka_world \<Rightarrow> consumer_response \<times> 'h kafka_world" where
  "kafka_call rt ord CoConnect w = map_prod RErr id (kafka_Consumer_Connect w)"
| "kafka_call rt ord CoClose w = map_prod RErr id (kafka_Consumer_Close (ord (kc_subscriptions (kcon w))) w)"
| "kafka_call rt ord CoIsConnected w = (RBool (kafka_Consumer_IsConnected w), w)"
| "kafka_call rt ord (CoSubscribe ctx t h) w = map_prod RSub id (kafka_Subscribe rt ctx t h w)"
| "kafka_call rt ord (CoUnsubscribe t) w = map_prod RErr id (kafka_Unsubscribe t w)"
| "kafka_call rt ord (CoCancel a) w = map_prod RErr id (kafkaSubscription_Unsubscribe a w)"
| "kafka_call rt ord (CoIsActive a) w = (RBool (kafkaSubscription_IsActive w a), w)"
| "kafka_call rt ord (CoTopic a) w = (RName (kafkaSubscription_Topic w a), w)"

definition kafka_refusals :: "kafka_Config \<Rightarrow> refusals" where
  "kafka_refusals cfg =
     \<lparr>invalid_config = map_option (\<lambda>e. NewBrokerError ErrCodeInvalidConfig ''invalid kafka consumer config'' (Some e))
        (kafka_Validate cfg),
      no_topic = NewBrokerError ErrCodeSubscribeFailed ''topic is required'' None,
      no_handler = NewBrokerError ErrCodeSubscribeFailed ''handler is required'' None\<rparr>"

definition kafka_live :: "'h kafka_world \<Rightarrow> nat \<rightharpoonup> 'h" where
  "kafka_live w a = (case ks_at w a of None \<Rightarrow> None | Some s \<Rightarrow> if ks_active s then Some (ks_handler s) else None)"

definition kafka_registry :: "'h kafka_world \<Rightarrow> 'h registry" where
  "kafka_registry w =
     \<lparr>rg_status = (if kc_closed (kcon w) then Shut else if kc_connected (kcon w) then Open else Unconnected),
      rg_topics = map ks_topic (kheap w), rg_live = kafka_live w, rg_current = kc_subscriptions (kcon w)\<rparr>"

definition kafka_ok :: "kafka_Config \<Rightarrow> 'h kafka_world \<Rightarrow> bool" where
  "kafka_ok cfg w \<longleftrightarrow> kc_config (kcon w) = cfg \<and> (kc_connected (kcon w) \<longrightarrow> kafka_Validate cfg = None) \<and>
     finite (dom (kc_subscriptions (kcon w)))"

lemma kafka_live_cancel: "kafka_live (snd (kafkaSubscription_Unsubscribe a w)) = (kafka_live w)(a := None)"
  by (rule ext) (auto simp: kafka_live_def kafka_cancel_at split: option.split)

lemma kafka_topics_cancel [simp]: "map ks_topic (kheap (snd (kafkaSubscription_Unsubscribe a w))) = map ks_topic (kheap w)"
  by (auto simp: kafkaSubscription_Unsubscribe_def ks_at_def map_update list_update_same_conv split: option.split)

lemma kafka_live_kcon [simp]: "kafka_live (w\<lparr>kcon := c\<rparr>) = kafka_live w"
  by (rule ext) (simp add: kafka_live_def)

lemma kafka_cancel_all_registry:
  "kcon (cancel_all kafkaSubscription_Unsubscribe subs ts w) = kcon w \<and>
   map ks_topic (kheap (cancel_all kafkaSubscription_Unsubscribe subs ts w)) = map ks_topic (kheap w) \<and>
   kafka_live (cancel_all kafkaSubscription_Unsubscribe subs ts w) =
     (\<lambda>b. if \<exists>t \<in> set ts. subs t = Some b then None else kafka_live w b)"
proof (induction ts arbitrary: w)
  case (Cons t ts)
  then show ?case by (auto simp: kafka_live_cancel fun_eq_iff split: option.split)
qed simp

lemma kafka_call_Subscribe:
  assumes "kafka_ok cfg w"
  shows "registry_call (kafka_refusals cfg) (CoSubscribe ctx t h) (kafka_registry w) =
    map_prod RSub kafka_registry (kafka_Subscribe rt ctx t h w)"
proof (cases "kafka_Consumer_IsConnected w \<and> t \<noteq> '''' \<and> h \<noteq> None")
  case True
  then obtain f where h: "h = Some f" by blast
  let ?w = "snd (kafka_Subscribe rt ctx t h w)"
  have "kafka_live ?w = (kafka_live w)(length (kheap w) \<mapsto> f)"
    using True h by (auto simp: kafka_Subscribe_def Let_def kafka_live_def ks_at_def nth_append fun_eq_iff)
  moreover have "map ks_topic (kheap ?w) = map ks_topic (kheap w) @ [t]"
    "kc_subscriptions (kcon ?w) = (kc_subscriptions (kcon w))(t \<mapsto> length (kheap w))"
    "kc_closed (kcon ?w) = kc_closed (kcon w)" "kc_connected (kcon ?w) = kc_connected (kcon w)"
    "fst (kafka_Subscribe rt ctx t h w) = Inr (length (kheap w))"
    using True h by (simp_all add: kafka_Subscribe_def Let_def)
  ultimately show ?thesis
    using True h
    by (simp add: kafka_registry_def kafka_Consumer_IsConnected_def Let_def map_prod_def case_prod_unfold)
next
  case False
  then show ?thesis
    by (auto simp: kafka_Subscribe_def kafka_registry_def kafka_refusals_def kafka_Consumer_IsConnected_def
        split: option.split)
qed

lemma kafka_call_Close:
  assumes "kafka_ok cfg w" and "\<forall>m. finite (dom m) \<longrightarrow> iteration_of m (ord m)"
  shows "registry_call (kafka_refusals cfg) CoClose (kafka_registry w) =
    map_prod RErr kafka_registry (kafka_Consumer_Close (ord (kc_subscriptions (kcon w))) w)"
proof (cases "kc_closed (kcon w)")
  case False
  let ?m = "kc_subscriptions (kcon w)" and ?w = "w\<lparr>kcon := (kcon w)\<lparr>kc_closed := True\<rparr>\<rparr>"
  from assms have "dom ?m \<subseteq> set (ord ?m)" by (simp add: kafka_ok_def iteration_of_def)
  note off = restrict_off [OF this, of "kafka_live w"]
  from False show ?thesis
    using kafka_cancel_all_registry [of ?m "ord ?m" ?w, unfolded kafka_live_kcon off]
    by (simp add: kafka_Consumer_Close_def Let_def kafka_registry_def)
qed (simp add: kafka_Consumer_Close_def kafka_registry_def)

lemma kafka_ok_call:
  assumes "kafka_ok cfg w"
  shows "kafka_ok cfg (snd (kafka_call rt ord c w))"
proof (cases c)
  case CoConnect
  with assms show ?thesis by (auto simp: kafka_ok_def kafka_Consumer_Connect_def split: option.split)
next
  case CoClose
  with assms show ?thesis
    by (auto simp: kafka_ok_def kafka_Consumer_Close_def Let_def kafka_cancel_all_registry [THEN conjunct1])
next
  case (CoSubscribe ctx t h)
  with assms show ?thesis by (auto simp: kafka_ok_def kafka_Subscribe_def Let_def split: option.split)
next
  case (CoUnsubscribe t)
  with assms show ?thesis
    by (auto simp: kafka_ok_def kafka_Unsubscribe_def Let_def case_prod_unfold split: option.split)
qed (use assms in \<open>auto simp: kafka_ok_def\<close>)

interpretation kafka_refinement: functional_refinement "kafka_call rt ord" "registry_call (kafka_refusals cfg)"
  kafka_registry "\<lambda>w. kafka_ok cfg w \<and> (\<forall>m :: string \<rightharpoonup> nat. finite (dom m) \<longrightarrow> iteration_of m (ord m))" for rt ord cfg
proof (unfold_locales, goal_cases)
  case (1 w c)
  then show ?case by (simp add: kafka_ok_call)
next
  case (2 w c)
  then have ok: "kafka_ok cfg w" by simp
  show ?case
  proof (cases c)
    case CoConnect
    with ok show ?thesis
      by (auto simp: kafka_registry_def kafka_Consumer_Connect_def kafka_ok_def kafka_refusals_def split: option.split)
  next
    case CoClose
    with kafka_call_Close [OF ok] 2 show ?thesis by (simp add: map_prod_def case_prod_unfold)
  next
    case (CoSubscribe ctx t h)
    with kafka_call_Subscribe [OF ok, of ctx t h rt] show ?thesis by (simp add: map_prod_def case_prod_unfold)
  next
    case (CoUnsubscribe t)
    then show ?thesis
      by (auto simp: kafka_registry_def kafka_Unsubscribe_def case_prod_unfold Let_def kafka_live_cancel split: option.split)
  next
    case (CoCancel a)
    then show ?thesis by (simp add: kafka_registry_def kafka_live_cancel)
  qed (auto simp: kafka_registry_def kafka_Consumer_IsConnected_def kafkaSubscription_IsActive_def kafka_live_def
      kafkaSubscription_Topic_def ks_at_def split: option.split)
qed

lemma kafka_registry_new: "kafka_registry (kafka_new_world cfg) = new_registry"
  by (simp add: kafka_registry_def kafka_new_world_def kafka_NewConsumer_def new_registry_def kafka_live_def ks_at_def
      fun_eq_iff)

lemma kafka_ok_new: "kafka_ok (kc_config (kafka_NewConsumer cfg)) (kafka_new_world cfg)"
  by (simp add: kafka_ok_def kafka_new_world_def kafka_NewConsumer_def)

section \<open>Properties\<close>

text \<open>
  Closing a Kafka producer is final. Whatever calls follow, every publish reports
  \<open>ErrNotConnected\<close> and reaches no broker, although \<open>Connect\<close> returns nil as long as
  the configuration is valid.
\<close>

lemma kafka_close_is_final:
  assumes "p' = fold kafka_producer_call calls (snd (kafka_Producer_Close p))"
  shows "kafka_Publish ctx topic msg p' w = (Some (Sentinel ErrNotConnected), w) \<and>
    (kafka_Validate (kp_config p') = None \<longrightarrow>
       fst (kafka_Producer_Connect p') = None \<and> \<not> kafka_Producer_IsConnected (snd (kafka_Producer_Connect p')))"
proof -
  have "kp_closed (snd (kafka_Producer_Close p))" by (simp add: kafka_Producer_Close_def)
  from kafka_closing.stays_off [OF this, of calls] have off: "kp_closed p'" "\<not> kafka_Producer_IsConnected p'"
    using assms by simp_all
  then show ?thesis
    by (auto simp: kafka_Publish_def kafka_Producer_Connect_def kafka_Producer_IsConnected_def split: option.splits)
qed

lemma kafka_Validate_correct:
  "(kafka_Validate c = None \<longleftrightarrow> k_Brokers c \<noteq> [] \<and> '''' \<notin> set (k_Brokers c) \<and> k_ClientID c \<noteq> '''' \<and>
      1 \<le> sint (k_BatchSize c) \<and> (k_SASLEnabled c \<longrightarrow> k_SASLUsername c \<noteq> '''')) \<and>
   kafka_Validate kafka_DefaultConfig = None"
  by (auto simp: kafka_Validate_def has_empty_iff kafka_DefaultConfig_def)

text \<open>
  Subscribing to a topic again replaces the consumer's entry but cancels nothing. After
  \<open>Close\<close>, which promises to close all subscriptions, the second subscription is cancelled and
  the first one is still active.
\<close>

lemma kafka_resubscribe_leaks:
  assumes "kafka_inv w" and "kafka_Subscribe rt ctx t (Some h) w = (Inr a, w1)"
    and "kafka_Subscribe rt ctx t (Some h') w1 = (Inr b, w2)"
    and "iteration_of (kc_subscriptions (kcon w2)) ord" and "kafka_Consumer_Close ord w2 = (e, w3)"
  shows "\<not> kafka_Consumer_IsConnected w3 \<and> \<not> kafkaSubscription_IsActive w3 b \<and> kafkaSubscription_IsActive w3 a"
proof -
  note ok = kafka_sub.subscribe_ok
  have inv: "kafka_inv w1" "kafka_inv w2"
    using kafka_inv_Subscribe assms(1-3) by (metis snd_conv)+
  have act: "kafka_active w2 = {(a, t, Some h), (b, t, Some h')} \<union> kafka_active w" "b \<noteq> a"
    using ok [OF assms(1,2)] ok [OF inv(1) assms(3)] by auto
  from assms(2) have 1: "kc_subscriptions (kcon w1) = (kc_subscriptions (kcon w))(t \<mapsto> a)" "a = length (kheap w)"
    by (cases rule: kafka_Subscribe_cases; simp)+
  from assms(3) have 2: "kc_subscriptions (kcon w2) = (kc_subscriptions (kcon w1))(t \<mapsto> b)" "\<not> kc_closed (kcon w2)"
    by (cases rule: kafka_Subscribe_cases; simp add: kafka_Consumer_IsConnected_def)+
  have ran: "b \<in> ran (kc_subscriptions (kcon w2))" "a \<notin> ran (kc_subscriptions (kcon w2))"
    using kafka_inv_fresh [OF assms(1)] act(2) unfolding 2(1) 1 by (auto simp: ran_def split: if_splits)
  from kafka_Close_active [OF inv(2) 2(2) assms(4)] assms(5) ran act(1)
  show ?thesis by (auto simp: kafka_IsActive_iff image_iff)
qed

definition kafka_demo :: "bool kafka_world" where
  "kafka_demo = snd (kafka_Consumer_Connect (kafka_new_world None))"

lemma kafka_demo_simps [simp]:
  "kheap kafka_demo = []" "kc_subscriptions (kcon kafka_demo) = Map.empty" "kafka_inv kafka_demo"
  "kafka_Consumer_IsConnected kafka_demo" "kafka_active kafka_demo = {}"
  by (simp_all add: kafka_demo_def kafka_Consumer_Connect_def kafka_new_world_def kafka_NewConsumer_def
      kafka_Validate_correct kafka_inv_def ks_at_def kafka_Consumer_IsConnected_def kafka_active_def)

lemma kafka_resubscribe_leaks_example:
  "\<exists>a b w1 w2 w3. kafka_Subscribe rt_example \<lparr>ctx_deadline = None, ctx_err = None\<rparr> ''t'' (Some True) kafka_demo = (Inr a, w1) \<and>
     kafka_Subscribe rt_example \<lparr>ctx_deadline = None, ctx_err = None\<rparr> ''t'' (Some False) w1 = (Inr b, w2) \<and>
     kafka_Consumer_Close [''t''] w2 = (None, w3) \<and> kafkaSubscription_IsActive w3 a"
proof -
  let ?ctx = "\<lparr>ctx_deadline = None, ctx_err = None\<rparr>"
  obtain w1 where 1: "kafka_Subscribe rt_example ?ctx ''t'' (Some True) kafka_demo = (Inr 0, w1)"
    by (simp add: kafka_Subscribe_def Let_def)
  then have w1: "kafka_Consumer_IsConnected w1" "kc_subscriptions (kcon w1) = [''t'' \<mapsto> 0]"
    by (cases rule: kafka_Subscribe_cases; simp add: kafka_Consumer_IsConnected_def)+
  then obtain b w2 where 2: "kafka_Subscribe rt_example ?ctx ''t'' (Some False) w1 = (Inr b, w2)"
    by (simp add: kafka_Subscribe_def Let_def)
  then have "kc_subscriptions (kcon w2) = [''t'' \<mapsto> b]"
    using w1 by (cases rule: kafka_Subscribe_cases) simp_all
  then have it: "iteration_of (kc_subscriptions (kcon w2)) [''t'']" by (simp add: iteration_of_def)
  obtain w3 where 3: "kafka_Consumer_Close [''t''] w2 = (None, w3)"
    by (cases "kafka_Consumer_Close [''t''] w2") (auto simp: kafka_Consumer_Close_def Let_def split: if_splits)
  from kafka_resubscribe_leaks [OF kafka_demo_simps(3) 1 2 it 3] 1 2 3 show ?thesis by blast
qed

text \<open>
  C30: a Kafka consumer is a registry of subscriptions. Any sequence of calls on a new consumer and on
  the subscriptions it hands out, with nil handlers, empty topics, calls after \<open>Close\<close> and repeated
  cancellations among them, returns exactly what the specification returns, errors included, and
  leaves the state it describes, in whatever order \<open>Close\<close> visits the map. In particular
  \<open>Subscribe\<close> succeeds exactly on an open consumer with a topic and a handler, \<open>Close\<close> cancels the
  current subscription of every topic and is final.
\<close>

theorem kafka_refines_registry:
  assumes "\<forall>m. finite (dom m) \<longrightarrow> iteration_of m (ord m)"
    and "run_calls (kafka_call rt ord) calls (kafka_new_world cfg) = (rs, w)"
  shows "run_calls (registry_call (kafka_refusals (kc_config (kafka_NewConsumer cfg)))) calls new_registry =
    (rs, kafka_registry w)"
proof -
  from assms(1) kafka_ok_new [of cfg]
  have "kafka_ok (kc_config (kafka_NewConsumer cfg)) (kafka_new_world cfg) \<and> (\<forall>m. finite (dom m) \<longrightarrow> iteration_of m (ord m))"
    by simp
  from kafka_refinement.run_refines [where rt = rt and ops = calls, OF this] assms(2) show ?thesis by (simp add: kafka_registry_new)
qed

theorem kafka_refines_registry_witness:
  "\<exists>w. run_calls (registry_call (kafka_refusals kafka_DefaultConfig))
      [CoConnect, CoSubscribe example_ctx ''t'' (Some True), CoSubscribe example_ctx ''t'' None, CoClose, CoIsActive 0] new_registry =
    ([RErr None, RSub (Inr 0), RSub (Inl (NewBrokerError ErrCodeSubscribeFailed ''handler is required'' None)), RErr None,
      RBool False], kafka_registry w)"
proof -
  let ?calls = "[CoConnect, CoSubscribe example_ctx ''t'' (Some True), CoSubscribe example_ctx ''t'' None, CoClose, CoIsActive 0]"
  obtain rs w where r: "run_calls (kafka_call rt_example visit) ?calls (kafka_new_world None) = (rs, w)" by fastforce
  have "\<forall>m :: string \<rightharpoonup> nat. finite (dom m) \<longrightarrow> iteration_of m (visit m)" by (simp add: visit_iteration)
  from kafka_refines_registry [OF this r] have "run_calls (registry_call (kafka_refusals kafka_DefaultConfig)) ?calls
    new_registry = (rs, kafka_registry w)" by (simp add: kafka_NewConsumer_def)
  moreover have "fst (run_calls (registry_call (kafka_refusals kafka_DefaultConfig)) ?calls new_registry) =
    [RErr None, RSub (Inr 0), RSub (Inl (NewBrokerError ErrCodeSubscribeFailed ''handler is required'' None)), RErr None,
      RBool False]"
    by (simp add: new_registry_def kafka_refusals_def kafka_Validate_correct Let_def restrict_map_def)
  ultimately show ?thesis by auto
qed

text \<open>
  A start that fails half way: the second of two registered handlers is nil, which the group takes
  and the consumer refuses.
\<close>

definition kafka_demo_group :: "(bool option, nat) ConsumerGroup" where
  "kafka_demo_group = cg_Add ''b'' None (cg_Add ''a'' (Some True) (NewConsumerGroup ''u'' ''g''))"

lemma kafka_demo_group_simps [simp]:
  "\<not> cg_running kafka_demo_group" "cg_subscriptions kafka_demo_group = Map.empty"
  "cg_handlers kafka_demo_group = [''a'' \<mapsto> Some True, ''b'' \<mapsto> None]"
  "iteration_of (cg_handlers kafka_demo_group) [''a'', ''b'']"
  by (auto simp: kafka_demo_group_def cg_Add_def NewConsumerGroup_def iteration_of_def)

lemma kafka_demo_order:
  "\<forall>m. dom m \<subseteq> dom (cg_handlers kafka_demo_group) \<longrightarrow>
     iteration_of m ((\<lambda>m. filter (\<lambda>t. m t \<noteq> None) [''a'', ''b'']) m)"
  by (auto simp: iteration_of_def)

lemma kafka_demo_start:
  "\<exists>e cg' w'. Start (kafka_Subscribe rt_example) kafkaSubscription_Unsubscribe NoopTranslator [''a'', ''b'']
      (\<lambda>m. filter (\<lambda>t. m t \<noteq> None) [''a'', ''b'']) \<lparr>ctx_deadline = None, ctx_err = None\<rparr> kafka_demo_group kafka_demo =
    (Some e, cg', w')"
proof -
  let ?s = "Start (kafka_Subscribe rt_example) kafkaSubscription_Unsubscribe NoopTranslator [''a'', ''b'']
      (\<lambda>m. filter (\<lambda>t. m t \<noteq> None) [''a'', ''b'']) \<lparr>ctx_deadline = None, ctx_err = None\<rparr> kafka_demo_group kafka_demo"
  have "?s = start_loop (kafka_Subscribe rt_example) kafkaSubscription_Unsubscribe NoopTranslator
      (\<lambda>m. filter (\<lambda>t. m t \<noteq> None) [''a'', ''b'']) \<lparr>ctx_deadline = None, ctx_err = None\<rparr> [''a'', ''b'']
      kafka_demo_group kafka_demo"
    by (simp only: Start_def Start_check_def Start_locked_def kafka_demo_group_simps(1) if_False option.case)
  moreover have "\<not> (\<forall>t \<in> set [''a'', ''b'']. \<forall>h. cg_handlers kafka_demo_group t = Some h \<longrightarrow> t \<noteq> '''' \<and> h \<noteq> None)" by simp
  ultimately have "fst ?s \<noteq> None" using kafka_group.start_loop_iff [OF kafka_demo_simps(3,4)] by (simp only:) blast
  then show ?thesis by (metis fst_conv not_None_eq prod_cases3)
qed

theorem failed_group_start_witness:
  "\<exists>e t h err v v' w'. Start (kafka_Subscribe rt_example) kafkaSubscription_Unsubscribe NoopTranslator [''a'', ''b'']
      (\<lambda>m. filter (\<lambda>t. m t \<noteq> None) [''a'', ''b'']) \<lparr>ctx_deadline = None, ctx_err = None\<rparr> kafka_demo_group kafka_demo =
    (Some e, kafka_demo_group, w') \<and> kafka_active w' = kafka_active kafka_demo \<and>
    cg_handlers kafka_demo_group t = Some h \<and>
    kafka_Subscribe rt_example \<lparr>ctx_deadline = None, ctx_err = None\<rparr> t h v = (Inl err, v') \<and> errors_Unwrap e = Some err"
proof -
  obtain e cg' w' where st: "Start (kafka_Subscribe rt_example) kafkaSubscription_Unsubscribe NoopTranslator [''a'', ''b'']
      (\<lambda>m. filter (\<lambda>t. m t \<noteq> None) [''a'', ''b'']) \<lparr>ctx_deadline = None, ctx_err = None\<rparr> kafka_demo_group kafka_demo =
    (Some e, cg', w')" using kafka_demo_start by blast
  from failed_group_start_is_clean [OF kafka_sub.subscribing_axioms kafka_demo_simps(3) kafka_demo_group_simps(1,2,4)
      kafka_demo_order st] st
  show ?thesis by blast
qed

end
