(* ===== verification/Float64.thy ===== *)
theory Float64
  imports Complex_Main "HOL-Library.Log_Nat" "HOL-Library.Word"
begin

text \<open>
  The part of Go's \<open>float64\<close> arithmetic that the backoff computation uses: IEEE 754 binary64
  values as rational numbers, infinities and NaN; rounding to nearest, ties to even
  (\<open>round64\<close>); the product, the comparison, and the conversions from and to \<open>int64\<close>.
  The sign of a zero is not kept: none of these operations lets it be observed. What a conversion
  to \<open>int64\<close> gives for a value that \<open>int64\<close> cannot represent is left to the
  implementation by the language, and is an argument here.
\<close>

datatype float64 = Fin rat | Inf bool | NaN

text \<open>The exponent of the leading bit of a positive rational number.\<close>

definition ilog2 :: "rat \<Rightarrow> int" where
  "ilog2 r =
     (let (p, q) = quotient_of r; a = bitlen p - bitlen q
      in if 2 powi a \<le> r then a else a - 1)"

definition round_half_even :: "rat \<Rightarrow> int" where
  "round_half_even r =
     (let f = \<lfloor>r\<rfloor>; d = r - of_int f
      in if d < 1 / 2 then f else if 1 / 2 < d then f + 1 else if even f then f else f + 1)"

text \<open>The exponent of the last of the 53 bits of the significand, at least that of the subnormal numbers.\<close>

definition ulp_exp :: "rat \<Rightarrow> int" where
  "ulp_exp r = max (ilog2 \<bar>r\<bar> - 52) (- 1074)"

definition round64 :: "rat \<Rightarrow> float64" where
  "round64 r =
     (if r = 0 then Fin 0
      else let q = ulp_exp r; v = of_int (round_half_even (r / 2 powi q)) * 2 powi q
           in if \<bar>v\<bar> \<ge> 2 ^ 1024 then Inf (0 < v) else Fin v)"

definition float_of_int64 :: "64 word \<Rightarrow> float64" where
  "float_of_int64 i = round64 (of_int (sint i))"

fun fmul :: "float64 \<Rightarrow> float64 \<Rightarrow> float64" where
  "fmul (Fin a) (Fin b) = round64 (a * b)"
| "fmul (Fin a) (Inf s) = (if a = 0 then NaN else Inf (s = (0 < a)))"
| "fmul (Inf s) (Fin b) = (if b = 0 then NaN else Inf (s = (0 < b)))"
| "fmul (Inf s) (Inf s') = Inf (s = s')"
| "fmul NaN _ = NaN"
| "fmul _ NaN = NaN"

fun fgt :: "float64 \<Rightarrow> float64 \<Rightarrow> bool" where
  "fgt (Fin a) (Fin b) = (b < a)"
| "fgt (Fin a) (Inf s) = (\<not> s)"
| "fgt (Inf s) (Fin b) = s"
| "fgt (Inf s) (Inf s') = (s \<and> \<not> s')"
| "fgt NaN _ = False"
| "fgt _ NaN = False"

definition trunc :: "rat \<Rightarrow> int" where
  "trunc r = (if 0 \<le> r then \<lfloor>r\<rfloor> else \<lceil>r\<rceil>)"

fun int64_of_float :: "(float64 \<Rightarrow> 64 word) \<Rightarrow> float64 \<Rightarrow> 64 word" where
  "int64_of_float conv (Fin r) =
     (if - (2 ^ 63) \<le> trunc r \<and> trunc r < 2 ^ 63 then of_int (trunc r) else conv (Fin r))"
| "int64_of_float conv f = conv f"

section \<open>Rounding\<close>

lemma powi2_less_iff: "(2::rat) powi a < 2 powi b \<longleftrightarrow> a < b"
  by (metis linorder_not_less one_le_numeral order_le_less power_int_increasing power_int_strict_increasing
      one_less_numeral_iff semiring_norm(76))

lemma ilog2_bounds:
  assumes "0 < r"
  shows "2 powi (ilog2 r) \<le> r" and "r < 2 powi (ilog2 r + 1)"
proof -
  obtain p q where pq: "quotient_of r = (p, q)" by fastforce
  then have q: "0 < q" and r: "r = of_int p / of_int q"
    by (simp_all add: quotient_of_denom_pos quotient_of_div)
  with assms have p: "0 < p" by (simp add: zero_less_divide_iff)
  have bit: "(2::rat) powi (bitlen x - 1) \<le> of_int x \<and> of_int x < (2::rat) powi (bitlen x)" if "0 < x" for x
  proof -
    from that have "1 \<le> bitlen x" by (metis bitlen_eq_zero_iff bitlen_nonneg int_one_le_iff_zero_less leD le_less)
    then have "(2::rat) powi (bitlen x - 1) = of_int (2 ^ nat (bitlen x - 1))"
      "(2::rat) powi (bitlen x) = of_int (2 ^ nat (bitlen x))"
      by (simp_all add: power_int_def)
    with bitlen_bounds [OF that] show ?thesis by (simp only: of_int_le_iff of_int_less_iff)
  qed
  define a where "a = bitlen p - bitlen q"
  have "2 powi (a - 1) = (2::rat) powi (bitlen p - 1) / 2 powi (bitlen q)"
    by (simp add: a_def power_int_diff [symmetric] algebra_simps)
  also have "\<dots> \<le> of_int p / of_int q"
    using bit [OF p] bit [OF q] p q by (intro frac_le) simp_all
  finally have low: "2 powi (a - 1) \<le> r" by (simp add: r)
  have "of_int p / of_int q < (2::rat) powi (bitlen p) / 2 powi (bitlen q - 1)"
    using bit [OF p] bit [OF q] p by (intro frac_less) simp_all
  also have "\<dots> = 2 powi (a + 1)"
    by (simp add: a_def power_int_diff [symmetric] algebra_simps)
  finally have high: "r < 2 powi (a + 1)" by (simp add: r)
  have "ilog2 r = (if 2 powi a \<le> r then a else a - 1)"
    by (simp add: ilog2_def pq a_def Let_def)
  with low high show "2 powi (ilog2 r) \<le> r" "r < 2 powi (ilog2 r + 1)" by (auto split: if_splits)
qed

lemma round_half_even_of_int [simp]: "round_half_even (of_int n) = n"
  by (simp add: round_half_even_def)

lemma round_half_even_error: "\<bar>of_int (round_half_even r) - r\<bar> \<le> 1 / 2"
  unfolding round_half_even_def Let_def by (simp add: abs_if) linarith

text \<open>Integers of at most 53 bits are represented exactly.\<close>

lemma round64_of_int:
  assumes "\<bar>n\<bar> < 2 ^ 53"
  shows "round64 (of_int n) = Fin (of_int n)"
proof (cases "n = 0")
  case False
  define q where "q = ulp_exp (of_int n)"
  have "2 powi (ilog2 \<bar>of_int n\<bar>) \<le> (\<bar>of_int n\<bar> :: rat)" using False by (intro ilog2_bounds) simp
  also have "\<dots> = of_int \<bar>n\<bar>" by simp
  also have "\<dots> < of_int (2 ^ 53)" using assms by (simp only: of_int_less_iff)
  also have "\<dots> = 2 powi 53" by simp
  finally have "ilog2 \<bar>of_int n\<bar> < 53" by (simp only: powi2_less_iff)
  then have "q \<le> 0" by (simp add: q_def ulp_exp_def)
  then have "2 ^ nat (- q) = (2::rat) powi (- q)" by (simp only: power_int_def) simp
  then have "2 ^ nat (- q) = inverse ((2::rat) powi q)" by (simp only: power_int_minus)
  then have "of_int n / 2 powi q = (of_int (n * 2 ^ nat (- q)) :: rat)"
    by (simp only: divide_inverse of_int_mult of_int_power of_int_numeral)
  then have "of_int (round_half_even (of_int n / 2 powi q)) * 2 powi q = (of_int n :: rat)"
    by (metis nonzero_eq_divide_eq power_int_not_zero round_half_even_of_int zero_neq_numeral)
  moreover have "\<bar>of_int n\<bar> < (2 ^ 1024 :: rat)"
  proof -
    have "\<bar>of_int n\<bar> < (of_int (2 ^ 53) :: rat)" using assms by (metis of_int_abs of_int_less_iff)
    also have "\<dots> \<le> 2 ^ 1024" by simp
    finally show ?thesis .
  qed
  ultimately show ?thesis using False by (simp add: round64_def q_def Let_def)
qed (simp add: round64_def)

text \<open>The relative error of a rounding that is at least one is at most \<open>2^-53\<close>.\<close>

lemma round64_lower:
  assumes "1 \<le> r"
  shows "round64 r = Inf True \<or> (\<exists>v. round64 r = Fin v \<and> r * (1 - 1 / 2 ^ 53) \<le> v)"
proof -
  define q where "q = ulp_exp r"
  define v where "v = of_int (round_half_even (r / 2 powi q)) * (2::rat) powi q"
  from assms have pos: "0 < r" and "\<bar>r\<bar> = r" by simp_all
  note b = ilog2_bounds [OF pos]
  from b(2) assms have "(2::rat) powi 0 < 2 powi (ilog2 r + 1)" by (simp only: power_int_0_right)
  then have "0 < ilog2 r + 1" by (simp only: powi2_less_iff)
  then have "0 \<le> ilog2 r" by simp
  then have "q = ilog2 r - 52" using \<open>\<bar>r\<bar> = r\<close> by (simp add: q_def ulp_exp_def)
  then have "2 powi q = 2 powi (ilog2 r) / (2 ^ 52 :: rat)" by (simp add: power_int_diff)
  with b(1) have ulp: "2 powi q \<le> r / 2 ^ 52" by (simp add: divide_right_mono)
  have "v - r = (of_int (round_half_even (r / 2 powi q)) - r / 2 powi q) * 2 powi q"
    by (simp add: v_def left_diff_distrib)
  then have "\<bar>v - r\<bar> = \<bar>of_int (round_half_even (r / 2 powi q)) - r / 2 powi q\<bar> * 2 powi q"
    by (simp only: abs_mult) simp
  also have "\<dots> \<le> 1 / 2 * 2 powi q"
    by (intro mult_right_mono round_half_even_error) simp
  also have "\<dots> \<le> r / 2 ^ 53" using ulp by simp
  finally have "r - r / 2 ^ 53 \<le> v" by linarith
  then have "r * (1 - 1 / 2 ^ 53) \<le> v" by (simp only: right_diff_distrib mult_1_right times_divide_eq_right)
  moreover from this assms have "0 < v" by simp
  ultimately show ?thesis using assms by (auto simp: round64_def Let_def q_def v_def)
qed

lemma float_of_int64_small: "\<bar>sint i\<bar> < 2 ^ 53 \<Longrightarrow> float_of_int64 i = Fin (of_int (sint i))"
  by (simp only: float_of_int64_def round64_of_int)

lemma round64_nonneg:
  assumes "0 \<le> r"
  shows "round64 r = Inf True \<or> (\<exists>v \<ge> 0. round64 r = Fin v)"
proof -
  have "0 \<le> round_half_even (r / 2 powi ulp_exp r)"
    using assms by (simp add: round_half_even_def Let_def)
  then have "0 \<le> of_int (round_half_even (r / 2 powi ulp_exp r)) * (2::rat) powi ulp_exp r"
    by simp
  moreover have "0 < v" if "(2::rat) ^ 1024 \<le> \<bar>v\<bar>" "0 \<le> v" for v
  proof -
    have "(0::rat) < 2 ^ 1024" by simp
    also have "\<dots> \<le> v" using that by simp
    finally show ?thesis .
  qed
  ultimately show ?thesis by (auto simp: round64_def Let_def)
qed

lemma fmul_nonneg:
  assumes "0 < a" and "(\<exists>x \<ge> 0. f = Fin x) \<or> f = Inf True"
  shows "fmul (Fin a) f = Inf True \<or> (\<exists>v \<ge> 0. fmul (Fin a) f = Fin v)"
  using assms(2)
proof (elim disjE exE conjE)
  fix x assume "0 \<le> x" "f = Fin x"
  with assms(1) round64_nonneg [of "a * x"] show ?thesis by simp
qed (use assms(1) in simp)

text \<open>A product that exceeds a bound by more than the rounding error still exceeds it.\<close>

lemma fgt_round64:
  assumes "1 \<le> r" and "b < r * (1 - 1 / 2 ^ 53)"
  shows "fgt (round64 r) (Fin b)"
  using round64_lower [OF assms(1)] assms(2) by fastforce

lemma trunc_of_int [simp]: "trunc (of_int n) = n"
  by (simp add: trunc_def)

lemma int64_of_float_exact:
  "- (2 ^ 63) \<le> n \<Longrightarrow> n < 2 ^ 63 \<Longrightarrow> int64_of_float conv (Fin (of_int n)) = of_int n"
  by (simp only: int64_of_float.simps trunc_of_int) simp

end
