(* ===== verification/RabbitMQ.thy ===== *)
theory RabbitMQ
  imports Registry Float64
begin

text \<open>
  The RabbitMQ adapter, \<open>pkg/rabbitmq/rabbitmq.go\<close>: the configuration with its connection
  string, the producer and the consumer. As in the Kafka adapter the publishing function is
  injected and subscription objects live on a heap. A subscription is cancelled by closing its
  \<open>cancelCh\<close>, which panics when it is closed already; the invariant shows that it never is.
\<close>

section \<open>Configuration\<close>

type_synonym ExchangeType = string

definition Exchange_Direct :: ExchangeType where "Exchange_Direct = ''direct''"
definition Exchange_Fanout :: ExchangeType where "Exchange_Fanout = ''fanout''"
definition Exchange_Topic :: ExchangeType where "Exchange_Topic = ''topic''"
definition Exchange_Headers :: ExchangeType where "Exchange_Headers = ''headers''"

definition ExchangeType_String :: "ExchangeType \<Rightarrow> string" where
  "ExchangeType_String et = et"

definition ExchangeType_IsValid :: "ExchangeType \<Rightarrow> bool" where
  "ExchangeType_IsValid et \<longleftrightarrow>
     et = Exchange_Direct \<or> et = Exchange_Fanout \<or> et = Exchange_Topic \<or> et = Exchange_Headers"

record rabbit_Config =
  r_URL :: string
  r_Host :: string
  r_Port :: int64
  r_Username :: string
  r_Password :: string
  r_VHost :: string
  r_Exchange :: string
  r_ExchType :: ExchangeType
  r_Queue :: string
  r_RoutingKey :: string
  r_BindingKeys :: "string list"
  r_Prefetch :: int64
  r_ConsumerTag :: string
  r_AutoAck :: bool
  r_Exclusive :: bool
  r_TLSEnabled :: bool
  r_TLSConfig :: "nat option"
  r_TLSSkipVerify :: bool
  r_MaxConnections :: int64
  r_MaxChannels :: int64
  r_ConnectionTimeout :: int64
  r_HeartbeatInterval :: int64
  r_ReconnectDelay :: int64
  r_MaxReconnectDelay :: int64
  r_ReconnectBackoff :: float64
  r_MaxReconnectCount :: int64
  r_PublishConfirm :: bool
  r_PublishTimeout :: int64
  r_Mandatory :: bool
  r_Immediate :: bool
  r_Durable :: bool
  r_AutoDelete :: bool

definition rabbit_DefaultConfig :: rabbit_Config where
  "rabbit_DefaultConfig =
     \<lparr>r_URL = '''', r_Host = ''localhost'', r_Port = 5672, r_Username = ''guest'', r_Password = ''guest'',
      r_VHost = ''/'', r_Exchange = '''', r_ExchType = Exchange_Topic, r_Queue = '''', r_RoutingKey = '''',
      r_BindingKeys = [], r_Prefetch = 10, r_ConsumerTag = '''', r_AutoAck = False, r_Exclusive = False,
      r_TLSEnabled = False, r_TLSConfig = None, r_TLSSkipVerify = False, r_MaxConnections = 10,
      r_MaxChannels = 100, r_ConnectionTimeout = 30 * 1000000000, r_HeartbeatInterval = 10 * 1000000000,
      r_ReconnectDelay = 1000000000, r_MaxReconnectDelay = 60 * 1000000000, r_ReconnectBackoff = Fin 2,
      r_MaxReconnectCount = 0, r_PublishConfirm = True, r_PublishTimeout = 30 * 1000000000,
      r_Mandatory = False, r_Immediate = False, r_Durable = True, r_AutoDelete = False\<rparr>"

definition rabbit_Validate :: "rabbit_Config \<Rightarrow> go_error option" where
  "rabbit_Validate c =
     (if r_URL c \<noteq> '''' then None
      else if r_Host c = '''' then Some (ErrorString ''host is required'')
      else if sint (r_Port c) \<le> 0 \<or> sint (r_Port c) > 65535
        then Some (ErrorString (''invalid port: '' @ fmt_d (sint (r_Port c))))
      else if r_Username c = '''' then Some (ErrorString ''username is required'')
      else if sint (r_MaxConnections c) < 1 then Some (ErrorString ''max_connections must be at least 1'')
      else if sint (r_Prefetch c) < 0 then Some (ErrorString ''prefetch cannot be negative'')
      else if r_ExchType c \<noteq> '''' \<and> \<not> ExchangeType_IsValid (r_ExchType c)
        then Some (ErrorString (''invalid exchange type: '' @ r_ExchType c))
      else None)"

definition ConnectionString :: "rabbit_Config \<Rightarrow> string" where
  "ConnectionString c =
     (if r_URL c \<noteq> '''' then r_URL c
      else (if r_TLSEnabled c then ''amqps'' else ''amqp'') @ ''://'' @ r_Username c @ '':'' @ r_Password c @
        ''@'' @ r_Host c @ '':'' @ fmt_d (sint (r_Port c)) @ ''/'' @ r_VHost c)"

section \<open>Producer\<close>

record 'w rabbit_Producer =
  rp_config :: rabbit_Config
  rp_connected :: bool
  rp_closed :: bool
  rp_publishFn :: "'w publish_fn option"

definition rabbit_NewProducer :: "rabbit_Config option \<Rightarrow> 'w rabbit_Producer" where
  "rabbit_NewProducer cfg =
     \<lparr>rp_config = (case cfg of None \<Rightarrow> rabbit_DefaultConfig | Some c \<Rightarrow> c), rp_connected = False,
      rp_closed = False, rp_publishFn = None\<rparr>"

definition rabbit_SetPublishFunc ::
  "'w publish_fn option \<Rightarrow> 'w rabbit_Producer \<Rightarrow> 'w rabbit_Producer" where
  "rabbit_SetPublishFunc fn p = p\<lparr>rp_publishFn := fn\<rparr>"

definition rabbit_Producer_Connect :: "'w rabbit_Producer \<Rightarrow> go_error option \<times> 'w rabbit_Producer" where
  "rabbit_Producer_Connect p =
     (if rp_connected p then (None, p)
      else case rabbit_Validate (rp_config p) of
             Some err \<Rightarrow>
               (Some (NewBrokerError ErrCodeInvalidConfig ''invalid rabbitmq producer config'' (Some err)), p)
           | None \<Rightarrow> (None, p\<lparr>rp_connected := True\<rparr>))"

definition rabbit_Producer_Close :: "'w rabbit_Producer \<Rightarrow> go_error option \<times> 'w rabbit_Producer" where
  "rabbit_Producer_Close p =
     (if rp_closed p then (None, p) else (None, p\<lparr>rp_closed := True, rp_connected := False\<rparr>))"

definition rabbit_Producer_IsConnected :: "'w rabbit_Producer \<Rightarrow> bool" where
  "rabbit_Producer_IsConnected p \<longleftrightarrow> rp_connected p \<and> \<not> rp_closed p"

definition rabbit_Publish ::
  "go_context \<Rightarrow> string \<Rightarrow> message option \<Rightarrow> 'w rabbit_Producer \<Rightarrow> 'w \<Rightarrow> go_error option \<times> 'w" where
  "rabbit_Publish ctx topic msg p w =
     (if \<not> rabbit_Producer_IsConnected p then (Some (Sentinel ErrNotConnected), w)
      else case msg of
             None \<Rightarrow> (Some (Sentinel ErrMessageInvalid), w)
           | Some m \<Rightarrow> (case rp_publishFn p of Some fn \<Rightarrow> fn ctx topic m w | None \<Rightarrow> (None, w)))"

definition rabbit_Producer_Config :: "'w rabbit_Producer \<Rightarrow> rabbit_Config" where
  "rabbit_Producer_Config p = rp_config p"

section \<open>Consumer\<close>

record 'h rabbitSubscription =
  rs_id :: string
  rs_topic :: string
  rs_queue :: string
  rs_handler :: 'h
  rs_cancelCh :: signal_chan
  rs_active :: bool

record rabbit_Consumer =
  rc_config :: rabbit_Config
  rc_connected :: bool
  rc_closed :: bool
  rc_subscriptions :: "string \<rightharpoonup> nat"
  rc_subCounter :: int64

record 'h rabbit_world =
  rcon :: rabbit_Consumer
  rheap :: "'h rabbitSubscription list"
  rticks :: nat

definition rs_at :: "'h rabbit_world \<Rightarrow> nat \<Rightarrow> 'h rabbitSubscription option" where
  "rs_at w a = (if a < length (rheap w) then Some (rheap w ! a) else None)"

definition rabbitSubscription_Unsubscribe ::
  "nat \<Rightarrow> 'h rabbit_world \<Rightarrow> go_panic + (go_error option \<times> 'h rabbit_world)" where
  "rabbitSubscription_Unsubscribe a w =
     (case rs_at w a of
        None \<Rightarrow> Inr (None, w)
      | Some s \<Rightarrow>
          if \<not> rs_active s then Inr (None, w)
          else case close_chan (rs_cancelCh s) of
                 Inl p \<Rightarrow> Inl p
               | Inr c \<Rightarrow> Inr (None, w\<lparr>rheap := (rheap w)[a := s\<lparr>rs_active := False, rs_cancelCh := c\<rparr>]\<rparr>))"

definition rabbitSubscription_IsActive :: "'h rabbit_world \<Rightarrow> nat \<Rightarrow> bool" where
  "rabbitSubscription_IsActive w a = (case rs_at w a of None \<Rightarrow> False | Some s \<Rightarrow> rs_active s)"

definition rabbitSubscription_Topic :: "'h rabbit_world \<Rightarrow> nat \<Rightarrow> string option" where
  "rabbitSubscription_Topic w a = map_option rs_topic (rs_at w a)"

definition rabbitSubscription_ID :: "'h rabbit_world \<Rightarrow> nat \<Rightarrow> string option" where
  "rabbitSubscription_ID w a = map_option rs_id (rs_at w a)"

definition rabbit_NewConsumer :: "rabbit_Config option \<Rightarrow> rabbit_Consumer" where
  "rabbit_NewConsumer cfg =
     \<lparr>rc_config = (case cfg of None \<Rightarrow> rabbit_DefaultConfig | Some c \<Rightarrow> c), rc_connected = False,
      rc_closed = False, rc_subscriptions = Map.empty, rc_subCounter = 0\<rparr>"

definition rabbit_new_world :: "rabbit_Config option \<Rightarrow> 'h rabbit_world" where
  "rabbit_new_world cfg = \<lparr>rcon = rabbit_NewConsumer cfg, rheap = [], rticks = 0\<rparr>"

definition rabbit_Consumer_Connect :: "'h rabbit_world \<Rightarrow> go_error option \<times> 'h rabbit_world" where
  "rabbit_Consumer_Connect w =
     (if rc_connected (rcon w) then (None, w)
      else case rabbit_Validate (rc_config (rcon w)) of
             Some err \<Rightarrow>
               (Some (NewBrokerError ErrCodeInvalidConfig ''invalid rabbitmq consumer config'' (Some err)), w)
           | None \<Rightarrow> (None, w\<lparr>rcon := (rcon w)\<lparr>rc_connected := True\<rparr>\<rparr>))"

fun rabbit_cancel_all ::
  "(string \<rightharpoonup> nat) \<Rightarrow> string list \<Rightarrow> 'h rabbit_world \<Rightarrow> go_panic + 'h rabbit_world" where
  "rabbit_cancel_all subs [] w = Inr w"
| "rabbit_cancel_all subs (t # ts) w =
     (case subs t of
        None \<Rightarrow> rabbit_cancel_all subs ts w
      | Some a \<Rightarrow>
          (case rabbitSubscription_Unsubscribe a w of
             Inl p \<Rightarrow> Inl p
           | Inr (_, w') \<Rightarrow> rabbit_cancel_all subs ts w'))"

definition rabbit_Consumer_Close ::
  "string list \<Rightarrow> 'h rabbit_world \<Rightarrow> go_panic + (go_error option \<times> 'h rabbit_world)" where
  "rabbit_Consumer_Close ord w =
     (if rc_closed (rcon w) then Inr (None, w)
      else
        let w1 = w\<lparr>rcon := (rcon w)\<lparr>rc_closed := True\<rparr>\<rparr>
        in case rabbit_cancel_all (rc_subscriptions (rcon w1)) ord w1 of
             Inl p \<Rightarrow> Inl p
           | Inr w2 \<Rightarrow> Inr (None, w2\<lparr>rcon := (rcon w2)\<lparr>rc_connected := False\<rparr>\<rparr>))"

definition rabbit_Consumer_IsConnected :: "'h rabbit_world \<Rightarrow> bool" where
  "rabbit_Consumer_IsConnected w \<longleftrightarrow> rc_connected (rcon w) \<and> \<not> rc_closed (rcon w)"

definition rabbit_Subscribe ::
  "runtime \<Rightarrow> go_context \<Rightarrow> string \<Rightarrow> 'h option \<Rightarrow> 'h rabbit_world \<Rightarrow> (go_error + nat) \<times> 'h rabbit_world" where
  "rabbit_Subscribe rt ctx topic handler w =
     (if \<not> rabbit_Consumer_IsConnected w then (Inl (Sentinel ErrNotConnected), w)
      else if topic = ''''
        then (Inl (NewBrokerError ErrCodeSubscribeFailed ''topic/queue is required'' None), w)
      else case handler of
             None \<Rightarrow> (Inl (NewBrokerError ErrCodeSubscribeFailed ''handler is required'' None), w)
           | Some h \<Rightarrow>
               let n = rc_subCounter (rcon w) + 1;
                   subID = ''rabbit-sub-'' @ fmt_d (sint n) @ ''-'' @ take 8 (uuid_New rt (rticks w));
                   sub = \<lparr>rs_id = subID, rs_topic = topic, rs_queue = topic, rs_handler = h,
                          rs_cancelCh = ChanOpen, rs_active = True\<rparr>;
                   a = length (rheap w)
               in (Inr a,
                   w\<lparr>rcon := (rcon w)\<lparr>rc_subCounter := n,
                                      rc_subscriptions := (rc_subscriptions (rcon w))(topic \<mapsto> a)\<rparr>,
                     rheap := rheap w @ [sub], rticks := Suc (rticks w)\<rparr>))"

definition rabbit_Unsubscribe ::
  "string \<Rightarrow> 'h rabbit_world \<Rightarrow> go_panic + (go_error option \<times> 'h rabbit_world)" where
  "rabbit_Unsubscribe topic w =
     (case rc_subscriptions (rcon w) topic of
        None \<Rightarrow> Inr (None, w)
      | Some a \<Rightarrow>
          (case rabbitSubscription_Unsubscribe a w of
             Inl p \<Rightarrow> Inl p
           | Inr (err, w1) \<Rightarrow>
               Inr (err, w1\<lparr>rcon := (rcon w1)\<lparr>rc_subscriptions := (rc_subscriptions (rcon w1))(topic := None)\<rparr>\<rparr>)))"

definition rabbit_Consumer_Config :: "'h rabbit_world \<Rightarrow> rabbit_Config" where
  "rabbit_Consumer_Config w = rc_config (rcon w)"

section \<open>No panic\<close>

text \<open>A subscription is active exactly as long as its channel is open.\<close>

definition rabbit_inv :: "'h rabbit_world \<Rightarrow> bool" where
  "rabbit_inv w \<longleftrightarrow> (\<forall>a s. rs_at w a = Some s \<longrightarrow> rs_active s = (rs_cancelCh s = ChanOpen))"

definition rabbit_cancel :: "nat \<Rightarrow> 'h rabbit_world \<Rightarrow> go_error option \<times> 'h rabbit_world" where
  "rabbit_cancel a w = (case rabbitSubscription_Unsubscribe a w of Inl p \<Rightarrow> (None, w) | Inr r \<Rightarrow> r)"

lemma rs_at_rcon [simp]: "rs_at (w\<lparr>rcon := c\<rparr>) = rs_at w"
  by (rule ext) (simp add: rs_at_def)

lemma rabbit_inv_rcon [simp]: "rabbit_inv (w\<lparr>rcon := c\<rparr>) = rabbit_inv w"
  by (simp add: rabbit_inv_def)

lemma rabbit_cancel_safe:
  assumes "rabbit_inv w"
  shows "rabbitSubscription_Unsubscribe a w = Inr (rabbit_cancel a w)"
  using assms by (cases "rs_at w a")
    (auto simp: rabbit_inv_def rabbit_cancel_def rabbitSubscription_Unsubscribe_def)

lemma rabbit_cancel_at:
  assumes "rabbit_inv w"
  shows "rs_at (snd (rabbit_cancel a w)) b =
    (if b = a then map_option (\<lambda>s. if rs_active s then s\<lparr>rs_active := False, rs_cancelCh := ChanClosed\<rparr> else s) (rs_at w a)
     else rs_at w b)"
proof (cases "rs_at w a")
  case (Some s)
  then have "rs_active s = (rs_cancelCh s = ChanOpen)" using assms by (simp add: rabbit_inv_def)
  with Some show ?thesis
    by (cases "rs_active s")
       (auto simp: rabbit_cancel_def rabbitSubscription_Unsubscribe_def rs_at_def split: if_splits)
qed (auto simp: rabbit_cancel_def rabbitSubscription_Unsubscribe_def)

lemma rabbit_inv_cancel:
  assumes "rabbit_inv w"
  shows "rabbit_inv (snd (rabbit_cancel a w))"
  unfolding rabbit_inv_def rabbit_cancel_at [OF assms] using assms
  by (cases "rs_at w a") (auto simp: rabbit_inv_def split: if_splits)

lemma rabbit_cancel_all_safe:
  assumes "rabbit_inv w"
  shows "rabbit_cancel_all subs ts w = Inr (cancel_all rabbit_cancel subs ts w) \<and>
    rabbit_inv (cancel_all rabbit_cancel subs ts w)"
  using assms
proof (induction ts arbitrary: w)
  case (Cons t ts)
  show ?case
  proof (cases "subs t")
    case (Some a)
    with Cons.IH [OF rabbit_inv_cancel [OF Cons.prems, of a]] rabbit_cancel_safe [OF Cons.prems, of a]
    show ?thesis by (cases "rabbit_cancel a w") simp
  qed (use Cons in simp)
qed simp

lemma rabbit_Subscribe_cases:
  assumes "rabbit_Subscribe rt ctx t h w = (r, w')"
  obtains (failed) e where "r = Inl e" "w' = w"
    | (ok) sub where "r = Inr (length (rheap w))" "rheap w' = rheap w @ [sub]" "rs_topic sub = t"
        "h = Some (rs_handler sub)" "rs_active sub" "rs_cancelCh sub = ChanOpen"
proof (cases "rabbit_Consumer_IsConnected w \<and> t \<noteq> '''' \<and> h \<noteq> None")
  case True
  then obtain f where "h = Some f" by blast
  with assms True have "r = Inr (length (rheap w))" "\<exists>sub. rheap w' = rheap w @ [sub] \<and> rs_topic sub = t \<and>
      h = Some (rs_handler sub) \<and> rs_active sub \<and> rs_cancelCh sub = ChanOpen"
    by (auto simp: rabbit_Subscribe_def Let_def)
  with ok show ?thesis by blast
next
  case False
  with assms failed show ?thesis by (auto simp: rabbit_Subscribe_def split: if_splits)
qed

lemma rs_at_append:
  "rheap w' = rheap w @ [sub] \<Longrightarrow> rs_at w' a = (if a = length (rheap w) then Some sub else rs_at w a)"
  by (auto simp: rs_at_def nth_append)

lemma rs_at_None: "rs_at w (length (rheap w)) = None"
  by (simp add: rs_at_def)

lemma rabbit_inv_Subscribe:
  assumes "rabbit_inv w"
  shows "rabbit_inv (snd (rabbit_Subscribe rt ctx t h w))"
proof -
  obtain r w' where r: "rabbit_Subscribe rt ctx t h w = (r, w')" by fastforce
  then show ?thesis
    by (cases rule: rabbit_Subscribe_cases)
       (use assms r in \<open>auto simp: rabbit_inv_def rs_at_append split: if_splits\<close>)
qed

section \<open>The consumer provides the contract of \<open>subscribing\<close>\<close>

definition rabbit_active :: "'h rabbit_world \<Rightarrow> (nat \<times> string \<times> 'h option) set" where
  "rabbit_active w =
     {(a, t, h). \<exists>s. rs_at w a = Some s \<and> rs_active s \<and> rs_topic s = t \<and> h = Some (rs_handler s)}"

interpretation rabbit_sub: subscribing "rabbit_Subscribe rt" rabbit_cancel rabbit_active rabbit_inv for rt
proof (unfold_locales, goal_cases)
  case (1 w ctx t h)
  then show ?case by (rule rabbit_inv_Subscribe)
next
  case (2 w s)
  then show ?case by (rule rabbit_inv_cancel)
next
  case (3 w ctx t h s w')
  from 3(2) show ?case
    by (cases rule: rabbit_Subscribe_cases) (auto simp: rabbit_active_def rs_at_append rs_at_None split: if_splits)
next
  case (4 w ctx t h e w')
  from 4(2) show ?case by (cases rule: rabbit_Subscribe_cases) simp_all
next
  case (5 w s)
  show ?case
  proof (cases "rs_at w s")
    case (Some x)
    then show ?thesis
      by (cases "rs_active x") (auto simp: rabbit_active_def rabbit_cancel_at [OF 5] split: if_splits)
  qed (auto simp: rabbit_active_def rabbit_cancel_at [OF 5] split: if_splits)
qed

interpretation rabbit_group: selective "rabbit_Subscribe rt" rabbit_cancel rabbit_active rabbit_inv
  rabbit_Consumer_IsConnected "\<lambda>t h. t \<noteq> '''' \<and> h \<noteq> None" for rt
proof (unfold_locales, goal_cases)
  case (1 w ctx t h)
  then show ?case by (simp add: rabbit_Subscribe_def Let_def split: option.split)
next
  case (2 w ctx t h)
  then show ?case
    by (simp add: rabbit_Subscribe_def rabbit_Consumer_IsConnected_def Let_def split: option.split)
next
  case (3 w s)
  then show ?case
    by (auto simp: rabbit_cancel_def rabbitSubscription_Unsubscribe_def split: option.split sum.split)
qed

section \<open>Runs\<close>

fun rabbit_producer_call :: "'w producer_call \<Rightarrow> 'w rabbit_Producer \<Rightarrow> 'w rabbit_Producer" where
  "rabbit_producer_call PConnect p = snd (rabbit_Producer_Connect p)"
| "rabbit_producer_call PClose p = snd (rabbit_Producer_Close p)"
| "rabbit_producer_call (PSetPublish fn) p = rabbit_SetPublishFunc fn p"

interpretation rabbit_closing: closing rabbit_producer_call rp_closed rabbit_Producer_IsConnected
proof (unfold_locales, goal_cases)
  case (1 p op)
  then show ?case
    by (cases op) (auto simp: rabbit_Producer_Connect_def rabbit_Producer_Close_def rabbit_SetPublishFunc_def
        split: option.splits)
qed (simp add: rabbit_Producer_IsConnected_def)

inductive rabbit_step :: "runtime \<Rightarrow> 'h rabbit_world \<Rightarrow> 'h rabbit_world \<Rightarrow> bool" for rt where
  connect: "rabbit_step rt w (snd (rabbit_Consumer_Connect w))"
| close: "rabbit_Consumer_Close ord w = Inr (e, w') \<Longrightarrow> rabbit_step rt w w'"
| subscribe: "rabbit_step rt w (snd (rabbit_Subscribe rt ctx t h w))"
| unsubscribe: "rabbit_Unsubscribe t w = Inr (e, w') \<Longrightarrow> rabbit_step rt w w'"
| cancel: "rabbitSubscription_Unsubscribe a w = Inr (e, w') \<Longrightarrow> rabbit_step rt w w'"

definition rabbit_initial :: "'h rabbit_world \<Rightarrow> bool" where
  "rabbit_initial w \<longleftrightarrow> (\<exists>cfg. w = rabbit_new_world cfg)"

lemma rabbit_inv_step:
  assumes "rabbit_inv w" and "rabbit_step rt w w'"
  shows "rabbit_inv w'"
  using assms(2,1)
proof (cases rule: rabbit_step.cases)
  case connect
  then show ?thesis using assms(1) by (auto simp: rabbit_Consumer_Connect_def split: option.split)
next
  case (close ord e)
  with assms(1) rabbit_cancel_all_safe [of "w\<lparr>rcon := (rcon w)\<lparr>rc_closed := True\<rparr>\<rparr>" "rc_subscriptions (rcon w)" ord]
  show ?thesis by (auto simp: rabbit_Consumer_Close_def Let_def split: if_splits)
next
  case (subscribe ctx t h)
  then show ?thesis
    using assms(1) rabbit_inv_Subscribe by simp
next
  case (unsubscribe t e)
  with assms(1) rabbit_cancel_safe [OF assms(1)] rabbit_inv_cancel [OF assms(1)] show ?thesis
    by (auto simp: rabbit_Unsubscribe_def split: option.splits prod.splits) (metis snd_conv)
next
  case (cancel a e)
  with rabbit_cancel_safe [OF assms(1), of a] rabbit_inv_cancel [OF assms(1), of a] show ?thesis
    by (cases "rabbit_cancel a w") simp
qed

interpretation rabbitsys: step_invariant rabbit_initial "rabbit_step rt" rabbit_inv for rt
proof (unfold_locales, goal_cases)
  case (1 w)
  then show ?case by (auto simp: rabbit_initial_def rabbit_new_world_def rabbit_inv_def rs_at_def)
next
  case (2 w w')
  then show ?case by (rule rabbit_inv_step)
qed

section \<open>The consumer as a registry of subscriptions\<close>

text \<open>
  The calls of a client on the consumer and on the subscriptions it was handed, with what they
  return; \<open>ord\<close> is the order in which the loop of \<open>Close\<close> visits the map. A panic is a response too.
\<close>

definition outcome :: "'w \<Rightarrow> go_panic + (go_error option \<times> 'w) \<Rightarrow> consumer_response \<times> 'w" where
  "outcome w r = (case r of Inl p \<Rightarrow> (RPanic p, w) | Inr (e, w') \<Rightarrow> (RErr e, w'))"

fun rabbit_call ::
  "runtime \<Rightarrow> ((string \<rightharpoonup> nat) \<Rightarrow> string list) \<Rightarrow> 'h consumer_call \<Rightarrow> 'h rabbit_world \<Rightarrow> consumer_response \<times> 'h rabbit_world" where
  "rabbit_call rt ord CoConnect w = map_prod RErr id (rabbit_Consumer_Connect w)"
| "rabbit_call rt ord CoClose w = outcome w (rabbit_Consumer_Close (ord (rc_subscriptions (rcon w))) w)"
| "rabbit_call rt ord CoIsConnected w = (RBool (rabbit_Consumer_IsConnected w), w)"
| "rabbit_call rt ord (CoSubscribe ctx t h) w = map_prod RSub id (rabbit_Subscribe rt ctx t h w)"
| "rabbit_call rt ord (CoUnsubscribe t) w = outcome w (rabbit_Unsubscribe t w)"
| "rabbit_call rt ord (CoCancel a) w = outcome w (rabbitSubscription_Unsubscribe a w)"
| "rabbit_call rt ord (CoIsActive a) w = (RBool (rabbitSubscription_IsActive w a), w)"
| "rabbit_call rt ord (CoTopic a) w = (RName (rabbitSubscription_Topic w a), w)"

definition rabbit_refusals :: "rabbit_Config \<Rightarrow> refusals" where
  "rabbit_refusals cfg =
     \<lparr>invalid_config = map_option (\<lambda>e. NewBrokerError ErrCodeInvalidConfig ''invalid rabbitmq consumer config'' (Some e))
        (rabbit_Validate cfg),
      no_topic = NewBrokerError ErrCodeSubscribeFailed ''topic/queue is required'' None,
      no_handler = NewBrokerError ErrCodeSubscribeFailed ''handler is required'' None\<rparr>"

definition rabbit_live :: "'h rabbit_world \<Rightarrow> nat \<rightharpoonup> 'h" where
  "rabbit_live w a = (case rs_at w a of None \<Rightarrow> None | Some s \<Rightarrow> if rs_active s then Some (rs_handler s) else None)"

definition rabbit_registry :: "'h rabbit_world \<Rightarrow> 'h registry" where
  "rabbit_registry w =
     \<lparr>rg_status = (if rc_closed (rcon w) then Shut else if rc_connected (rcon w) then Open else Unconnected),
      rg_topics = map rs_topic (rheap w), rg_live = rabbit_live w, rg_current = rc_subscriptions (rcon w)\<rparr>"

definition rabbit_ok :: "rabbit_Config \<Rightarrow> 'h rabbit_world \<Rightarrow> bool" where
  "rabbit_ok cfg w \<longleftrightarrow> rabbit_inv w \<and> rc_config (rcon w) = cfg \<and> (rc_connected (rcon w) \<longrightarrow> rabbit_Validate cfg = None) \<and>
     finite (dom (rc_subscriptions (rcon w)))"

lemma rabbit_cancel_frame [simp]: "rcon (snd (rabbit_cancel a w)) = rcon w" "fst (rabbit_cancel a w) = None"
  by (auto simp: rabbit_cancel_def rabbitSubscription_Unsubscribe_def split: option.split sum.split)

lemma rabbit_live_cancel: "rabbit_inv w \<Longrightarrow> rabbit_live (snd (rabbit_cancel a w)) = (rabbit_live w)(a := None)"
  by (rule ext) (auto simp: rabbit_live_def rabbit_cancel_at split: option.split)

lemma rabbit_topics_cancel [simp]: "map rs_topic (rheap (snd (rabbit_cancel a w))) = map rs_topic (rheap w)"
  by (auto simp: rabbit_cancel_def rabbitSubscription_Unsubscribe_def rs_at_def map_update list_update_same_conv
      split: option.split sum.split)

lemma rabbit_live_rcon [simp]: "rabbit_live (w\<lparr>rcon := c\<rparr>) = rabbit_live w"
  by (rule ext) (simp add: rabbit_live_def)

lemma rabbit_cancel_all_registry:
  "rabbit_inv w \<Longrightarrow> rcon (cancel_all rabbit_cancel subs ts w) = rcon w \<and>
   map rs_topic (rheap (cancel_all rabbit_cancel subs ts w)) = map rs_topic (rheap w) \<and>
   rabbit_live (cancel_all rabbit_cancel subs ts w) =
     (\<lambda>b. if \<exists>t \<in> set ts. subs t = Some b then None else rabbit_live w b)"
proof (induction ts arbitrary: w)
  case (Cons t ts)
  then show ?case by (auto simp: rabbit_live_cancel rabbit_inv_cancel fun_eq_iff split: option.split)
qed simp

lemma rabbit_Close_eq:
  assumes "rabbit_inv w" and "\<not> rc_closed (rcon w)"
  shows "rabbit_Consumer_Close ord w = Inr (None,
    (let w2 = cancel_all rabbit_cancel (rc_subscriptions (rcon w)) ord (w\<lparr>rcon := (rcon w)\<lparr>rc_closed := True\<rparr>\<rparr>)
     in w2\<lparr>rcon := (rcon w2)\<lparr>rc_connected := False\<rparr>\<rparr>))"
  using rabbit_cancel_all_safe [of "w\<lparr>rcon := (rcon w)\<lparr>rc_closed := True\<rparr>\<rparr>" "rc_subscriptions (rcon w)" ord] assms
  by (simp add: rabbit_Consumer_Close_def Let_def)

lemma rabbit_Unsubscribe_eq:
  assumes "rabbit_inv w"
  shows "rabbit_Unsubscribe t w = Inr (None,
    case rc_subscriptions (rcon w) t of
      None \<Rightarrow> w
    | Some a \<Rightarrow> (snd (rabbit_cancel a w))\<lparr>rcon := (rcon w)\<lparr>rc_subscriptions := (rc_subscriptions (rcon w))(t := None)\<rparr>\<rparr>)"
proof (cases "rc_subscriptions (rcon w) t")
  case (Some a)
  have "rabbitSubscription_Unsubscribe a w = Inr (None, snd (rabbit_cancel a w))"
    by (simp add: rabbit_cancel_safe [OF assms] prod_eq_iff)
  with Some show ?thesis by (simp add: rabbit_Unsubscribe_def)
qed (simp add: rabbit_Unsubscribe_def)

lemma rabbit_Cancel_eq: "rabbit_inv w \<Longrightarrow> rabbitSubscription_Unsubscribe a w = Inr (None, snd (rabbit_cancel a w))"
  by (simp add: rabbit_cancel_safe prod_eq_iff)

lemma rabbit_call_Subscribe:
  assumes "rabbit_ok cfg w"
  shows "registry_call (rabbit_refusals cfg) (CoSubscribe ctx t h) (rabbit_registry w) =
    map_prod RSub rabbit_registry (rabbit_Subscribe rt ctx t h w)"
proof (cases "rabbit_Consumer_IsConnected w \<and> t \<noteq> '''' \<and> h \<noteq> None")
  case True
  then obtain f where h: "h = Some f" by blast
  let ?w = "snd (rabbit_Subscribe rt ctx t h w)"
  have "rabbit_live ?w = (rabbit_live w)(length (rheap w) \<mapsto> f)"
    using True h by (auto simp: rabbit_Subscribe_def Let_def rabbit_live_def rs_at_def nth_append fun_eq_iff)
  moreover have "map rs_topic (rheap ?w) = map rs_topic (rheap w) @ [t]"
    "rc_subscriptions (rcon ?w) = (rc_subscriptions (rcon w))(t \<mapsto> length (rheap w))"
    "rc_closed (rcon ?w) = rc_closed (rcon w)" "rc_connected (rcon ?w) = rc_connected (rcon w)"
    "fst (rabbit_Subscribe rt ctx t h w) = Inr (length (rheap w))"
    using True h by (simp_all add: rabbit_Subscribe_def Let_def)
  ultimately show ?thesis
    using True h
    by (simp add: rabbit_registry_def rabbit_Consumer_IsConnected_def Let_def map_prod_def case_prod_unfold)
next
  case False
  then show ?thesis
    by (auto simp: rabbit_Subscribe_def rabbit_registry_def rabbit_refusals_def rabbit_Consumer_IsConnected_def
        split: option.split)
qed

lemma rabbit_call_Close:
  assumes "rabbit_ok cfg w" and "\<forall>m. finite (dom m) \<longrightarrow> iteration_of m (ord m)"
  shows "registry_call (rabbit_refusals cfg) CoClose (rabbit_registry w) =
    map_prod id rabbit_registry (outcome w (rabbit_Consumer_Close (ord (rc_subscriptions (rcon w))) w))"
proof (cases "rc_closed (rcon w)")
  case False
  let ?m = "rc_subscriptions (rcon w)" and ?w = "w\<lparr>rcon := (rcon w)\<lparr>rc_closed := True\<rparr>\<rparr>"
  from assms have "dom ?m \<subseteq> set (ord ?m)" by (simp add: rabbit_ok_def iteration_of_def)
  note off = restrict_off [OF this, of "rabbit_live w"]
  from assms(1) have inv: "rabbit_inv w" "rabbit_inv ?w" by (simp_all add: rabbit_ok_def)
  from False show ?thesis
    using rabbit_cancel_all_registry [OF inv(2), of ?m "ord ?m", unfolded rabbit_live_rcon off]
    by (simp add: outcome_def rabbit_Close_eq [OF inv(1)] Let_def rabbit_registry_def)
qed (simp add: outcome_def rabbit_Consumer_Close_def rabbit_registry_def)

lemma rabbit_ok_call:
  assumes "rabbit_ok cfg w"
  shows "rabbit_ok cfg (snd (rabbit_call rt ord c w))"
proof (cases c)
  case CoConnect
  with assms show ?thesis by (auto simp: rabbit_ok_def rabbit_Consumer_Connect_def split: option.split)
next
  case CoClose
  let ?w = "w\<lparr>rcon := (rcon w)\<lparr>rc_closed := True\<rparr>\<rparr>"
  from assms have inv: "rabbit_inv w" "rabbit_inv ?w" by (simp_all add: rabbit_ok_def)
  show ?thesis
  proof (cases "rc_closed (rcon w)")
    case False
    with CoClose assms inv show ?thesis
      by (simp add: rabbit_ok_def outcome_def rabbit_Close_eq Let_def rabbit_cancel_all_registry [OF inv(2), THEN conjunct1]
          rabbit_cancel_all_safe [OF inv(2), THEN conjunct2])
  qed (use CoClose assms in \<open>simp add: outcome_def rabbit_Consumer_Close_def\<close>)
next
  case (CoSubscribe ctx t h)
  with assms rabbit_inv_Subscribe [of w rt ctx t h] show ?thesis
    by (simp add: rabbit_ok_def) (auto simp: rabbit_Subscribe_def Let_def split: option.split)
next
  case (CoUnsubscribe t)
  with assms show ?thesis
    by (auto simp: rabbit_ok_def outcome_def rabbit_Unsubscribe_eq rabbit_inv_cancel split: option.split)
next
  case (CoCancel a)
  with assms show ?thesis by (simp add: rabbit_ok_def outcome_def rabbit_Cancel_eq rabbit_inv_cancel)
qed (use assms in \<open>auto simp: rabbit_ok_def\<close>)

interpretation rabbit_refinement: functional_refinement "rabbit_call rt ord" "registry_call (rabbit_refusals cfg)"
  rabbit_registry "\<lambda>w. rabbit_ok cfg w \<and> (\<forall>m :: string \<rightharpoonup> nat. finite (dom m) \<longrightarrow> iteration_of m (ord m))" for rt ord cfg
proof (unfold_locales, goal_cases)
  case (1 w c)
  then show ?case by (simp add: rabbit_ok_call)
next
  case (2 w c)
  then have ok: "rabbit_ok cfg w" and inv: "rabbit_inv w" by (simp_all add: rabbit_ok_def)
  show ?case
  proof (cases c)
    case CoConnect
    with ok show ?thesis
      by (auto simp: rabbit_registry_def rabbit_Consumer_Connect_def rabbit_ok_def rabbit_refusals_def split: option.split)
  next
    case CoClose
    with rabbit_call_Close [OF ok] 2 show ?thesis by (simp add: map_prod_def case_prod_unfold)
  next
    case (CoSubscribe ctx t h)
    with rabbit_call_Subscribe [OF ok, of ctx t h rt] show ?thesis by (simp add: map_prod_def case_prod_unfold)
  next
    case (CoUnsubscribe t)
    then show ?thesis
      by (auto simp: rabbit_registry_def outcome_def rabbit_Unsubscribe_eq [OF inv] rabbit_live_cancel [OF inv] split: option.split)
  next
    case (CoCancel a)
    then show ?thesis by (simp add: rabbit_registry_def outcome_def rabbit_Cancel_eq [OF inv] rabbit_live_cancel [OF inv])
  qed (auto simp: rabbit_registry_def rabbit_Consumer_IsConnected_def rabbitSubscription_IsActive_def rabbit_live_def
      rabbitSubscription_Topic_def rs_at_def split: option.split)
qed

lemma rabbit_registry_new: "rabbit_registry (rabbit_new_world cfg) = new_registry"
  by (simp add: rabbit_registry_def rabbit_new_world_def rabbit_NewConsumer_def new_registry_def rabbit_live_def rs_at_def
      fun_eq_iff)

lemma rabbit_ok_new: "rabbit_ok (rc_config (rabbit_NewConsumer cfg)) (rabbit_new_world cfg)"
  by (simp add: rabbit_ok_def rabbit_new_world_def rabbit_NewConsumer_def rabbit_inv_def rs_at_def)

section \<open>Properties\<close>

text \<open>
  C32: no sequence of calls on a RabbitMQ consumer and its subscriptions closes a channel twice.
  In every reachable state cancelling any subscription, unsubscribing any topic and closing the
  consumer return without a panic.
\<close>

theorem rabbit_never_panics:
  assumes "reachable rabbit_initial (rabbit_step rt) w"
  shows "(\<exists>r. rabbitSubscription_Unsubscribe a w = Inr r) \<and> (\<exists>r. rabbit_Unsubscribe t w = Inr r) \<and>
    (\<exists>w'. rabbit_Consumer_Close ord w = Inr (None, w'))"
proof -
  note inv = rabbitsys.inv_reachable [OF assms]
  have "rabbit_inv (w\<lparr>rcon := (rcon w)\<lparr>rc_closed := True\<rparr>\<rparr>)" using inv by simp
  from rabbit_cancel_all_safe [OF this, of "rc_subscriptions (rcon w)" ord]
  have "\<exists>w'. rabbit_Consumer_Close ord w = Inr (None, w')"
    by (simp add: rabbit_Consumer_Close_def Let_def)
  moreover have "\<exists>r. rabbit_Unsubscribe t w = Inr r"
    using rabbit_cancel_safe [OF inv] by (simp add: rabbit_Unsubscribe_def split: option.split prod.split)
  ultimately show ?thesis using rabbit_cancel_safe [OF inv] by blast
qed

theorem rabbit_never_panics_witness:
  "\<exists>w'. rabbit_Consumer_Close [''t''] (snd (rabbit_Subscribe rt_example \<lparr>ctx_deadline = None, ctx_err = None\<rparr> ''t''
     (Some True) (snd (rabbit_Consumer_Connect (rabbit_new_world None))))) = Inr (None, w')"
proof -
  have "reachable rabbit_initial (rabbit_step rt_example) (rabbit_new_world None :: bool rabbit_world)"
    by (rule reachable.start) (auto simp: rabbit_initial_def)
  then have "reachable rabbit_initial (rabbit_step rt_example)
      (snd (rabbit_Subscribe rt_example \<lparr>ctx_deadline = None, ctx_err = None\<rparr> ''t''
        (Some True) (snd (rabbit_Consumer_Connect (rabbit_new_world None)))))"
    by (blast intro: reachable.step rabbit_step.connect rabbit_step.subscribe)
  from rabbit_never_panics [OF this] show ?thesis by blast
qed

text \<open>
  C31: a RabbitMQ consumer is the same registry of subscriptions. Any sequence of calls on a new
  consumer and on the subscriptions it hands out returns exactly what the specification returns,
  errors included (only their texts differ from Kafka's), and leaves the state it describes, in whatever order
  \<open>Close\<close> visits the map. No call panics, since the specification has no such response.
\<close>

theorem rabbit_refines_registry:
  assumes "\<forall>m. finite (dom m) \<longrightarrow> iteration_of m (ord m)"
    and "run_calls (rabbit_call rt ord) calls (rabbit_new_world cfg) = (rs, w)"
  shows "run_calls (registry_call (rabbit_refusals (rc_config (rabbit_NewConsumer cfg)))) calls new_registry =
    (rs, rabbit_registry w)"
proof -
  from assms(1) rabbit_ok_new [of cfg]
  have "rabbit_ok (rc_config (rabbit_NewConsumer cfg)) (rabbit_new_world cfg) \<and> (\<forall>m. finite (dom m) \<longrightarrow> iteration_of m (ord m))"
    by simp
  from rabbit_refinement.run_refines [where rt = rt and ops = calls, OF this] assms(2) show ?thesis by (simp add: rabbit_registry_new)
qed

lemma rabbit_default_valid: "rabbit_Validate rabbit_DefaultConfig = None"
  by (simp add: rabbit_Validate_def rabbit_DefaultConfig_def ExchangeType_IsValid_def)

theorem rabbit_refines_registry_witness:
  "\<exists>w. run_calls (registry_call (rabbit_refusals rabbit_DefaultConfig))
      [CoConnect, CoSubscribe example_ctx ''t'' (Some True), CoSubscribe example_ctx ''t'' None, CoClose, CoIsActive 0] new_registry =
    ([RErr None, RSub (Inr 0), RSub (Inl (NewBrokerError ErrCodeSubscribeFailed ''handler is required'' None)), RErr None,
      RBool False], rabbit_registry w)"
proof -
  let ?calls = "[CoConnect, CoSubscribe example_ctx ''t'' (Some True), CoSubscribe example_ctx ''t'' None, CoClose, CoIsActive 0]"
  obtain rs w where r: "run_calls (rabbit_call rt_example visit) ?calls (rabbit_new_world None) = (rs, w)" by fastforce
  have "\<forall>m :: string \<rightharpoonup> nat. finite (dom m) \<longrightarrow> iteration_of m (visit m)" by (simp add: visit_iteration)
  from rabbit_refines_registry [OF this r] have "run_calls (registry_call (rabbit_refusals rabbit_DefaultConfig)) ?calls
    new_registry = (rs, rabbit_registry w)" by (simp add: rabbit_NewConsumer_def)
  moreover have "fst (run_calls (registry_call (rabbit_refusals rabbit_DefaultConfig)) ?calls new_registry) =
    [RErr None, RSub (Inr 0), RSub (Inl (NewBrokerError ErrCodeSubscribeFailed ''handler is required'' None)), RErr None,
      RBool False]"
    by (simp add: new_registry_def rabbit_refusals_def rabbit_default_valid Let_def restrict_map_def)
  ultimately show ?thesis by auto
qed

text \<open>Closing a RabbitMQ producer is final, whatever calls follow.\<close>

lemma rabbit_close_is_final:
  assumes "p' = fold rabbit_producer_call calls (snd (rabbit_Producer_Close p))"
  shows "rabbit_Publish ctx topic msg p' w = (Some (Sentinel ErrNotConnected), w)"
proof -
  have "rp_closed (snd (rabbit_Producer_Close p))" by (simp add: rabbit_Producer_Close_def)
  from rabbit_closing.stays_off [OF this, of calls] assms show ?thesis by (simp add: rabbit_Publish_def)
qed

text \<open>
  The connection string of a configuration that was validated and has no URL: the scheme
  says whether TLS is used, and the port is the decimal of a number from 1 to 65535 that can be
  read back. The default configuration is valid and connects to the local broker.
\<close>

lemma rabbit_connection_string:
  assumes "rabbit_Validate c = None" and "r_URL c = ''''"
  shows "\<exists>port. 1 \<le> port \<and> port \<le> 65535 \<and> sint (r_Port c) = int port \<and> nat_of_dec (dec_of_nat port) = port \<and>
    ConnectionString c = (if r_TLSEnabled c then ''amqps'' else ''amqp'') @ ''://'' @ r_Username c @ '':'' @
      r_Password c @ ''@'' @ r_Host c @ '':'' @ dec_of_nat port @ ''/'' @ r_VHost c \<and>
    r_Host c \<noteq> '''' \<and> r_Username c \<noteq> ''''"
proof -
  from assms have "0 < sint (r_Port c)" "sint (r_Port c) \<le> 65535" "r_Host c \<noteq> ''''" "r_Username c \<noteq> ''''"
    by (simp_all add: rabbit_Validate_def split: if_splits)
  with assms(2) show ?thesis
    by (intro exI [of _ "nat (sint (r_Port c))"]) (simp add: ConnectionString_def fmt_d_def dec_of_nat_roundtrip nat_le_iff Suc_le_eq)
qed

lemma rabbit_connection_string_default:
  "\<exists>port. int port = 5672 \<and>
     ConnectionString rabbit_DefaultConfig = ''amqp'' @ ''://'' @ ''guest'' @ '':'' @ ''guest'' @ ''@'' @ ''localhost'' @
       '':'' @ dec_of_nat port @ ''/'' @ ''/''"
proof -
  have cfg: "rabbit_Validate rabbit_DefaultConfig = None" "r_URL rabbit_DefaultConfig = ''''"
    "sint (r_Port rabbit_DefaultConfig) = 5672" "\<not> r_TLSEnabled rabbit_DefaultConfig"
    "r_Username rabbit_DefaultConfig = ''guest''" "r_Password rabbit_DefaultConfig = ''guest''"
    "r_Host rabbit_DefaultConfig = ''localhost''" "r_VHost rabbit_DefaultConfig = ''/''"
    by (simp_all add: rabbit_Validate_def rabbit_DefaultConfig_def ExchangeType_IsValid_def)
  show ?thesis
    using rabbit_connection_string [OF cfg(1,2)] unfolding cfg(3,5,6,7,8) if_not_P [OF cfg(4)] by metis
qed

end
