(* ===== verification/Interfaces.thy ===== *)
theory Interfaces
  imports Delivery Kafka RabbitMQ
begin

text \<open>
  The interfaces \<open>MessageBroker\<close> and \<open>Subscription\<close> of \<open>pkg/broker/broker.go\<close> and the options of
  \<open>pkg/broker/options.go\<close>. A value of an interface type is a record of methods over a world; the
  in-memory broker and the three kinds of subscription objects are such values.
\<close>

section \<open>Options\<close>

text \<open>The option structs have no fields, and no implementation reads the options it is given.\<close>

datatype PublishOptions = PublishOptions

type_synonym PublishOption = "PublishOptions \<Rightarrow> PublishOptions"

datatype SubscribeOptions = SubscribeOptions

type_synonym SubscribeOption = "SubscribeOptions \<Rightarrow> SubscribeOptions"

section \<open>Interfaces\<close>

record 'w Subscription =
  sub_Unsubscribe :: "'w \<Rightarrow> go_panic + (go_error option \<times> 'w)"
  sub_IsActive :: "'w \<Rightarrow> bool"
  sub_Topic :: "'w \<Rightarrow> string option"
  sub_ID :: "'w \<Rightarrow> string option"

record ('h, 'w) MessageBroker =
  mb_Connect :: "go_context \<Rightarrow> 'w \<Rightarrow> go_panic + (go_error option \<times> 'w)"
  mb_Close :: "go_context \<Rightarrow> 'w \<Rightarrow> go_panic + (go_error option \<times> 'w)"
  mb_HealthCheck :: "go_context \<Rightarrow> 'w \<Rightarrow> go_error option"
  mb_IsConnected :: "'w \<Rightarrow> bool"
  mb_Publish :: "go_context \<Rightarrow> string \<Rightarrow> message option \<Rightarrow> PublishOption list \<Rightarrow> 'w \<Rightarrow> go_panic + (go_error option \<times> 'w)"
  mb_PublishBatch :: "go_context \<Rightarrow> string \<Rightarrow> message option list \<Rightarrow> PublishOption list \<Rightarrow> 'w \<Rightarrow> go_panic + (go_error option \<times> 'w)"
  mb_Subscribe :: "go_context \<Rightarrow> string \<Rightarrow> 'h option \<Rightarrow> SubscribeOption list \<Rightarrow> 'w \<Rightarrow> (go_error + 'w Subscription) \<times> 'w"
  mb_Unsubscribe :: "string \<Rightarrow> 'w \<Rightarrow> go_error option \<times> 'w"
  mb_Type :: "'w \<Rightarrow> BrokerType"
  mb_GetMetrics :: "'w \<Rightarrow> BrokerMetrics"

section \<open>Implementations\<close>

definition inMemory_Subscription :: "nat \<Rightarrow> 'h im_world Subscription" where
  "inMemory_Subscription a =
     \<lparr>sub_Unsubscribe = (\<lambda>w. Inr (inMemorySub_Unsubscribe a w)), sub_IsActive = (\<lambda>w. inMemorySub_IsActive w a),
      sub_Topic = (\<lambda>w. inMemorySub_Topic w a), sub_ID = (\<lambda>w. inMemorySub_ID w a)\<rparr>"

definition kafka_Subscription :: "nat \<Rightarrow> 'h kafka_world Subscription" where
  "kafka_Subscription a =
     \<lparr>sub_Unsubscribe = (\<lambda>w. Inr (kafkaSubscription_Unsubscribe a w)), sub_IsActive = (\<lambda>w. kafkaSubscription_IsActive w a),
      sub_Topic = (\<lambda>w. kafkaSubscription_Topic w a), sub_ID = (\<lambda>w. kafkaSubscription_ID w a)\<rparr>"

definition rabbit_Subscription :: "nat \<Rightarrow> 'h rabbit_world Subscription" where
  "rabbit_Subscription a =
     \<lparr>sub_Unsubscribe = rabbitSubscription_Unsubscribe a, sub_IsActive = (\<lambda>w. rabbitSubscription_IsActive w a),
      sub_Topic = (\<lambda>w. rabbitSubscription_Topic w a), sub_ID = (\<lambda>w. rabbitSubscription_ID w a)\<rparr>"

text \<open>\<open>PublishBatch\<close> takes pointers: a nil message is noticed when its turn comes.\<close>

fun PublishBatch_ptr ::
  "runtime \<Rightarrow> string \<Rightarrow> message option list \<Rightarrow> 'h im_world \<Rightarrow> go_panic + (go_error option \<times> 'h im_world)" where
  "PublishBatch_ptr rt topic [] w = Inr (None, w)"
| "PublishBatch_ptr rt topic (msg # msgs) w =
     (case Publish_ptr rt topic msg w of
        Inl p \<Rightarrow> Inl p
      | Inr (Some err, w') \<Rightarrow> Inr (Some err, w')
      | Inr (None, w') \<Rightarrow> PublishBatch_ptr rt topic msgs w')"

text \<open>
  A handler is a function value, which may be nil: the handlers the broker stores are options, and
  \<open>Subscribe\<close> does not look at them. The delivery goroutine calls the handler, which panics when it is
  nil; \<open>run_goroutine\<close> is the scheduler picking one of the pending goroutines. What a handler does
  when it is called is the client's: its calls of the broker are calls of the client's program.
\<close>

definition run_goroutine :: "nat \<Rightarrow> 'h option im_world \<Rightarrow> go_panic + 'h option im_world" where
  "run_goroutine i w =
     (if length (goroutines w) \<le> i then Inr w
      else case fst (goroutines w ! i) of
             None \<Rightarrow> Inl NilDereference
           | Some h \<Rightarrow> Inr (w\<lparr>goroutines := take i (goroutines w) @ drop (Suc i) (goroutines w)\<rparr>))"

definition InMemoryBroker_MessageBroker :: "runtime \<Rightarrow> ('h, 'h option im_world) MessageBroker" where
  "InMemoryBroker_MessageBroker rt =
     \<lparr>mb_Connect = (\<lambda>ctx w. Inr (Connect w)), mb_Close = (\<lambda>ctx. Close), mb_HealthCheck = (\<lambda>ctx. HealthCheck),
      mb_IsConnected = IsConnected, mb_Publish = (\<lambda>ctx topic msg opts. Publish_ptr rt topic msg),
      mb_PublishBatch = (\<lambda>ctx topic msgs opts. PublishBatch_ptr rt topic msgs),
      mb_Subscribe = (\<lambda>ctx topic h opts w.
        let (r, w') = Subscribe rt topic h w in (map_sum id inMemory_Subscription r, w')),
      mb_Unsubscribe = Unsubscribe, mb_Type = Type, mb_GetMetrics = GetMetrics\<rparr>"

section \<open>Programs over the interface\<close>

datatype 'h broker_call =
    CConnect | CClose | CHealthCheck | CIsConnected | CPublish string "message option" "PublishOption list"
  | CPublishBatch string "message option list" "PublishOption list" | CSubscribe string "'h option" "SubscribeOption list"
  | CUnsubscribe string | CType | CGetMetrics

text \<open>
  A client also calls \<open>Unsubscribe\<close> on the subscriptions it was handed, by position, and between any
  two calls the scheduler may run a pending goroutine of the broker (\<open>Go\<close>).
\<close>

datatype 'h client_call = Broker "'h broker_call" | Cancel nat | Go nat

type_synonym 'w client = "'w \<times> 'w Subscription list"

fun call_broker :: "('h, 'w) MessageBroker \<Rightarrow> go_context \<Rightarrow> 'h broker_call \<Rightarrow> 'w client \<Rightarrow> go_panic + 'w client" where
  "call_broker mb ctx CConnect (w, subs) = map_sum id (\<lambda>(e, w'). (w', subs)) (mb_Connect mb ctx w)"
| "call_broker mb ctx CClose (w, subs) = map_sum id (\<lambda>(e, w'). (w', subs)) (mb_Close mb ctx w)"
| "call_broker mb ctx CHealthCheck (w, subs) = Inr (w, subs)"
| "call_broker mb ctx CIsConnected (w, subs) = Inr (w, subs)"
| "call_broker mb ctx (CPublish t m opts) (w, subs) = map_sum id (\<lambda>(e, w'). (w', subs)) (mb_Publish mb ctx t m opts w)"
| "call_broker mb ctx (CPublishBatch t ms opts) (w, subs) =
     map_sum id (\<lambda>(e, w'). (w', subs)) (mb_PublishBatch mb ctx t ms opts w)"
| "call_broker mb ctx (CSubscribe t h opts) (w, subs) =
     (case mb_Subscribe mb ctx t h opts w of (Inl e, w') \<Rightarrow> Inr (w', subs) | (Inr s, w') \<Rightarrow> Inr (w', subs @ [s]))"
| "call_broker mb ctx (CUnsubscribe t) (w, subs) = Inr (snd (mb_Unsubscribe mb t w), subs)"
| "call_broker mb ctx CType (w, subs) = Inr (w, subs)"
| "call_broker mb ctx CGetMetrics (w, subs) = Inr (w, subs)"

fun call_client ::
  "('h, 'w) MessageBroker \<Rightarrow> (nat \<Rightarrow> 'w \<Rightarrow> go_panic + 'w) \<Rightarrow> go_context \<Rightarrow> 'h client_call \<Rightarrow> 'w client \<Rightarrow> go_panic + 'w client" where
  "call_client mb sched ctx (Broker c) s = call_broker mb ctx c s"
| "call_client mb sched ctx (Go i) (w, subs) = map_sum id (\<lambda>w'. (w', subs)) (sched i w)"
| "call_client mb sched ctx (Cancel i) (w, subs) =
     (if i < length subs then map_sum id (\<lambda>(e, w'). (w', subs)) (sub_Unsubscribe (subs ! i) w) else Inr (w, subs))"

fun run_client ::
  "('h, 'w) MessageBroker \<Rightarrow> (nat \<Rightarrow> 'w \<Rightarrow> go_panic + 'w) \<Rightarrow> go_context \<Rightarrow> 'h client_call list \<Rightarrow> 'w client \<Rightarrow> go_panic + 'w client" where
  "run_client mb sched ctx [] s = Inr s"
| "run_client mb sched ctx (c # cs) s =
     (case call_client mb sched ctx c s of Inl p \<Rightarrow> Inl p | Inr s' \<Rightarrow> run_client mb sched ctx cs s')"

fun nil_free :: "'h client_call \<Rightarrow> bool" where
  "nil_free (Broker (CPublish t m opts)) = (m \<noteq> None)"
| "nil_free (Broker (CPublishBatch t ms opts)) = (None \<notin> set ms)"
| "nil_free (Broker (CSubscribe t h opts)) = (h \<noteq> None)"
| "nil_free c = True"

fun is_close :: "'h client_call \<Rightarrow> bool" where
  "is_close (Broker CClose) = True"
| "is_close c = False"

definition closes :: "'h client_call list \<Rightarrow> nat" where
  "closes cs = length (filter is_close cs)"

section \<open>Type soundness\<close>

lemma PublishBatch_ptr_eq:
  "None \<notin> set ms \<Longrightarrow> PublishBatch_ptr rt t ms w = Inr (PublishBatch rt t (map the ms) w)"
proof (induction ms arbitrary: w)
  case (Cons m ms)
  from Cons.prems obtain msg where m: "m = Some msg" by (cases m) simp_all
  obtain e w' where "Publish rt t msg w = (e, w')" by fastforce
  with Cons m show ?case by (cases e) (simp_all add: Publish_ptr_def)
qed simp

lemma Publish_frame:
  "stopCh (im (snd (Publish rt t m w))) = stopCh (im w)" "sub_heap (snd (Publish rt t m w)) = sub_heap w"
  by (cases "InMemoryBroker.connected (im w)"; simp add: Publish_connected Publish_not_connected)+

lemma PublishBatch_frame:
  "stopCh (im (snd (PublishBatch rt t ms w))) = stopCh (im w) \<and> length (sub_heap (snd (PublishBatch rt t ms w))) = length (sub_heap w)"
proof (induction ms arbitrary: w)
  case (Cons m ms)
  obtain e w' where p: "Publish rt t m w = (e, w')" by fastforce
  with Publish_frame [of rt t m w] have "stopCh (im w') = stopCh (im w)" "sub_heap w' = sub_heap w" by simp_all
  with Cons.IH [of w'] p show ?case by (cases e) simp_all
qed simp

text \<open>No handler that is subscribed or about to be called is nil.\<close>

definition handlers_ok :: "'h option im_world \<Rightarrow> bool" where
  "handlers_ok w \<longleftrightarrow> (\<forall>t. None \<notin> sub_handler ` set (subs_of w t)) \<and> None \<notin> fst ` set (goroutines w)"

lemma handlers_ok_Publish: "handlers_ok w \<Longrightarrow> handlers_ok (snd (Publish rt t m w))"
  by (cases "InMemoryBroker.connected (im w)")
     (force simp: handlers_ok_def Publish_connected Publish_not_connected spawn_deliveries_eq live_entries_def)+

lemma handlers_ok_PublishBatch: "handlers_ok w \<Longrightarrow> handlers_ok (snd (PublishBatch rt t ms w))"
proof (induction ms arbitrary: w)
  case (Cons m ms)
  from Cons.IH handlers_ok_Publish [OF Cons.prems, of rt t m] show ?case by (auto split: prod.splits option.splits)
qed simp

lemma handlers_ok_Subscribe: "handlers_ok w \<Longrightarrow> h \<noteq> None \<Longrightarrow> handlers_ok (snd (Subscribe rt t h w))"
  by (cases "InMemoryBroker.connected (im w)") (auto simp: handlers_ok_def Subscribe_connected Subscribe_not_connected)

lemma handlers_ok_Unsubscribe: "handlers_ok w \<Longrightarrow> handlers_ok (snd (Unsubscribe t w))"
  by (auto simp: handlers_ok_def Unsubscribe_eq)

lemma handlers_ok_Connect: "handlers_ok w \<Longrightarrow> handlers_ok (snd (Connect w))"
  by (simp add: handlers_ok_def Connect_def)

lemma handlers_ok_Close: "handlers_ok w \<Longrightarrow> Close w = Inr (e, w') \<Longrightarrow> handlers_ok w'"
  by (auto simp: handlers_ok_def Close_def split: if_splits sum.splits)

lemma handlers_ok_cancel:
  assumes "im_inv rt w" and "handlers_ok w"
  shows "handlers_ok (snd (inMemorySub_Unsubscribe a w))"
proof (cases "\<exists>s. sub_at w a = Some s \<and> ims_active s")
  case True
  then obtain s where s: "sub_at w a = Some s" "ims_active s" by blast
  from assms(1) have "subs_ok rt w" by (simp add: im_inv_def)
  from assms(2) show ?thesis
    unfolding inMemorySub_Unsubscribe_eq [OF \<open>subs_ok rt w\<close> s] by (auto simp: handlers_ok_def image_iff)
next
  case False
  with assms(2) show ?thesis by (metis inMemorySub_Unsubscribe_idle not_None_eq snd_conv)
qed

lemma run_goroutine_sound:
  assumes "im_inv rt w" and "handlers_ok w"
  shows "\<exists>w'. run_goroutine i w = Inr w' \<and> im_inv rt w' \<and> handlers_ok w' \<and> sub_heap w' = sub_heap w \<and>
    stopCh (im w') = stopCh (im w)"
proof (cases "i < length (goroutines w)")
  case True
  then have "goroutines w ! i \<in> set (goroutines w)" by simp
  with assms(2) have "fst (goroutines w ! i) \<noteq> None" unfolding handlers_ok_def by (metis imageI)
  then obtain h where "fst (goroutines w ! i) = Some h" by blast
  with True assms show ?thesis
    by (auto simp: run_goroutine_def handlers_ok_def im_inv_defs dest: in_set_takeD in_set_dropD)
qed (use assms in \<open>simp add: run_goroutine_def\<close>)

definition well_typed :: "runtime \<Rightarrow> 'h option im_world client \<Rightarrow> bool" where
  "well_typed rt s \<longleftrightarrow> im_inv rt (fst s) \<and> handlers_ok (fst s) \<and>
     (\<forall>x \<in> set (snd s). \<exists>a < length (sub_heap (fst s)). x = inMemory_Subscription a)"

lemma well_typed_frame:
  "well_typed rt (w, subs) \<Longrightarrow> im_inv rt w' \<Longrightarrow> handlers_ok w' \<Longrightarrow> length (sub_heap w) \<le> length (sub_heap w') \<Longrightarrow> well_typed rt (w', subs)"
  unfolding well_typed_def fst_conv snd_conv by (meson less_le_trans)

lemma well_typed_add:
  "well_typed rt (w, subs) \<Longrightarrow> a < length (sub_heap w) \<Longrightarrow> well_typed rt (w, subs @ [inMemory_Subscription a])"
  by (simp add: well_typed_def) blast

lemma call_client_sound:
  assumes "unique_uuids rt" and "well_typed rt s" and "nil_free c" and "is_close c \<longrightarrow> stopCh (im (fst s)) = ChanOpen"
  shows "\<exists>s'. call_client (InMemoryBroker_MessageBroker rt) run_goroutine ctx c s = Inr s' \<and> well_typed rt s' \<and>
    (\<not> is_close c \<longrightarrow> stopCh (im (fst s')) = stopCh (im (fst s)))"
proof -
  obtain w subs where s: "s = (w, subs)" by fastforce
  from assms(2) have inv: "im_inv rt w" and hs: "handlers_ok w" by (simp_all add: well_typed_def s)
  note wt = well_typed_frame [OF assms(2) [unfolded s]]
  show ?thesis
  proof (cases c)
    case (Cancel i)
    show ?thesis
    proof (cases "i < length subs")
      case True
      then have "subs ! i \<in> set subs" by simp
      with assms(2) obtain a where a: "subs ! i = inMemory_Subscription a" unfolding well_typed_def s by auto
      obtain e w' where u: "inMemorySub_Unsubscribe a w = (e, w')" by fastforce
      with im_inv_sub_Unsubscribe [OF inv, of a] handlers_ok_cancel [OF inv hs, of a] have "im_inv rt w'" "handlers_ok w'" by simp_all
      moreover have "length (sub_heap w') = length (sub_heap w)" "stopCh (im w') = stopCh (im w)"
        using u by (auto simp: inMemorySub_Unsubscribe_def Let_def split: option.splits if_splits)
      ultimately show ?thesis using wt [of w'] u True by (simp add: s Cancel a inMemory_Subscription_def)
    qed (use assms(2) in \<open>simp add: s Cancel\<close>)
  next
    case (Go i)
    from run_goroutine_sound [OF inv hs, of i] obtain w' where "run_goroutine i w = Inr w'" "im_inv rt w'" "handlers_ok w'"
      "sub_heap w' = sub_heap w" "stopCh (im w') = stopCh (im w)" by blast
    with wt [of w'] show ?thesis by (simp add: s Go)
  next
    case (Broker bc)
    show ?thesis
    proof (cases bc)
      case (CPublish t m opts)
      with assms(3) Broker obtain msg where m: "m = Some msg" by auto
      obtain e w' where p: "Publish rt t msg w = (e, w')" by fastforce
      with im_inv_Publish [OF inv, of t msg] Publish_frame [of rt t msg w] handlers_ok_Publish [OF hs, of rt t msg] wt [of w'] show ?thesis
        by (simp add: s Broker CPublish m InMemoryBroker_MessageBroker_def Publish_ptr_def)
    next
      case (CPublishBatch t ms opts)
      with assms(3) Broker have "None \<notin> set ms" by simp
      moreover obtain e w' where p: "PublishBatch rt t (map the ms) w = (e, w')" by fastforce
      ultimately show ?thesis
        using im_inv_PublishBatch [OF inv, of t "map the ms"] PublishBatch_frame [of rt t "map the ms" w]
          handlers_ok_PublishBatch [OF hs, of rt t "map the ms"] wt [of w']
        by (simp add: s Broker CPublishBatch InMemoryBroker_MessageBroker_def PublishBatch_ptr_eq)
    next
      case (CSubscribe t h opts)
      obtain r w' where p: "Subscribe rt t h w = (r, w')" by fastforce
      from im_inv_Subscribe [OF inv] assms(1) p have inv': "im_inv rt w'" by (metis snd_conv)
      from assms(3) Broker CSubscribe have "h \<noteq> None" by simp
      from handlers_ok_Subscribe [OF hs this, of rt t] p have hs': "handlers_ok w'" by simp
      show ?thesis
      proof (cases r)
        case (Inl err)
        with p have "w' = w" by (auto simp: Subscribe_def Let_def split: if_splits)
        with p Inl assms(2) show ?thesis by (simp add: s Broker CSubscribe InMemoryBroker_MessageBroker_def)
      next
        case (Inr a)
        with p have a: "a < length (sub_heap w')" "length (sub_heap w) \<le> length (sub_heap w')" "stopCh (im w') = stopCh (im w)"
          by (auto simp: Subscribe_def Let_def split: if_splits)
        have "well_typed rt (w', subs @ [inMemory_Subscription a])"
          using well_typed_add [OF wt [OF inv' hs' a(2)] a(1)] .
        with p Inr a(3) show ?thesis by (simp add: s Broker CSubscribe InMemoryBroker_MessageBroker_def)
      qed
    next
      case (CUnsubscribe t)
      have "length (sub_heap (snd (Unsubscribe t w))) = length (sub_heap w)" "stopCh (im (snd (Unsubscribe t w))) = stopCh (im w)"
        by (simp_all add: Unsubscribe_eq)
      with im_inv_Unsubscribe [OF inv, of t] handlers_ok_Unsubscribe [OF hs, of t] wt [of "snd (Unsubscribe t w)"] show ?thesis
        by (simp add: s Broker CUnsubscribe InMemoryBroker_MessageBroker_def)
    next
      case CClose
      with assms(4) Broker s have "stopCh (im w) = ChanOpen" by simp
      then have "\<exists>e w'. Close w = Inr (e, w')" by (simp add: Close_def)
      then obtain e w' where c: "Close w = Inr (e, w')" by blast
      then have "length (sub_heap w') = length (sub_heap w)" by (auto simp: Close_def split: if_splits sum.splits)
      with im_inv_Close [OF inv c] handlers_ok_Close [OF hs c] wt [of w'] c show ?thesis
        by (simp add: s Broker CClose InMemoryBroker_MessageBroker_def)
    next
      case CConnect
      have "length (sub_heap (snd (Connect w))) = length (sub_heap w)" "stopCh (im (snd (Connect w))) = stopCh (im w)"
        by (simp_all add: Connect_def)
      with im_inv_Connect [OF inv] handlers_ok_Connect [OF hs] wt [of "snd (Connect w)"] show ?thesis
        by (cases "Connect w") (simp add: s Broker CConnect InMemoryBroker_MessageBroker_def)
    qed (use assms(2) in \<open>simp_all add: s Broker\<close>)
  qed
qed

lemma run_client_sound:
  assumes "unique_uuids rt" and "well_typed rt s" and "\<forall>c \<in> set cs. nil_free c"
    and "closes cs = 0 \<or> closes cs = 1 \<and> stopCh (im (fst s)) = ChanOpen"
  shows "\<exists>s'. run_client (InMemoryBroker_MessageBroker rt) run_goroutine ctx cs s = Inr s' \<and> well_typed rt s'"
  using assms
proof (induction cs arbitrary: s)
  case (Cons c cs)
  from Cons.prems(3,4) have c: "nil_free c" "is_close c \<longrightarrow> stopCh (im (fst s)) = ChanOpen"
    by (auto simp: closes_def split: if_splits)
  from call_client_sound [OF Cons.prems(1,2) c] obtain s' where s':
    "call_client (InMemoryBroker_MessageBroker rt) run_goroutine ctx c s = Inr s'" "well_typed rt s'"
    "\<not> is_close c \<longrightarrow> stopCh (im (fst s')) = stopCh (im (fst s))" by blast
  have "closes cs = 0 \<or> closes cs = 1 \<and> stopCh (im (fst s')) = ChanOpen"
    using Cons.prems(4) s'(3) by (cases "is_close c") (auto simp: closes_def)
  from Cons.IH [OF Cons.prems(1) s'(2) _ this] Cons.prems(3) s'(1) show ?case by simp
qed simp

section \<open>Subscription objects\<close>

text \<open>
  What a holder of a \<open>Subscription\<close> relies on: its identity and topic never change, it never becomes
  active again, and \<open>Unsubscribe\<close> neither fails nor panics, however often it is called. A \<open>view\<close> is
  the identity, the topic and the activity of an allocated object.
\<close>

locale handles =
  fixes view :: "'w \<Rightarrow> 'a \<Rightarrow> (string \<times> string \<times> bool) option"
    and unsubscribe :: "'a \<Rightarrow> 'w \<Rightarrow> go_panic + (go_error option \<times> 'w)"
    and step :: "'w \<Rightarrow> 'w \<Rightarrow> bool"
    and inv :: "'w \<Rightarrow> bool"
  assumes step_inv: "inv w \<Longrightarrow> step w w' \<Longrightarrow> inv w'"
    and step_view: "inv w \<Longrightarrow> step w w' \<Longrightarrow> view w a = Some (i, t, act) \<Longrightarrow>
      \<exists>act'. view w' a = Some (i, t, act') \<and> (act' \<longrightarrow> act)"
    and unsubscribe_ok: "inv w \<Longrightarrow> view w a = Some (i, t, act) \<Longrightarrow>
      \<exists>w'. unsubscribe a w = Inr (None, w') \<and> inv w' \<and> view w' a = Some (i, t, False)"
    and unsubscribe_idle: "inv w \<Longrightarrow> view w a = Some (i, t, False) \<Longrightarrow> unsubscribe a w = Inr (None, w)"
begin

lemma view_persists:
  assumes "step\<^sup>*\<^sup>* w w'" and "inv w" and "view w a = Some (i, t, act)"
  shows "inv w' \<and> (\<exists>act'. view w' a = Some (i, t, act'))"
  using assms
proof (induction rule: rtranclp_induct)
  case (step w1 w2)
  then obtain act' where "inv w1" "view w1 a = Some (i, t, act')" by blast
  with step_inv [OF this(1) step(2)] step_view [OF this(1) step(2) this(2)] show ?case by auto
qed simp

lemma stays_cancelled:
  assumes "step\<^sup>*\<^sup>* w w'" and "inv w" and "view w a = Some (i, t, False)"
  shows "inv w' \<and> view w' a = Some (i, t, False)"
  using assms
proof (induction rule: rtranclp_induct)
  case (step w1 w2)
  then have "inv w1" "view w1 a = Some (i, t, False)" by simp_all
  with step_inv [OF this(1) step(2)] step_view [OF this(1) step(2) this(2)] show ?case by auto
qed simp

lemma cancelled_for_good:
  assumes "inv w" and "view w a = Some (i, t, act)"
  shows "\<exists>w'. unsubscribe a w = Inr (None, w') \<and>
    (\<forall>w''. step\<^sup>*\<^sup>* w' w'' \<longrightarrow> view w'' a = Some (i, t, False) \<and> unsubscribe a w'' = Inr (None, w''))"
proof -
  from unsubscribe_ok [OF assms] obtain w' where w': "unsubscribe a w = Inr (None, w')" "inv w'" "view w' a = Some (i, t, False)"
    by blast
  have "view w'' a = Some (i, t, False) \<and> unsubscribe a w'' = Inr (None, w'')" if "step\<^sup>*\<^sup>* w' w''" for w''
    using stays_cancelled [OF that w'(2,3)] unsubscribe_idle by blast
  with w'(1) show ?thesis by blast
qed

end

subsection \<open>In memory\<close>

definition im_view :: "'h im_world \<Rightarrow> nat \<Rightarrow> (string \<times> string \<times> bool) option" where
  "im_view w a = map_option (\<lambda>s. (ims_id s, ims_topic s, ims_active s)) (sub_at w a)"

definition im_world_step :: "runtime \<Rightarrow> 'h im_world \<Rightarrow> 'h im_world \<Rightarrow> bool" where
  "im_world_step rt w w' \<longleftrightarrow> (\<exists>s s'. im_next rt s s' \<and> sw s = w \<and> sw s' = w')"

lemma im_step_view:
  assumes "im_step rt s ev s'" and "sub_at (sw s) a = Some x"
  shows "\<exists>act. sub_at (sw s') a = Some (x\<lparr>ims_active := act\<rparr>) \<and> (act \<longrightarrow> ims_active x)"
  using assms
proof (cases rule: im_step.cases)
  case (subscribe t h r w)
  then have "\<exists>xs. sub_heap w = sub_heap (sw s) @ xs" by (auto simp: Subscribe_def Let_def split: if_splits)
  with assms(2) subscribe show ?thesis by (intro exI [of _ "ims_active x"]) (auto intro: sub_at_frame)
next
  case (cancel b e w)
  with assms(2) sub_at_after_cancel [of b "sw s" a] show ?thesis
    by (intro exI [of _ "if a = b then False else ims_active x"]) (cases x; auto)
next
  case (run i)
  with assms(2) show ?thesis by (intro exI [of _ "ims_active x"]) (simp add: sub_at_Some)
qed (use assms(2) in \<open>intro exI [of _ "ims_active x"], simp add: sub_at_Some sub_heap_frame\<close>)+

interpretation im_handles: handles im_view "\<lambda>a w. Inr (inMemorySub_Unsubscribe a w)" "im_world_step rt" "im_ok rt" for rt
proof (unfold_locales, goal_cases)
  case (1 w w')
  then show ?case by (auto simp: im_world_step_def im_next_def im_ok_def intro: im_step_inv)
next
  case (2 w w' a i t act)
  then obtain x where "sub_at w a = Some x" "(i, t, act) = (ims_id x, ims_topic x, ims_active x)"
    by (auto simp: im_view_def)
  with 2(2) show ?case by (auto simp: im_world_step_def im_next_def im_view_def dest!: im_step_view)
next
  case (3 w a i t act)
  then have "im_ok rt (snd (inMemorySub_Unsubscribe a w))" by (simp add: imsub.cancel_inv)
  with 3(2) sub_at_after_cancel [of a w a] show ?case
    by (cases "inMemorySub_Unsubscribe a w") (auto simp: im_view_def inMemorySub_Unsubscribe_nil dest: arg_cong [where f = fst])
next
  case (4 w a i t)
  then show ?case by (auto simp: im_view_def inMemorySub_Unsubscribe_def)
qed

subsection \<open>Kafka\<close>

definition kafka_view :: "'h kafka_world \<Rightarrow> nat \<Rightarrow> (string \<times> string \<times> bool) option" where
  "kafka_view w a = map_option (\<lambda>s. (ks_id s, ks_topic s, ks_active s)) (ks_at w a)"

definition ages :: "('w \<Rightarrow> 'a \<Rightarrow> (string \<times> string \<times> bool) option) \<Rightarrow> 'w \<Rightarrow> 'w \<Rightarrow> bool" where
  "ages view w w' \<longleftrightarrow> (\<forall>a i t act. view w a = Some (i, t, act) \<longrightarrow> (\<exists>act'. view w' a = Some (i, t, act') \<and> (act' \<longrightarrow> act)))"

lemma ages_refl: "ages view w w"
  by (simp add: ages_def)

lemma ages_trans: "ages view w1 w2 \<Longrightarrow> ages view w2 w3 \<Longrightarrow> ages view w1 w3"
  unfolding ages_def by meson

lemma ages_eq: "view w' = view w \<Longrightarrow> ages view w w'"
  by (simp add: ages_def)

lemma kafka_view_kcon [simp]: "kafka_view (w\<lparr>kcon := c\<rparr>) = kafka_view w"
  by (rule ext) (simp add: kafka_view_def)

lemma kafka_cancel_view:
  "kafka_view (snd (kafkaSubscription_Unsubscribe a w)) c =
     (if c = a then map_option (\<lambda>(i, t, act). (i, t, False)) (kafka_view w a) else kafka_view w c)"
  unfolding kafka_view_def kafka_cancel_at by (cases "ks_at w a") simp_all

lemma kafka_cancel_ages: "ages kafka_view w (snd (kafkaSubscription_Unsubscribe a w))"
  by (auto simp: ages_def kafka_cancel_view)

lemma kafka_cancel_all_ages: "ages kafka_view w (cancel_all kafkaSubscription_Unsubscribe subs ts w)"
proof (induction ts arbitrary: w)
  case (Cons t ts)
  show ?case
  proof (cases "subs t")
    case (Some a)
    then show ?thesis using ages_trans [OF kafka_cancel_ages [of w a] Cons] by simp
  qed (use Cons in simp)
qed (simp add: ages_refl)

lemma kafka_step_ages:
  assumes "kafka_step rt w w'"
  shows "ages kafka_view w w'"
  using assms
proof (cases rule: kafka_step.cases)
  case connect
  then show ?thesis by (auto simp: kafka_Consumer_Connect_def ages_refl intro: ages_eq split: option.split)
next
  case (close ord)
  then show ?thesis
    using kafka_cancel_all_ages [of "w\<lparr>kcon := (kcon w)\<lparr>kc_closed := True\<rparr>\<rparr>" "kc_subscriptions (kcon w)" ord]
    by (auto simp: kafka_Consumer_Close_def Let_def ages_refl ages_def)
next
  case (subscribe ctx t h)
  show ?thesis
  proof (cases h)
    case (Some x)
    obtain r w1 where r: "kafka_Subscribe rt ctx t (Some x) w = (r, w1)" by fastforce
    then show ?thesis
    proof (cases rule: kafka_Subscribe_cases)
      case (ok sub)
      have "ks_at w (length (kheap w)) = None" by (rule ks_at_None)
      with r subscribe Some show ?thesis
        by (auto simp: ages_def kafka_view_def ks_at_append [OF ok(2)])
    qed (use r subscribe Some in \<open>simp add: ages_refl\<close>)
  qed (use subscribe in \<open>simp add: kafka_Subscribe_def ages_refl\<close>)
next
  case (unsubscribe t)
  then show ?thesis
    using kafka_cancel_ages [of w] by (auto simp: kafka_Unsubscribe_def case_prod_unfold ages_refl ages_def split: option.split)
next
  case (cancel a)
  then show ?thesis using kafka_cancel_ages by simp
qed

interpretation kafka_handles: handles kafka_view "\<lambda>a w. Inr (kafkaSubscription_Unsubscribe a w)" "kafka_step rt" "\<lambda>w. True" for rt
proof (unfold_locales, goal_cases)
  case (2 w w' a i t act)
  then show ?case using kafka_step_ages unfolding ages_def by blast
next
  case (3 w a i t act)
  then show ?case
    using kafka_cancel_view [of a w a] kafka_cancel_frame(2) [of a w]
    by (cases "kafkaSubscription_Unsubscribe a w") simp
next
  case (4 w a i t)
  then show ?case by (auto simp: kafka_view_def kafkaSubscription_Unsubscribe_def)
qed simp

subsection \<open>RabbitMQ\<close>

definition rabbit_view :: "'h rabbit_world \<Rightarrow> nat \<Rightarrow> (string \<times> string \<times> bool) option" where
  "rabbit_view w a = map_option (\<lambda>s. (rs_id s, rs_topic s, rs_active s)) (rs_at w a)"

lemma rabbit_view_rcon [simp]: "rabbit_view (w\<lparr>rcon := c\<rparr>) = rabbit_view w"
  by (rule ext) (simp add: rabbit_view_def)

lemma rabbit_cancel_view:
  "rabbit_inv w \<Longrightarrow> rabbit_view (snd (rabbit_cancel a w)) c =
     (if c = a then map_option (\<lambda>(i, t, act). (i, t, False)) (rabbit_view w a) else rabbit_view w c)"
  by (cases "rs_at w a") (simp_all add: rabbit_view_def rabbit_cancel_at)

lemma rabbit_cancel_ages: "rabbit_inv w \<Longrightarrow> ages rabbit_view w (snd (rabbit_cancel a w))"
  by (auto simp: ages_def rabbit_cancel_view)

lemma rabbit_cancel_all_ages:
  "rabbit_inv w \<Longrightarrow> rabbit_cancel_all subs ts w = Inr w' \<Longrightarrow> ages rabbit_view w w'"
proof (induction ts arbitrary: w)
  case (Cons t ts)
  show ?case
  proof (cases "subs t")
    case (Some a)
    obtain e w1 where c: "rabbit_cancel a w = (e, w1)" by fastforce
    with Cons.prems Some rabbit_cancel_safe [OF Cons.prems(1), of a] have "rabbit_cancel_all subs ts w1 = Inr w'" by simp
    with Cons.IH [of w1] rabbit_inv_cancel [OF Cons.prems(1), of a] rabbit_cancel_ages [OF Cons.prems(1), of a] c show ?thesis
      using ages_trans by fastforce
  qed (use Cons in simp)
qed (simp add: ages_refl)

lemma rabbit_step_ages:
  assumes "rabbit_inv w" and "rabbit_step rt w w'"
  shows "ages rabbit_view w w'"
  using assms(2)
proof (cases rule: rabbit_step.cases)
  case connect
  then show ?thesis by (auto simp: rabbit_Consumer_Connect_def ages_refl intro: ages_eq split: option.split)
next
  case (close ord e)
  let ?w = "w\<lparr>rcon := (rcon w)\<lparr>rc_closed := True\<rparr>\<rparr>"
  have "rabbit_inv ?w" using assms(1) by simp
  from rabbit_cancel_all_safe [OF this, of "rc_subscriptions (rcon w)" ord] rabbit_cancel_all_ages [OF this, of "rc_subscriptions (rcon w)" ord]
  obtain w2 where "rabbit_cancel_all (rc_subscriptions (rcon w)) ord ?w = Inr w2" "ages rabbit_view ?w w2" by blast
  with close show ?thesis by (auto simp: rabbit_Consumer_Close_def ages_refl ages_def split: if_splits)
next
  case (subscribe ctx t h)
  show ?thesis
  proof (cases h)
    case (Some x)
    obtain r w1 where r: "rabbit_Subscribe rt ctx t (Some x) w = (r, w1)" by fastforce
    then show ?thesis
    proof (cases rule: rabbit_Subscribe_cases)
      case (ok sub)
      with r subscribe Some rs_at_None [of w] show ?thesis
        by (auto simp: ages_def rabbit_view_def rs_at_append [OF ok(2)])
    qed (use r subscribe Some in \<open>simp add: ages_refl\<close>)
  qed (use subscribe in \<open>simp add: rabbit_Subscribe_def ages_refl\<close>)
next
  case (unsubscribe t e)
  show ?thesis
  proof (cases "rc_subscriptions (rcon w) t")
    case (Some a)
    with unsubscribe rabbit_cancel_safe [OF assms(1), of a] rabbit_cancel_ages [OF assms(1), of a] show ?thesis
      by (cases "rabbit_cancel a w") (auto simp: rabbit_Unsubscribe_def ages_def)
  qed (use unsubscribe in \<open>simp add: rabbit_Unsubscribe_def ages_refl\<close>)
next
  case (cancel a e)
  with rabbit_cancel_safe [OF assms(1), of a] rabbit_cancel_ages [OF assms(1), of a] show ?thesis
    by (cases "rabbit_cancel a w") simp
qed

interpretation rabbit_handles: handles rabbit_view rabbitSubscription_Unsubscribe "rabbit_step rt" rabbit_inv for rt
proof (unfold_locales, goal_cases)
  case (1 w w')
  then show ?case by (rule rabbit_inv_step)
next
  case (2 w w' a i t act)
  then show ?case using rabbit_step_ages unfolding ages_def by blast
next
  case (3 w a i t act)
  have "fst (rabbit_cancel a w) = None"
    by (auto simp: rabbit_cancel_def rabbitSubscription_Unsubscribe_def split: option.splits sum.splits)
  with 3 show ?case
    using rabbit_cancel_view [OF 3(1), of a a] rabbit_cancel_safe [OF 3(1), of a] rabbit_inv_cancel [OF 3(1), of a]
    by (cases "rabbit_cancel a w") simp
next
  case (4 w a i t)
  then show ?case by (auto simp: rabbit_view_def rabbitSubscription_Unsubscribe_def)
qed

section \<open>Properties\<close>

text \<open>
  C9: the in-memory broker is a \<open>MessageBroker\<close> that a client cannot break. Take any program that
  calls its methods through the interface, in any order, with any options, and cancels the
  subscriptions it was handed, while the scheduler runs the delivery goroutines between the calls
  as it likes. If it publishes no nil message, subscribes no nil handler and closes the broker at
  most once, neither a call nor a goroutine panics, and the broker is left well formed; every
  subscription it holds has an identity and a topic.
\<close>

theorem client_programs_are_safe:
  assumes "unique_uuids rt" and "\<forall>c \<in> set cs. nil_free c" and "closes cs \<le> 1"
  shows "\<exists>w subs. run_client (InMemoryBroker_MessageBroker rt) run_goroutine ctx cs (new_world rt, []) = Inr (w, subs) \<and>
    im_inv rt w \<and> mb_Type (InMemoryBroker_MessageBroker rt) w = BrokerTypeInMemory \<and>
    (\<forall>s \<in> set subs. sub_ID s w \<noteq> None \<and> sub_Topic s w \<noteq> None)"
proof -
  have "handlers_ok (new_world rt)" by (simp add: handlers_ok_def new_world_def NewInMemoryBroker_def)
  then have "well_typed rt (new_world rt, [])" by (simp add: well_typed_def im_inv_new)
  moreover have "closes cs = 0 \<or> closes cs = 1 \<and> stopCh (im (fst (new_world rt, []))) = ChanOpen"
    using assms(3) by (auto simp: new_world_def NewInMemoryBroker_def)
  ultimately obtain w subs where r: "run_client (InMemoryBroker_MessageBroker rt) run_goroutine ctx cs (new_world rt, []) = Inr (w, subs)"
    and wt: "well_typed rt (w, subs)"
    using run_client_sound [OF assms(1) _ assms(2)] by (metis prod.exhaust)
  have "sub_ID s w \<noteq> None \<and> sub_Topic s w \<noteq> None" if "s \<in> set subs" for s
  proof -
    from wt that obtain a where "a < length (sub_heap w)" "s = inMemory_Subscription a" unfolding well_typed_def by auto
    then show ?thesis by (simp add: inMemory_Subscription_def inMemorySub_ID_def inMemorySub_Topic_def sub_at_def)
  qed
  with r wt show ?thesis by (auto simp: well_typed_def InMemoryBroker_MessageBroker_def Type_def)
qed

definition demo_client :: "bool client_call list" where
  "demo_client = [Broker CConnect, Broker (CSubscribe ''t'' (Some True) []),
     Broker (CPublish ''t'' (Some (NewMessage ''m'' 0 ''t'' None)) [id]), Cancel 0, Go 0, Cancel 0, Broker CClose, Broker CConnect]"

theorem client_programs_are_safe_witness:
  "\<exists>w subs. run_client (InMemoryBroker_MessageBroker rt_example) run_goroutine \<lparr>ctx_deadline = None, ctx_err = None\<rparr>
     demo_client (new_world rt_example, []) = Inr (w, subs) \<and> im_inv rt_example w"
proof -
  have "\<forall>c \<in> set demo_client. nil_free c" "closes demo_client \<le> 1" by (simp_all add: demo_client_def closes_def)
  from client_programs_are_safe [OF unique_uuids_example this] show ?thesis by blast
qed

text \<open>
  Each proviso is needed. A nil handler is accepted by \<open>Subscribe\<close>, and the goroutine of the next
  message panics.
\<close>

lemma nil_handler_panics:
  "run_client (InMemoryBroker_MessageBroker rt) run_goroutine ctx
     [Broker CConnect, Broker (CSubscribe t None []), Broker (CPublish t (Some m) []), Go 0] (new_world rt, []) =
   Inl NilDereference"
  by (simp add: InMemoryBroker_MessageBroker_def Connect_def Publish_ptr_def Subscribe_connected Publish_connected
      new_world_def NewInMemoryBroker_def run_goroutine_def)

definition keeps_contract :: "'w Subscription \<Rightarrow> ('w \<Rightarrow> 'w \<Rightarrow> bool) \<Rightarrow> 'w \<Rightarrow> bool" where
  "keeps_contract s step w \<longleftrightarrow>
     (\<exists>w'. sub_Unsubscribe s w = Inr (None, w') \<and>
        (\<forall>w''. step\<^sup>*\<^sup>* w' w'' \<longrightarrow> \<not> sub_IsActive s w'' \<and> sub_Topic s w'' = sub_Topic s w \<and> sub_ID s w'' = sub_ID s w \<and>
           sub_Unsubscribe s w'' = Inr (None, w'')))"

lemma keeps_contract_inMemory:
  assumes "im_ok rt w" and "im_view w a = Some (i, t, act)"
  shows "keeps_contract (inMemory_Subscription a) (im_world_step rt) w \<and> sub_Topic (inMemory_Subscription a) w = Some t"
  using assms(2) im_handles.cancelled_for_good [OF assms]
  by (fastforce simp: keeps_contract_def inMemory_Subscription_def im_view_def inMemorySub_IsActive_def
      inMemorySub_Topic_def inMemorySub_ID_def)

lemma keeps_contract_kafka:
  assumes "kafka_view w a = Some (i, t, act)"
  shows "keeps_contract (kafka_Subscription a) (kafka_step rt) w \<and> sub_Topic (kafka_Subscription a) w = Some t"
  using assms kafka_handles.cancelled_for_good [OF TrueI assms]
  by (fastforce simp: keeps_contract_def kafka_Subscription_def kafka_view_def kafkaSubscription_IsActive_def
      kafkaSubscription_Topic_def kafkaSubscription_ID_def)

lemma keeps_contract_rabbit:
  assumes "rabbit_inv w" and "rabbit_view w a = Some (i, t, act)"
  shows "keeps_contract (rabbit_Subscription a) (rabbit_step rt) w \<and> sub_Topic (rabbit_Subscription a) w = Some t"
  using assms(2) rabbit_handles.cancelled_for_good [OF assms]
  by (fastforce simp: keeps_contract_def rabbit_Subscription_def rabbit_view_def rabbitSubscription_IsActive_def
      rabbitSubscription_Topic_def rabbitSubscription_ID_def)

text \<open>
  C8: the subscriptions of all three brokers keep the contract of the interface \<open>Subscription\<close>. At
  any time after a successful \<open>Subscribe\<close>, its object names the topic; \<open>Unsubscribe\<close> returns nil and
  does not panic; and whatever is called afterwards, on the broker or on any subscription, the
  object stays inactive, keeps its topic and its identity, and a further \<open>Unsubscribe\<close> changes nothing.
\<close>

theorem subscriptions_keep_the_contract:
  assumes "im_ok rt w" and "Subscribe rt t h w = (Inr a, w1)" and "(im_world_step rt)\<^sup>*\<^sup>* w1 w2"
    and "kafka_Subscribe rt ctx t (Some h) kw = (Inr ka, kw1)" and "(kafka_step rt)\<^sup>*\<^sup>* kw1 kw2"
    and "rabbit_inv rw" and "rabbit_Subscribe rt ctx t (Some h) rw = (Inr ra, rw1)" and "(rabbit_step rt)\<^sup>*\<^sup>* rw1 rw2"
  shows "(keeps_contract (inMemory_Subscription a) (im_world_step rt) w2 \<and> sub_Topic (inMemory_Subscription a) w2 = Some t) \<and>
    (keeps_contract (kafka_Subscription ka) (kafka_step rt) kw2 \<and> sub_Topic (kafka_Subscription ka) kw2 = Some t) \<and>
    (keeps_contract (rabbit_Subscription ra) (rabbit_step rt) rw2 \<and> sub_Topic (rabbit_Subscription ra) rw2 = Some t)"
proof (intro conjI)
  from assms(1,2) im_inv_Subscribe [of rt w t h] have "im_ok rt w1" by (simp add: im_ok_def)
  moreover have "\<exists>i. im_view w1 a = Some (i, t, True)"
    using assms(2) by (auto simp: Subscribe_def Let_def im_view_def sub_at_def split: if_splits)
  ultimately obtain i act where "im_ok rt w2" "im_view w2 a = Some (i, t, act)"
    using im_handles.view_persists [OF assms(3)] by blast
  from keeps_contract_inMemory [OF this]
  show "keeps_contract (inMemory_Subscription a) (im_world_step rt) w2" "sub_Topic (inMemory_Subscription a) w2 = Some t" by simp_all
next
  have "\<exists>i. kafka_view kw1 ka = Some (i, t, True)"
    using assms(4) by (cases rule: kafka_Subscribe_cases) (auto simp: kafka_view_def ks_at_def nth_append)
  then obtain i act where "kafka_view kw2 ka = Some (i, t, act)"
    using kafka_handles.view_persists [OF assms(5)] by blast
  from keeps_contract_kafka [OF this]
  show "keeps_contract (kafka_Subscription ka) (kafka_step rt) kw2" "sub_Topic (kafka_Subscription ka) kw2 = Some t" by simp_all
next
  from assms(6,7) rabbit_inv_Subscribe [of rw rt ctx t "Some h"] have "rabbit_inv rw1" by simp
  moreover have "\<exists>i. rabbit_view rw1 ra = Some (i, t, True)"
    using assms(7) by (cases rule: rabbit_Subscribe_cases) (auto simp: rabbit_view_def rs_at_def nth_append)
  ultimately obtain i act where "rabbit_inv rw2" "rabbit_view rw2 ra = Some (i, t, act)"
    using rabbit_handles.view_persists [OF assms(8)] by blast
  from keeps_contract_rabbit [OF this]
  show "keeps_contract (rabbit_Subscription ra) (rabbit_step rt) rw2" "sub_Topic (rabbit_Subscription ra) rw2 = Some t" by simp_all
qed

lemma rabbit_demo_subscribe:
  "\<exists>a w1. rabbit_Subscribe rt_example \<lparr>ctx_deadline = None, ctx_err = None\<rparr> ''t'' (Some True)
     (snd (rabbit_Consumer_Connect (rabbit_new_world None))) = (Inr a, w1)"
proof -
  have "rabbit_Validate rabbit_DefaultConfig = None" by code_simp
  then show ?thesis
    by (simp add: rabbit_Subscribe_def rabbit_Consumer_Connect_def rabbit_new_world_def rabbit_NewConsumer_def
        rabbit_Consumer_IsConnected_def Let_def)
qed

theorem subscriptions_keep_the_contract_witness:
  "\<exists>a w1 ka kw1 ra rw1. Subscribe rt_example ''t'' True example_world = (Inr a, w1) \<and>
     keeps_contract (inMemory_Subscription a) (im_world_step rt_example) w1 \<and>
     kafka_Subscribe rt_example \<lparr>ctx_deadline = None, ctx_err = None\<rparr> ''t'' (Some True) kafka_demo = (Inr ka, kw1) \<and>
     keeps_contract (kafka_Subscription ka) (kafka_step rt_example) kw1 \<and>
     rabbit_Subscribe rt_example \<lparr>ctx_deadline = None, ctx_err = None\<rparr> ''t'' (Some True)
       (snd (rabbit_Consumer_Connect (rabbit_new_world None))) = (Inr ra, rw1) \<and>
     keeps_contract (rabbit_Subscription ra) (rabbit_step rt_example) rw1"
proof -
  let ?ctx = "\<lparr>ctx_deadline = None, ctx_err = None\<rparr>" and ?rw = "snd (rabbit_Consumer_Connect (rabbit_new_world None)) :: bool rabbit_world"
  obtain a w1 where 1: "Subscribe rt_example ''t'' True example_world = (Inr a, w1)" by (simp add: Subscribe_connected)
  obtain ka kw1 where 2: "kafka_Subscribe rt_example ?ctx ''t'' (Some True) kafka_demo = (Inr ka, kw1)"
    by (simp add: kafka_Subscribe_def Let_def)
  obtain ra rw1 where 3: "rabbit_Subscribe rt_example ?ctx ''t'' (Some True) ?rw = (Inr ra, rw1)"
    using rabbit_demo_subscribe by blast
  have "rabbit_inv (rabbit_new_world None :: bool rabbit_world)" by (simp add: rabbit_inv_def rs_at_def rabbit_new_world_def)
  then have "rabbit_inv ?rw" using rabbit_inv_step rabbit_step.connect by blast
  moreover have "im_ok rt_example example_world" by (simp add: im_ok_def im_inv_example)
  ultimately show ?thesis
    using subscriptions_keep_the_contract [OF _ 1 rtranclp.rtrancl_refl 2 rtranclp.rtrancl_refl _ 3 rtranclp.rtrancl_refl] 1 2 3 by blast
qed

end
