(* ===== verification/Fairness.thy ===== *)
theory Fairness
  imports Messaging_Prelude "HOL-Library.Multiset"
begin

text \<open>
  Infinite runs of a step relation, weak fairness of an action on a run, and two rules for
  liveness stated as locales. \<open>fair_progress\<close> is the rule of the helpful action: a state that
  is pending stays pending until the goal holds, the helpful action is possible and makes a measure
  smaller, and nothing makes it larger. \<open>handover\<close> is for things that move from one multiset,
  that only grows, to another: if each of them is moved once it can be, everything that is in the
  first at some moment is in the second at a later one. It is an instance of the first rule,
  once per element.
\<close>

section \<open>Runs\<close>

definition is_run :: "('s \<Rightarrow> 's \<Rightarrow> bool) \<Rightarrow> (nat \<Rightarrow> 's) \<Rightarrow> bool" where
  "is_run step \<sigma> \<longleftrightarrow> (\<forall>n. \<sigma> (Suc n) = \<sigma> n \<or> step (\<sigma> n) (\<sigma> (Suc n)))"

text \<open>
  An action is treated fairly if there is no moment after which it is possible for ever and never
  taken.
\<close>

definition weakly_fair :: "('s \<Rightarrow> 's \<Rightarrow> bool) \<Rightarrow> (nat \<Rightarrow> 's) \<Rightarrow> bool" where
  "weakly_fair act \<sigma> \<longleftrightarrow> (\<forall>n. \<exists>m\<ge>n. act (\<sigma> m) (\<sigma> (Suc m)) \<or> \<not> (\<exists>t. act (\<sigma> m) t))"

lemma is_run_rtranclp:
  assumes "is_run step \<sigma>" and "n \<le> m"
  shows "step\<^sup>*\<^sup>* (\<sigma> n) (\<sigma> m)"
  using assms(2)
proof (induction m rule: dec_induct)
  case (step m)
  with assms(1) show ?case by (metis is_run_def rtranclp.rtrancl_into_rtrancl)
qed simp

lemma run_monotone:
  assumes "is_run step \<sigma>" and "n \<le> m"
    and "\<And>s t. step s t \<Longrightarrow> f s \<subseteq># f t"
  shows "f (\<sigma> n) \<subseteq># f (\<sigma> m)"
  using is_run_rtranclp [OF assms(1,2)]
  by (induction rule: rtranclp_induct) (auto intro: assms(3) subset_mset.order_trans)

text \<open>Finitely many goals that persist are reached together.\<close>

lemma eventually_all:
  fixes n :: nat
  assumes "finite A" and "\<And>a. a \<in> A \<Longrightarrow> \<exists>m\<ge>n. G a m"
    and "\<And>a m m'. G a m \<Longrightarrow> m \<le> m' \<Longrightarrow> G a m'"
  shows "\<exists>m\<ge>n. \<forall>a\<in>A. G a m"
  using assms(1,2)
proof (induction A rule: finite_induct)
  case (insert a A)
  then obtain m1 where "m1 \<ge> n" "\<forall>x\<in>A. G x m1" by auto
  moreover from insert.prems [of a] obtain m2 where "m2 \<ge> n" "G a m2" by auto
  ultimately show ?case by (intro exI [of _ "max m1 m2"]) (auto intro: assms(3))
qed auto

text \<open>A finite list of states, repeating the last one, is a run that is fair to whatever is impossible there.\<close>

definition halting_run :: "'s list \<Rightarrow> nat \<Rightarrow> 's" where
  "halting_run ss n = ss ! min n (length ss - 1)"

lemma halting_run_last: "ss \<noteq> [] \<Longrightarrow> length ss - 1 \<le> n \<Longrightarrow> halting_run ss n = last ss"
  by (simp add: halting_run_def last_conv_nth min_absorb2)

lemma is_run_halting:
  assumes "successively step ss"
  shows "is_run step (halting_run ss)"
  unfolding is_run_def
proof
  fix n
  show "halting_run ss (Suc n) = halting_run ss n \<or> step (halting_run ss n) (halting_run ss (Suc n))"
  proof (cases "Suc n < length ss")
    case True
    with assms show ?thesis by (simp add: halting_run_def successively_conv_nth)
  next
    case False
    then have "min (Suc n) (length ss - 1) = min n (length ss - 1)" by simp
    then show ?thesis by (simp add: halting_run_def)
  qed
qed

lemma weakly_fair_halting:
  assumes "ss \<noteq> []" and "\<And>t. \<not> act (last ss) t"
  shows "weakly_fair act (halting_run ss)"
  unfolding weakly_fair_def
proof
  fix n
  show "\<exists>m\<ge>n. act (halting_run ss m) (halting_run ss (Suc m)) \<or> \<not> (\<exists>t. act (halting_run ss m) t)"
    using assms by (intro exI [of _ "max n (length ss - 1)"]) (simp add: halting_run_last)
qed

section \<open>The rule of the helpful action\<close>

locale fair_progress =
  fixes step :: "'s \<Rightarrow> 's \<Rightarrow> bool"
    and helpful :: "'s \<Rightarrow> 's \<Rightarrow> bool"
    and pending :: "'s \<Rightarrow> bool"
    and goal :: "'s \<Rightarrow> bool"
    and rank :: "'s \<Rightarrow> nat"
  assumes helpful_enabled: "pending s \<Longrightarrow> \<not> goal s \<Longrightarrow> \<exists>t. helpful s t"
    and helpful_moves: "\<not> helpful s s"
    and helpful_step: "helpful s t \<Longrightarrow> step s t \<Longrightarrow> pending s \<Longrightarrow> goal t \<or> rank t < rank s"
    and pending_step: "step s t \<Longrightarrow> pending s \<Longrightarrow> goal t \<or> pending t \<and> rank t \<le> rank s"
begin

lemma pending_until:
  assumes "is_run step \<sigma>" and "pending (\<sigma> n)" and "n \<le> m"
  shows "(\<exists>k\<ge>n. goal (\<sigma> k)) \<or> pending (\<sigma> m) \<and> rank (\<sigma> m) \<le> rank (\<sigma> n)"
  using assms(3)
proof (induction m rule: dec_induct)
  case base
  with assms(2) show ?case by simp
next
  case (step m)
  from assms(1) have "\<sigma> (Suc m) = \<sigma> m \<or> step (\<sigma> m) (\<sigma> (Suc m))" by (simp add: is_run_def)
  then show ?case using step.IH step.hyps pending_step [of "\<sigma> m" "\<sigma> (Suc m)"]
    by (metis le_SucI le_trans)
qed

lemma leads_to:
  assumes "is_run step \<sigma>" and "weakly_fair helpful \<sigma>" and "pending (\<sigma> n)"
  shows "\<exists>m\<ge>n. goal (\<sigma> m)"
  using assms(3)
proof (induction "rank (\<sigma> n)" arbitrary: n rule: less_induct)
  case less
  show ?case
  proof (rule ccontr)
    assume no: "\<not> (\<exists>m\<ge>n. goal (\<sigma> m))"
    from assms(2) obtain m where m: "m \<ge> n"
      "helpful (\<sigma> m) (\<sigma> (Suc m)) \<or> \<not> (\<exists>t. helpful (\<sigma> m) t)"
      by (auto simp: weakly_fair_def)
    from pending_until [OF assms(1) less.prems m(1)] no
    have p: "pending (\<sigma> m)" "rank (\<sigma> m) \<le> rank (\<sigma> n)" by blast+
    from m no p(1) helpful_enabled have h: "helpful (\<sigma> m) (\<sigma> (Suc m))" by blast
    with no m(1) p(1) pending_until [OF assms(1) less.prems, of "Suc m"] have p': "pending (\<sigma> (Suc m))"
      by (meson le_SucI)
    from assms(1) h helpful_moves have "step (\<sigma> m) (\<sigma> (Suc m))" unfolding is_run_def by metis
    with h p(1) helpful_step no m(1) have "rank (\<sigma> (Suc m)) < rank (\<sigma> m)" by (meson le_SucI)
    with p(2) less.hyps [OF _ p'] no m(1) show False by (meson le_SucI le_trans less_le_trans)
  qed
qed

end

section \<open>Handing over\<close>

locale handover =
  fixes step :: "'s \<Rightarrow> 's \<Rightarrow> bool"
    and inv :: "'s \<Rightarrow> bool"
    and owed :: "'s \<Rightarrow> 'a multiset"
    and paid :: "'s \<Rightarrow> 'a multiset"
  assumes handover_inv: "inv s \<Longrightarrow> step s t \<Longrightarrow> inv t"
    and owed_grows: "step s t \<Longrightarrow> owed s \<subseteq># owed t"
    and paid_grows: "step s t \<Longrightarrow> paid s \<subseteq># paid t"
    and payable: "inv s \<Longrightarrow> count (paid s) x < count (owed s) x \<Longrightarrow> \<exists>t. step s t \<and> count (paid s) x < count (paid t) x"

sublocale handover \<subseteq> payment: fair_progress step "\<lambda>s t. step s t \<and> count (paid s) x < count (paid t) x"
  "\<lambda>s. inv s \<and> k \<le> count (owed s) x" "\<lambda>s. k \<le> count (paid s) x" "\<lambda>s. k - count (paid s) x" for x k
proof (unfold_locales, goal_cases)
  case (1 s)
  then show ?case using payable [of s x] by auto
next
  case (4 s t)
  then show ?case
    using mset_subset_eq_count [OF owed_grows, of s t x] mset_subset_eq_count [OF paid_grows, of s t x]
      handover_inv [of s t] by auto
qed auto

context handover
begin

lemma all_paid:
  assumes "is_run step \<sigma>" and "inv (\<sigma> 0)"
    and fair: "\<And>x. weakly_fair (\<lambda>s t. step s t \<and> count (paid s) x < count (paid t) x) \<sigma>"
  shows "\<exists>m\<ge>n. owed (\<sigma> n) \<subseteq># paid (\<sigma> m)"
proof -
  have "inv (\<sigma> n)"
    using is_run_rtranclp [OF assms(1), of 0 n] by (induction rule: rtranclp_induct) (auto intro: assms(2) handover_inv)
  then have "\<exists>m\<ge>n. count (owed (\<sigma> n)) x \<le> count (paid (\<sigma> m)) x" for x
    using payment.leads_to [OF assms(1) fair, of n "count (owed (\<sigma> n)) x" x] by simp
  moreover have "count (paid (\<sigma> m)) x \<le> count (paid (\<sigma> m')) x" if "m \<le> m'" for m m' x
    by (rule mset_subset_eq_count [OF run_monotone [OF assms(1) that paid_grows]])
  ultimately have "\<exists>m\<ge>n. \<forall>x \<in> set_mset (owed (\<sigma> n)). count (owed (\<sigma> n)) x \<le> count (paid (\<sigma> m)) x"
    by (intro eventually_all) (auto intro: le_trans)
  then show ?thesis by (auto simp: subseteq_mset_def) (metis count_inI le0 le_trans)
qed

end

end
