(* ===== verification/BatchConsumer.thy ===== *)
theory BatchConsumer
  imports Message "HOL-Library.Multiset"
begin

text \<open>
  \<open>BatchConsumer\<close> of \<open>pkg/consumer/consumer.go\<close>.

  The methods first, as functions on the struct: a method that takes the lock only for a part of
  its work is split where the lock is released. Then the consumer as it runs, as a step relation:
  callers of \<open>Add\<close>, \<open>Flush\<close>, \<open>Start\<close> and \<open>Stop\<close> interleave with the
  goroutines that \<open>Start\<close> spawns. Three history variables record the messages added, the
  batches taken from the buffer and the calls of the handler.
\<close>

section \<open>The struct and its methods\<close>

record 'm BatchConsumer =
  batchSize :: int64
  flushAfter :: int64
  bc_buffer :: "'m list"
  flushCh :: "unit list"
  bc_stopCh :: signal_chan
  bc_running :: bool

definition NewBatchConsumer :: "int64 \<Rightarrow> int64 \<Rightarrow> 'm BatchConsumer" where
  "NewBatchConsumer bsize after =
     \<lparr>batchSize = (if sint bsize < 1 then 100 else bsize),
      flushAfter = (if sint after \<le> 0 then 5 * 1000000000 else after),
      bc_buffer = [], flushCh = [], bc_stopCh = ChanOpen, bc_running = False\<rparr>"

definition Add_locked :: "'m \<Rightarrow> 'm BatchConsumer \<Rightarrow> bool \<times> 'm BatchConsumer" where
  "Add_locked msg bc =
     (let bc' = bc\<lparr>bc_buffer := bc_buffer bc @ [msg]\<rparr>
      in (sint (batchSize bc') \<le> int (length (bc_buffer bc')), bc'))"

definition Add_signal :: "'m BatchConsumer \<Rightarrow> 'm BatchConsumer" where
  "Add_signal bc = (case try_send 1 (flushCh bc) () of None \<Rightarrow> bc | Some q \<Rightarrow> bc\<lparr>flushCh := q\<rparr>)"

definition bc_Add :: "'m \<Rightarrow> 'm BatchConsumer \<Rightarrow> 'm BatchConsumer" where
  "bc_Add msg bc = (let (shouldFlush, bc') = Add_locked msg bc in if shouldFlush then Add_signal bc' else bc')"

definition Flush_locked :: "'m BatchConsumer \<Rightarrow> 'm list option \<times> 'm BatchConsumer" where
  "Flush_locked bc =
     (if bc_buffer bc = [] then (None, bc) else (Some (bc_buffer bc), bc\<lparr>bc_buffer := []\<rparr>))"

definition bc_Flush ::
  "(go_context \<Rightarrow> 'm list \<Rightarrow> 'w \<Rightarrow> go_error option \<times> 'w) \<Rightarrow> go_context \<Rightarrow> 'm BatchConsumer \<Rightarrow> 'w \<Rightarrow>
   go_error option \<times> 'm BatchConsumer \<times> 'w" where
  "bc_Flush handler ctx bc w =
     (case Flush_locked bc of
        (None, bc') \<Rightarrow> (None, bc', w)
      | (Some batch, bc') \<Rightarrow> (let (e, w') = handler ctx batch w in (e, bc', w')))"

definition Start_swap :: "'m BatchConsumer \<Rightarrow> bool \<times> 'm BatchConsumer" where
  "Start_swap bc = (\<not> bc_running bc, bc\<lparr>bc_running := True\<rparr>)"

definition Stop_swap :: "'m BatchConsumer \<Rightarrow> go_panic + (bool \<times> 'm BatchConsumer)" where
  "Stop_swap bc =
     (if \<not> bc_running bc then Inr (False, bc)
      else case close_chan (bc_stopCh bc) of
             Inl p \<Rightarrow> Inl p
           | Inr c \<Rightarrow> Inr (True, bc\<lparr>bc_running := False, bc_stopCh := c\<rparr>))"

definition bc_Stop ::
  "(go_context \<Rightarrow> 'm list \<Rightarrow> 'w \<Rightarrow> go_error option \<times> 'w) \<Rightarrow> go_context \<Rightarrow> 'm BatchConsumer \<Rightarrow> 'w \<Rightarrow>
   go_panic + (go_error option \<times> 'm BatchConsumer \<times> 'w)" where
  "bc_Stop handler ctx bc w =
     (case Stop_swap bc of
        Inl p \<Rightarrow> Inl p
      | Inr (False, bc') \<Rightarrow> Inr (None, bc', w)
      | Inr (True, bc') \<Rightarrow> Inr (bc_Flush handler ctx bc' w))"

definition BufferLen :: "'m BatchConsumer \<Rightarrow> nat" where
  "BufferLen bc = length (bc_buffer bc)"

definition BatchSize :: "'m BatchConsumer \<Rightarrow> int64" where
  "BatchSize bc = batchSize bc"

definition AsHandler :: "go_context \<Rightarrow> 'm \<Rightarrow> 'm BatchConsumer \<Rightarrow> go_error option \<times> 'm BatchConsumer" where
  "AsHandler ctx msg bc = (None, bc_Add msg bc)"

section \<open>The running consumer\<close>

text \<open>
  A goroutine of \<open>Start\<close> is at its \<open>select\<close>, about to flush, in the handler with the
  batch it has taken, or has returned. Callers of \<open>Flush\<close> and \<open>Stop\<close> are about to flush
  or in the handler.
\<close>

datatype after_flush = Again | Return

datatype 'm loop_pc =
    AtSelect
  | Flushing go_context after_flush
  | Handling go_context "'m list" after_flush
  | Returned

record 'm bc_system =
  bcon :: "'m BatchConsumer"
  loops :: "(go_context \<times> 'm loop_pc) list"
  signals :: nat
  flushers :: "go_context list"
  callers :: "(go_context \<times> 'm list) list"
  added :: "'m list"
  taken :: "'m list list"
  handled :: "(go_context \<times> 'm list) list"

definition init_batch :: "int64 \<Rightarrow> int64 \<Rightarrow> 'm bc_system" where
  "init_batch bsize after =
     \<lparr>bcon = NewBatchConsumer bsize after, loops = [], signals = 0, flushers = [], callers = [],
      added = [], taken = [], handled = []\<rparr>"

fun resume :: "after_flush \<Rightarrow> 'm loop_pc" where
  "resume Again = AtSelect"
| "resume Return = Returned"

definition taken_by :: "'m list option \<Rightarrow> 'm list list" where
  "taken_by b = (case b of None \<Rightarrow> [] | Some batch \<Rightarrow> [batch])"

inductive bc_step :: "'m bc_system \<Rightarrow> 'm bc_system \<Rightarrow> bool" where
  add_locked: "Add_locked msg (bcon s) = (shouldFlush, bc') \<Longrightarrow>
    bc_step s (s\<lparr>bcon := bc', added := added s @ [msg],
                 signals := (if shouldFlush then Suc (signals s) else signals s)\<rparr>)"
| add_signal: "signals s = Suc n \<Longrightarrow> bc_step s (s\<lparr>bcon := Add_signal (bcon s), signals := n\<rparr>)"
| call_flush: "bc_step s (s\<lparr>flushers := flushers s @ [ctx]\<rparr>)"
| flush_locked: "flushers s = xs @ ctx # ys \<Longrightarrow> Flush_locked (bcon s) = (b, bc') \<Longrightarrow>
    bc_step s (s\<lparr>bcon := bc', flushers := xs @ ys, taken := taken s @ taken_by b,
                 callers := callers s @ map (Pair ctx) (taken_by b)\<rparr>)"
| flush_handler: "callers s = xs @ c # ys \<Longrightarrow>
    bc_step s (s\<lparr>callers := xs @ ys, handled := handled s @ [c]\<rparr>)"
| start: "Start_swap (bcon s) = (spawn, bc') \<Longrightarrow>
    bc_step s (s\<lparr>bcon := bc', loops := loops s @ (if spawn then [(ctx, AtSelect)] else [])\<rparr>)"
| stop: "Stop_swap (bcon s) = Inr (stopped, bc') \<Longrightarrow>
    bc_step s (s\<lparr>bcon := bc', flushers := flushers s @ (if stopped then [ctx] else [])\<rparr>)"
| loop_tick: "loops s = xs @ (ctx, AtSelect) # ys \<Longrightarrow>
    bc_step s (s\<lparr>loops := xs @ (ctx, Flushing ctx Again) # ys\<rparr>)"
| loop_signal: "loops s = xs @ (ctx, AtSelect) # ys \<Longrightarrow> try_recv (flushCh (bcon s)) = Some (u, q) \<Longrightarrow>
    bc_step s (s\<lparr>bcon := (bcon s)\<lparr>flushCh := q\<rparr>, loops := xs @ (ctx, Flushing ctx Again) # ys\<rparr>)"
| loop_stop: "loops s = xs @ (ctx, AtSelect) # ys \<Longrightarrow> bc_stopCh (bcon s) = ChanClosed \<Longrightarrow>
    bc_step s (s\<lparr>loops := xs @ (ctx, Flushing ctx Return) # ys\<rparr>)"
| loop_done: "loops s = xs @ (ctx, AtSelect) # ys \<Longrightarrow>
    bc_step s (s\<lparr>loops := xs @ (ctx, Flushing context_Background Return) # ys\<rparr>)"
| loop_flush: "loops s = xs @ (ctx, Flushing c a) # ys \<Longrightarrow> Flush_locked (bcon s) = (b, bc') \<Longrightarrow>
    bc_step s (s\<lparr>bcon := bc', taken := taken s @ taken_by b,
                 loops := xs @ (ctx, case b of None \<Rightarrow> resume a | Some batch \<Rightarrow> Handling c batch a) # ys\<rparr>)"
| loop_handler: "loops s = xs @ (ctx, Handling c batch a) # ys \<Longrightarrow>
    bc_step s (s\<lparr>loops := xs @ (ctx, resume a) # ys, handled := handled s @ [(c, batch)]\<rparr>)"

section \<open>Invariants\<close>

fun in_hand :: "'m loop_pc \<Rightarrow> 'm list list" where
  "in_hand (Handling c batch a) = [batch]"
| "in_hand _ = []"

definition batches_in_hand :: "'m bc_system \<Rightarrow> 'm list list" where
  "batches_in_hand s = map snd (callers s) @ concat (map (in_hand \<circ> snd) (loops s))"

text \<open>
  Every message that was added is in one batch that was taken, in order, or still in the buffer;
  every batch that was taken has been handed to the handler once, or is about to be; no batch is
  empty.
\<close>

definition no_loss :: "'m bc_system \<Rightarrow> bool" where
  "no_loss s \<longleftrightarrow> concat (taken s) @ bc_buffer (bcon s) = added s \<and>
     mset (taken s) = mset (map snd (handled s)) + mset (batches_in_hand s) \<and> [] \<notin> set (taken s)"

text \<open>A full buffer is going to be flushed: a signal is in the channel or on its way, or a flush has begun.\<close>

fun flushing_soon :: "'m loop_pc \<Rightarrow> bool" where
  "flushing_soon (Flushing c a) = True"
| "flushing_soon _ = False"

definition full_is_signalled :: "'m bc_system \<Rightarrow> bool" where
  "full_is_signalled s \<longleftrightarrow> length (flushCh (bcon s)) \<le> 1 \<and>
     (sint (batchSize (bcon s)) \<le> int (length (bc_buffer (bcon s))) \<longrightarrow> bc_buffer (bcon s) \<noteq> [] \<longrightarrow>
        0 < signals s \<or> flushCh (bcon s) \<noteq> [] \<or> (\<exists>l \<in> set (loops s). flushing_soon (snd l)) \<or> flushers s \<noteq> [])"

lemma resume_simps [simp]: "in_hand (resume a) = []" "\<not> flushing_soon (resume a)"
  by (cases a; simp)+

lemma Flush_locked_cases:
  assumes "Flush_locked bc = (b, bc')"
  obtains (empty) "bc_buffer bc = []" "b = None" "bc' = bc"
    | (batch) "bc_buffer bc \<noteq> []" "b = Some (bc_buffer bc)" "bc' = bc\<lparr>bc_buffer := []\<rparr>"
  using assms by (auto simp: Flush_locked_def split: if_splits)

lemma Stop_swap_frame:
  "Stop_swap bc = Inr (stopped, bc') \<Longrightarrow>
     bc_buffer bc' = bc_buffer bc \<and> flushCh bc' = flushCh bc \<and> batchSize bc' = batchSize bc"
  by (cases "bc_stopCh bc") (auto simp: Stop_swap_def split: if_splits)

lemma Start_swap_frame:
  "Start_swap bc = (spawn, bc') \<Longrightarrow>
     bc_buffer bc' = bc_buffer bc \<and> flushCh bc' = flushCh bc \<and> batchSize bc' = batchSize bc"
  by (auto simp: Start_swap_def)

lemma Add_signal_frame:
  "bc_buffer (Add_signal bc) = bc_buffer bc" "batchSize (Add_signal bc) = batchSize bc"
  by (auto simp: Add_signal_def try_send_def split: option.splits)

lemma Add_signal_token: "length (flushCh bc) \<le> 1 \<Longrightarrow> flushCh (Add_signal bc) = [()]"
  by (cases "flushCh bc") (auto simp: Add_signal_def try_send_def split: option.splits)

lemma no_loss_step:
  assumes "no_loss s" and "bc_step s t"
  shows "no_loss t"
  using assms(2,1)
proof (cases rule: bc_step.cases)
  case (flush_locked xs ctx ys b bc')
  from flush_locked(3) show ?thesis
    by (cases rule: Flush_locked_cases)
       (use flush_locked assms(1) in \<open>auto simp: no_loss_def batches_in_hand_def taken_by_def\<close>)
next
  case (loop_flush xs ctx c a ys b bc')
  from loop_flush(3) show ?thesis
    by (cases rule: Flush_locked_cases)
       (use loop_flush assms(1) in \<open>auto simp: no_loss_def batches_in_hand_def taken_by_def\<close>)
qed (use assms(1) in \<open>auto simp: no_loss_def batches_in_hand_def Add_locked_def Add_signal_frame
      dest: Stop_swap_frame Start_swap_frame\<close>)

lemma full_is_signalled_step:
  assumes "full_is_signalled s" and "bc_step s t"
  shows "full_is_signalled t"
  using assms(2,1)
proof (cases rule: bc_step.cases)
  case (flush_locked xs ctx ys b bc')
  from flush_locked(3) show ?thesis
    by (cases rule: Flush_locked_cases)
       (use flush_locked assms(1) in \<open>auto simp: full_is_signalled_def\<close>)
next
  case (loop_flush xs ctx c a ys b bc')
  from loop_flush(3) show ?thesis
    by (cases rule: Flush_locked_cases)
       (use loop_flush assms(1) in \<open>auto simp: full_is_signalled_def\<close>)
next
  case (add_signal n)
  then show ?thesis using assms(1)
    by (auto simp: full_is_signalled_def Add_signal_token)
qed (use assms(1) in \<open>auto simp: full_is_signalled_def Add_locked_def try_recv_Some
      dest: Stop_swap_frame Start_swap_frame split: if_splits\<close>)

definition initial_batch :: "'m bc_system \<Rightarrow> bool" where
  "initial_batch s \<longleftrightarrow> (\<exists>bsize after. s = init_batch bsize after)"

interpretation bcsys: step_invariant initial_batch bc_step "\<lambda>s. no_loss s \<and> full_is_signalled s"
proof (unfold_locales, goal_cases)
  case (1 s)
  then show ?case
    by (auto simp: initial_batch_def init_batch_def NewBatchConsumer_def no_loss_def batches_in_hand_def
        full_is_signalled_def)
next
  case (2 s t)
  then show ?case using no_loss_step full_is_signalled_step by blast
qed

lemma mset_concat_image: "mset (concat xss) = sum_mset (image_mset mset (mset xss))"
  by (simp add: mset_concat sum_mset_sum_list flip: mset_map)

lemma no_loss_mset:
  assumes "no_loss s"
  shows "mset (added s) = mset (concat (map snd (handled s))) + mset (concat (batches_in_hand s)) +
    mset (bc_buffer (bcon s))"
proof -
  have "mset (concat (taken s)) = mset (concat (map snd (handled s) @ batches_in_hand s))"
    using assms unfolding no_loss_def mset_concat_image by simp
  moreover have "mset (added s) = mset (concat (taken s)) + mset (bc_buffer (bcon s))"
    using assms by (metis mset_append no_loss_def)
  ultimately show ?thesis by simp
qed

section \<open>Properties\<close>

text \<open>A run for the witnesses: \<open>Start\<close>, two messages that fill the buffer, and the signal.\<close>

definition demo_msg :: "nat \<Rightarrow> message" where
  "demo_msg n = NewMessage (replicate n CHR ''m'') 0 ''t'' None"

definition demo_batch :: "message bc_system" where
  "demo_batch = (init_batch 2 1)\<lparr>
     bcon := (NewBatchConsumer 2 1)\<lparr>bc_buffer := [demo_msg 1, demo_msg 2], flushCh := [()], bc_running := True\<rparr>,
     loops := [(context_Background, AtSelect)], added := [demo_msg 1, demo_msg 2]\<rparr>"

lemma demo_batch_reachable: "reachable initial_batch bc_step demo_batch"
proof -
  let ?c = "(NewBatchConsumer 2 1 :: message BatchConsumer)\<lparr>bc_running := True\<rparr>"
  define s1 where "s1 = (init_batch 2 1)\<lparr>bcon := ?c, loops := [(context_Background, AtSelect)]\<rparr>"
  define s2 where "s2 = s1\<lparr>bcon := ?c\<lparr>bc_buffer := [demo_msg 1]\<rparr>, added := [demo_msg 1], signals := 0\<rparr>"
  define s3 where "s3 = s2\<lparr>bcon := ?c\<lparr>bc_buffer := [demo_msg 1, demo_msg 2]\<rparr>,
    added := [demo_msg 1, demo_msg 2], signals := Suc 0\<rparr>"
  note defs = s1_def s2_def s3_def init_batch_def NewBatchConsumer_def Add_locked_def Start_swap_def
  have "reachable initial_batch bc_step (init_batch 2 1 :: message bc_system)"
    by (rule reachable.start) (auto simp: initial_batch_def)
  moreover have "bc_step (init_batch 2 1) s1"
    using bc_step.start [of "init_batch 2 1" True ?c context_Background] by (simp add: defs)
  moreover have "bc_step s1 s2"
    using bc_step.add_locked [of "demo_msg 1" s1 False "?c\<lparr>bc_buffer := [demo_msg 1]\<rparr>"] by (simp add: defs)
  moreover have "bc_step s2 s3"
    using bc_step.add_locked [of "demo_msg 2" s2 True "?c\<lparr>bc_buffer := [demo_msg 1, demo_msg 2]\<rparr>"]
    by (simp add: defs)
  moreover have "bc_step s3 demo_batch"
    using bc_step.add_signal [of s3 0]
    by (simp add: defs demo_batch_def Add_signal_def try_send_def)
  ultimately show ?thesis by (blast intro: reachable.step)
qed

text \<open>
  C13: in every reachable state, under every interleaving of callers, background loops and
  handler calls, each added message has been handed to the handler in exactly one batch, or is in
  exactly one batch about to be handed over, or is in the buffer. The batches keep the order of
  the additions, and none of them is empty.
\<close>

theorem batch_exactly_once:
  assumes "reachable initial_batch bc_step s"
  shows "concat (taken s) @ bc_buffer (bcon s) = added s \<and> [] \<notin> set (taken s) \<and>
    mset (taken s) = mset (map snd (handled s)) + mset (batches_in_hand s) \<and>
    mset (added s) = mset (concat (map snd (handled s))) + mset (concat (batches_in_hand s)) +
      mset (bc_buffer (bcon s))"
  using bcsys.inv_reachable [OF assms] no_loss_mset [of s] by (simp add: no_loss_def)

theorem batch_exactly_once_witness:
  "concat (taken demo_batch) @ bc_buffer (bcon demo_batch) = [demo_msg 1, demo_msg 2] \<and>
   mset (taken demo_batch) = mset (map snd (handled demo_batch)) + mset (batches_in_hand demo_batch)"
  using batch_exactly_once [OF demo_batch_reachable] by (simp add: demo_batch_def)

text \<open>
  A full buffer does not wait for the timer. In every reachable state in which no
  \<open>Add\<close> or \<open>Flush\<close> call is under way, no loop is about to flush and one loop is at its
  \<open>select\<close>, a buffer of at least \<open>batchSize\<close> messages is handed to the handler, whole,
  by steps of that loop alone that begin with the reception of the signal.
\<close>

lemma full_batch_is_flushed:
  assumes "reachable initial_batch bc_step s"
    and "sint (BatchSize (bcon s)) \<le> int (BufferLen (bcon s))" and "BufferLen (bcon s) \<noteq> 0"
    and "signals s = 0" and "flushers s = []" and "\<forall>l \<in> set (loops s). \<not> flushing_soon (snd l)"
    and "loops s = xs @ (ctx, AtSelect) # ys"
  shows "try_recv (flushCh (bcon s)) = Some ((), []) \<and>
    (\<exists>t. bc_step\<^sup>*\<^sup>* s t \<and> bc_buffer (bcon t) = [] \<and> flushCh (bcon t) = [] \<and> loops t = loops s \<and>
         handled t = handled s @ [(ctx, bc_buffer (bcon s))])"
proof -
  from bcsys.inv_reachable [OF assms(1)] assms(2-6)
  have "flushCh (bcon s) \<noteq> []" "length (flushCh (bcon s)) \<le> 1"
    by (auto simp: full_is_signalled_def BatchSize_def BufferLen_def)
  then have tok: "flushCh (bcon s) = [()]" by (cases "flushCh (bcon s)") auto
  from assms(3) have ne: "bc_buffer (bcon s) \<noteq> []" by (simp add: BufferLen_def)
  define s1 where "s1 = s\<lparr>bcon := (bcon s)\<lparr>flushCh := []\<rparr>, loops := xs @ (ctx, Flushing ctx Again) # ys\<rparr>"
  define s2 where "s2 = s1\<lparr>bcon := (bcon s1)\<lparr>bc_buffer := []\<rparr>, taken := taken s1 @ [bc_buffer (bcon s)],
    loops := xs @ (ctx, Handling ctx (bc_buffer (bcon s)) Again) # ys\<rparr>"
  define s3 where "s3 = s2\<lparr>loops := xs @ (ctx, AtSelect) # ys, handled := handled s2 @ [(ctx, bc_buffer (bcon s))]\<rparr>"
  have "bc_step s s1" using bc_step.loop_signal [OF assms(7)] tok by (simp add: s1_def)
  moreover have "bc_step s1 s2"
    using bc_step.loop_flush [of s1 xs ctx ctx Again ys "Some (bc_buffer (bcon s))" "(bcon s1)\<lparr>bc_buffer := []\<rparr>"] ne
    by (simp add: s2_def s1_def Flush_locked_def taken_by_def)
  moreover have "bc_step s2 s3"
    using bc_step.loop_handler [of s2 xs ctx ctx "bc_buffer (bcon s)" Again ys] by (simp add: s3_def s2_def)
  ultimately have "bc_step\<^sup>*\<^sup>* s s3" by (meson converse_rtranclp_into_rtranclp rtranclp.rtrancl_refl)
  moreover have "bc_buffer (bcon s3) = []" "flushCh (bcon s3) = []" "loops s3 = loops s"
    "handled s3 = handled s @ [(ctx, bc_buffer (bcon s))]"
    using assms(7) by (simp_all add: s3_def s2_def s1_def)
  ultimately show ?thesis using tok by auto
qed

text \<open>
  C33: the three behaviours of \<open>Stop\<close>. On a running consumer it closes \<open>stopCh\<close> and
  hands everything buffered to the handler, whose error it returns. On one that was never
  started, or has been stopped, it does nothing: what is buffered stays there. On one that was
  stopped and started again it panics, because \<open>Start\<close> does not make a new channel.
\<close>

theorem batch_stop:
  "(bc_running bc \<and> bc_stopCh bc = ChanOpen \<and> bc_buffer bc \<noteq> [] \<longrightarrow>
      (\<exists>bc'. bc_Stop handler ctx bc w =
         Inr (fst (handler ctx (bc_buffer bc) w), bc', snd (handler ctx (bc_buffer bc) w)) \<and>
         BufferLen bc' = 0 \<and> \<not> bc_running bc')) \<and>
   (\<not> bc_running bc \<longrightarrow> bc_Stop handler ctx bc w = Inr (None, bc, w)) \<and>
   (bc_running bc \<and> bc_Stop handler ctx bc w = Inr (e, bc1, w1) \<longrightarrow>
      bc_Stop handler ctx (snd (Start_swap bc1)) w1 = Inl CloseOfClosedChannel)"
  by (cases "bc_stopCh bc")
     (auto simp: bc_Stop_def Stop_swap_def bc_Flush_def Flush_locked_def Start_swap_def BufferLen_def
        split: prod.splits if_splits)

theorem batch_stop_witness:
  "bc_Stop (\<lambda>ctx b w. (None, w @ b)) context_Background (snd (Start_swap
     (bc_Add (demo_msg 1) (NewBatchConsumer 2 1)))) [] \<noteq> Inl CloseOfClosedChannel \<and>
   bc_Stop (\<lambda>ctx b w. (None, w @ b)) context_Background (bc_Add (demo_msg 1) (NewBatchConsumer 2 1)) [] =
     Inr (None, bc_Add (demo_msg 1) (NewBatchConsumer 2 1), [])"
  using batch_stop [of "snd (Start_swap (bc_Add (demo_msg 1) (NewBatchConsumer 2 1)))"
      "\<lambda>ctx b w. (None, w @ b)" context_Background "[]"]
    batch_stop [of "bc_Add (demo_msg 1) (NewBatchConsumer 2 1)" "\<lambda>ctx b w. (None, w @ b)" context_Background "[]"]
  by (auto simp: Start_swap_def bc_Add_def Add_locked_def NewBatchConsumer_def)

end
