(* ===== verification/Liveness.thy ===== *)
theory Liveness
  imports Fairness Delivery BatchConsumer AsyncProducer
begin

text \<open>
  What happens sooner or later, on infinite runs of the three components that work in the
  background: the goroutines of \<open>InMemoryBroker.Publish\<close>, the loops of
  \<open>BatchConsumer.Start\<close> and those of \<open>AsyncProducer.Start\<close>. Each section names the
  actions that are treated fairly, interprets the rules of \<open>Fairness\<close> on the step relation of
  the component and combines them. Fairness to a call (a handler, a publish) says that the call
  returns; fairness to a loop says that the scheduler does not forget it and that its ticker ticks.
\<close>

section \<open>The in-memory broker\<close>

definition goroutine_runs :: "runtime \<Rightarrow> 'h \<times> message \<Rightarrow> 'h system \<Rightarrow> 'h system \<Rightarrow> bool" where
  "goroutine_runs rt d s t \<longleftrightarrow> im_next rt s t \<and> count (mset (delivered s)) d < count (mset (delivered t)) d"

lemma delivered_grows: "im_next rt s t \<Longrightarrow> mset (delivered s) \<subseteq># mset (delivered t)"
  unfolding im_next_def by (elim exE im_step.cases) simp_all

lemma goroutine_enabled:
  assumes "count (mset (delivered s)) d < count (mset (delivered s) + mset (goroutines (sw s))) d"
  shows "\<exists>t. im_next rt s t \<and> count (mset (delivered s)) d < count (mset (delivered t)) d"
proof -
  from assms have "d \<in># mset (goroutines (sw s))" by simp
  then obtain i where i: "i < length (goroutines (sw s))" "goroutines (sw s) ! i = d"
    by (auto simp: in_set_conv_nth)
  from im_step.run [OF i(1), of rt] i(2) show ?thesis
    by (intro exI conjI) (auto simp: im_next_def)
qed

interpretation im_handover: handover "im_next rt" "\<lambda>s. True"
  "\<lambda>s. mset (delivered s) + mset (goroutines (sw s))" "\<lambda>s. mset (delivered s)" for rt
proof (unfold_locales, goal_cases)
  case (2 s t)
  then show ?case by (auto simp: im_next_def dest!: im_step_conserves)
next
  case (3 s t)
  then show ?case by (rule delivered_grows)
next
  case (4 s x)
  then show ?case by (blast intro: goroutine_enabled)
qed simp

text \<open>
  C4: on every run of the in-memory broker in which each goroutine that was spawned is scheduled
  sooner or later, a message that is published is delivered, as the copy that was stored, to
  every subscription of its topic live at that moment, whatever unsubscribes or closes in between.
\<close>

theorem published_is_eventually_delivered:
  assumes "is_run (im_next rt) \<sigma>" and "\<forall>d. weakly_fair (goroutine_runs rt d) \<sigma>"
    and "im_step rt (\<sigma> n) (EPublish t m) (\<sigma> (Suc n))"
  shows "\<exists>k>n. mset (delivered (\<sigma> n)) +
      mset (a_deliveries t (a_stamp t (time_Now rt (ticks (sw (\<sigma> n)))) m) (abs_im (sw (\<sigma> n)))) \<subseteq>#
    mset (delivered (\<sigma> k))"
proof -
  let ?ds = "a_deliveries t (a_stamp t (time_Now rt (ticks (sw (\<sigma> n)))) m) (abs_im (sw (\<sigma> n)))"
  from im_handover.all_paid [OF assms(1) TrueI, of "Suc n"] assms(2)
  obtain k where k: "Suc n \<le> k" "mset (delivered (\<sigma> (Suc n))) + mset (goroutines (sw (\<sigma> (Suc n)))) \<subseteq># mset (delivered (\<sigma> k))"
    by (auto simp: goroutine_runs_def [abs_def])
  from im_step_conserves [OF assms(3)]
  have "mset (delivered (\<sigma> n)) + mset ?ds \<subseteq># mset (delivered (\<sigma> (Suc n))) + mset (goroutines (sw (\<sigma> (Suc n))))"
    by (simp add: spawned_by_def)
  with k show ?thesis by (intro exI [of _ k]) (auto intro: subset_mset.order_trans)
qed


text \<open>A run for the witness: a subscription, a message, and its delivery.\<close>

definition demo_subscribed :: "bool system" where
  "demo_subscribed = (init_system rt_example)\<lparr>sw :=
     snd (Subscribe rt_example ''t'' True (snd (Connect (new_world rt_example))))\<rparr>"

definition demo_published :: "bool system" where
  "demo_published = demo_subscribed\<lparr>sw :=
     snd (Publish rt_example ''t'' (NewMessage ''i'' 0 ''t'' (Some [7])) (sw demo_subscribed))\<rparr>"

definition demo_delivery_run :: "bool system list" where
  "demo_delivery_run = [demo_subscribed, demo_published,
     demo_published\<lparr>sw := (sw demo_published)\<lparr>goroutines := []\<rparr>, delivered := goroutines (sw demo_published)\<rparr>]"

lemma demo_owed:
  "map fst (goroutines (sw demo_published)) = [True]"
  "map fst (a_deliveries ''t'' (a_stamp ''t'' (time_Now rt_example (ticks (sw demo_subscribed)))
     (NewMessage ''i'' 0 ''t'' (Some [7]))) (abs_im (sw demo_subscribed))) = [True]"
  by code_simp+

lemma demo_delivery_steps:
  "im_step rt_example demo_subscribed (EPublish ''t'' (NewMessage ''i'' 0 ''t'' (Some [7]))) demo_published"
  "successively (im_next rt_example) demo_delivery_run"
proof -
  show p: "im_step rt_example demo_subscribed (EPublish ''t'' (NewMessage ''i'' 0 ''t'' (Some [7]))) demo_published"
    by (rule exec_event_sound) (simp add: demo_published_def)
  from demo_owed(1) obtain g where g: "goroutines (sw demo_published) = [g]" by auto
  have "delivered demo_published = []" by (simp add: demo_published_def demo_subscribed_def init_system_def)
  with im_step.run [of 0 demo_published rt_example] g
  have "im_step rt_example demo_published (ERun 0) (last demo_delivery_run)" by (simp add: demo_delivery_run_def)
  with p show "successively (im_next rt_example) demo_delivery_run"
    by (auto simp: demo_delivery_run_def im_next_def)
qed

lemma demo_delivery_fair: "weakly_fair (goroutine_runs rt_example d) (halting_run demo_delivery_run)"
proof (rule weakly_fair_halting)
  fix t
  have "goroutines (sw (last demo_delivery_run)) = []" by (simp add: demo_delivery_run_def)
  then show "\<not> goroutine_runs rt_example d (last demo_delivery_run) t"
    unfolding goroutine_runs_def im_next_def by (auto elim!: im_step.cases)
qed (simp add: demo_delivery_run_def)

theorem published_is_eventually_delivered_witness:
  "\<exists>k>0. True \<in> fst ` set (delivered (halting_run demo_delivery_run k))"
proof -
  have n: "halting_run demo_delivery_run 0 = demo_subscribed" "halting_run demo_delivery_run (Suc 0) = demo_published"
    by (simp_all add: halting_run_def demo_delivery_run_def)
  from published_is_eventually_delivered [OF is_run_halting [OF demo_delivery_steps(2)], where n = 0 and t = "''t''" and m = "NewMessage ''i'' 0 ''t'' (Some [7])"] demo_delivery_fair
    demo_delivery_steps(1)
  obtain k where "k > 0" "mset (delivered demo_subscribed) + mset (a_deliveries ''t'' (a_stamp ''t''
      (time_Now rt_example (ticks (sw demo_subscribed))) (NewMessage ''i'' 0 ''t'' (Some [7]))) (abs_im (sw demo_subscribed)))
      \<subseteq># mset (delivered (halting_run demo_delivery_run k))"
    unfolding n by blast
  moreover from demo_owed(2) obtain c where "a_deliveries ''t'' (a_stamp ''t''
      (time_Now rt_example (ticks (sw demo_subscribed))) (NewMessage ''i'' 0 ''t'' (Some [7]))) (abs_im (sw demo_subscribed)) =
      [(True, c)]" by auto
  ultimately have "k > 0" "(True, c) \<in> set (delivered (halting_run demo_delivery_run k))"
    by (auto dest: mset_subset_eqD)
  then show ?thesis by (intro exI [of _ k]) (metis fst_conv image_eqI)
qed

lemma prefix_of_longer:
  assumes "us @ vs = xs @ ys" and "length xs \<le> length us"
  shows "mset xs \<subseteq># mset us"
proof -
  from assms have "take (length xs) us = xs"
    by (metis append_eq_conv_conj take_append diff_is_0_eq take0 append.right_neutral)
  then show ?thesis by (metis append_take_drop_id mset_append mset_subset_eq_add_left)
qed

section \<open>The batch consumer\<close>

text \<open>
  The actions that are treated fairly: a background loop moves on (its ticker fires, its flush gets
  the lock, its handler returns), and a handler that was given a batch returns. A loop is serving
  until it has decided to return.
\<close>

definition loop_moves :: "nat \<Rightarrow> 'm bc_system \<Rightarrow> 'm bc_system \<Rightarrow> bool" where
  "loop_moves i s t \<longleftrightarrow> bc_step s t \<and> i < length (loops s) \<and> loops t ! i \<noteq> loops s ! i"

definition handler_returns :: "'m list \<Rightarrow> 'm bc_system \<Rightarrow> 'm bc_system \<Rightarrow> bool" where
  "handler_returns b s t \<longleftrightarrow> bc_step s t \<and>
     count (mset (map snd (handled s))) b < count (mset (map snd (handled t))) b"

fun serving :: "'m loop_pc \<Rightarrow> bool" where
  "serving AtSelect = True"
| "serving (Flushing c a) = True"
| "serving (Handling c batch a) = (a = Again)"
| "serving Returned = False"

fun until_flush :: "'m loop_pc \<Rightarrow> nat" where
  "until_flush (Handling c batch a) = 2"
| "until_flush AtSelect = 1"
| "until_flush _ = 0"

lemma bc_step_handled:
  assumes "bc_step s t"
  shows "mset (taken s) \<subseteq># mset (taken t)" "mset (map snd (handled s)) \<subseteq># mset (map snd (handled t))"
    "length (concat (taken s)) \<le> length (concat (taken t))"
  using assms by (cases rule: bc_step.cases; simp)+

lemma handler_enabled:
  assumes "no_loss s" and "count (mset (map snd (handled s))) b < count (mset (taken s)) b"
  shows "\<exists>t. bc_step s t \<and> count (mset (map snd (handled s))) b < count (mset (map snd (handled t))) b"
proof -
  from assms have "b \<in># mset (batches_in_hand s)" by (auto simp: no_loss_def) 
  then consider c where "c \<in> set (callers s)" "snd c = b" | l where "l \<in> set (loops s)" "b \<in> set (in_hand (snd l))"
    by (auto simp: batches_in_hand_def)
  then show ?thesis
  proof cases
    case 1
    then obtain xs ys where "callers s = xs @ c # ys" by (meson split_list)
    from bc_step.flush_handler [OF this] 1 show ?thesis by (intro exI conjI) auto
  next
    case 2
    obtain ctx pc where "l = (ctx, pc)" by fastforce
    with 2 obtain k a where "(ctx, Handling k b a) \<in> set (loops s)" by (cases pc) auto
    then obtain xs ys where "loops s = xs @ (ctx, Handling k b a) # ys" by (meson split_list)
    from bc_step.loop_handler [OF this] show ?thesis by (intro exI conjI) auto
  qed
qed

interpretation bc_handover: handover bc_step no_loss "\<lambda>s. mset (taken s)" "\<lambda>s. mset (map snd (handled s))"
  by unfold_locales (use no_loss_step bc_step_handled handler_enabled in blast)+

text \<open>What one step does to the loop \<open>i\<close>.\<close>

lemma loop_after_step:
  assumes "bc_step s t" and "i < length (loops s)" and "no_loss s" and "serving (snd (loops s ! i))"
    and "k < length (added s)"
  shows "i < length (loops t) \<and> k < length (added t) \<and>
     (k < length (concat (taken t)) \<or>
      serving (snd (loops t ! i)) \<and> until_flush (snd (loops t ! i)) \<le> until_flush (snd (loops s ! i)) \<and>
      (loops t ! i \<noteq> loops s ! i \<longrightarrow> until_flush (snd (loops t ! i)) < until_flush (snd (loops s ! i))))"
  using assms
proof (cases rule: bc_step.cases)
  case (loop_flush xs ctx c a ys b bc')
  from loop_flush(3) no_loss_step [OF assms(3,1)] assms(3) show ?thesis
    by (cases rule: Flush_locked_cases)
       (use loop_flush assms(2,4,5) in \<open>auto simp: no_loss_def nth_append nth_Cons'\<close>)
next
  case (start spawn bc' ctx)
  then show ?thesis using assms(2,4,5) by (simp add: nth_append)
next
  case (loop_tick xs ctx ys)
  then show ?thesis using assms(2,4,5) by (auto simp: nth_append nth_Cons')
next
  case (loop_signal xs ctx ys u q)
  then show ?thesis using assms(2,4,5) by (auto simp: nth_append nth_Cons')
next
  case (loop_stop xs ctx ys)
  then show ?thesis using assms(2,4,5) by (auto simp: nth_append nth_Cons')
next
  case (loop_done xs ctx ys)
  then show ?thesis using assms(2,4,5) by (auto simp: nth_append nth_Cons')
next
  case (loop_handler xs ctx c batch a ys)
  then show ?thesis using assms(2,4,5) by (auto simp: nth_append nth_Cons')
qed (simp_all add: Add_locked_def)

lemma loop_enabled:
  assumes "i < length (loops s)" and "serving (snd (loops s ! i))"
  shows "\<exists>t. loop_moves i s t"
proof -
  obtain ctx pc where l: "loops s ! i = (ctx, pc)" by fastforce
  with assms(1) have sp: "loops s = take i (loops s) @ (ctx, pc) # drop (Suc i) (loops s)"
    by (metis id_take_nth_drop)
  have moves: "\<exists>t. loop_moves i s t"
    if "bc_step s t" "loops t = take i (loops s) @ (ctx, pc') # drop (Suc i) (loops s)" "pc' \<noteq> pc" for t pc'
    using that l assms(1) by (intro exI [of _ t]) (simp add: loop_moves_def nth_append)
  show ?thesis
  proof (cases pc)
    case AtSelect
    from moves [OF bc_step.loop_tick [OF sp [unfolded AtSelect]]] AtSelect show ?thesis by simp
  next
    case (Flushing c a)
    obtain b bc' where "Flush_locked (bcon s) = (b, bc')" by fastforce
    from moves [OF bc_step.loop_flush [OF sp [unfolded Flushing] this]] Flushing show ?thesis
      by (cases a; cases b) simp_all
  next
    case (Handling c batch a)
    from moves [OF bc_step.loop_handler [OF sp [unfolded Handling]]] Handling show ?thesis
      by (cases a) simp_all
  next
    case Returned
    with l assms(2) show ?thesis by simp
  qed
qed

interpretation bc_flush: fair_progress bc_step "loop_moves i"
  "\<lambda>s. no_loss s \<and> i < length (loops s) \<and> serving (snd (loops s ! i)) \<and> k < length (added s)"
  "\<lambda>s. k < length (concat (taken s))" "\<lambda>s. until_flush (snd (loops s ! i))" for i k
proof (unfold_locales, goal_cases)
  case (1 s)
  then show ?case using loop_enabled by blast
next
  case (3 s t)
  then show ?case using loop_after_step [of s t i k] by (auto simp: loop_moves_def)
next
  case (4 s t)
  then show ?case using loop_after_step [of s t i k] no_loss_step [of s t] by blast
qed (simp add: loop_moves_def)

lemma added_grows:
  assumes "bc_step\<^sup>*\<^sup>* s t"
  shows "\<exists>ms. added t = added s @ ms"
  using assms
proof (induction rule: rtranclp_induct)
  case (step t u)
  from step(2) have "\<exists>ms. added u = added t @ ms" by (cases rule: bc_step.cases) auto
  with step.IH show ?case by auto
qed simp

lemma mset_concat_mono: "mset xss \<subseteq># mset yss \<Longrightarrow> mset (concat xss) \<subseteq># mset (concat yss)"
  unfolding mset_concat_image by (auto simp: subset_mset.le_iff_add)

lemma added_is_taken:
  assumes "no_loss s" and "added s = xs @ ys" and "length xs \<le> length (concat (taken s))"
  shows "mset xs \<subseteq># mset (concat (taken s))"
proof -
  from assms have "concat (taken s) @ bc_buffer (bcon s) = xs @ ys" by (simp add: no_loss_def)
  from prefix_of_longer [OF this assms(3)] show ?thesis .
qed

text \<open>
  C10: on every run of the batch consumer in which a background loop is scheduled fairly and
  handlers that were called return, every message added while that loop is serving is handed to
  the handler sooner or later, whoever else adds, flushes, starts and stops in the meantime.
\<close>

theorem batch_eventually_handled:
  assumes "initial_batch (\<sigma> 0)" and "is_run bc_step \<sigma>" and "weakly_fair (loop_moves i) \<sigma>"
    and "\<forall>b. weakly_fair (handler_returns b) \<sigma>"
    and "i < length (loops (\<sigma> n))" and "serving (snd (loops (\<sigma> n) ! i))"
  shows "\<exists>m\<ge>n. mset (added (\<sigma> n)) \<subseteq># mset (concat (map snd (handled (\<sigma> m))))"
proof (cases "added (\<sigma> n)")
  case Nil
  then show ?thesis by auto
next
  case (Cons x xs)
  have inv: "no_loss (\<sigma> k)" for k
    using bcsys.inv_rtranclp [OF is_run_rtranclp [OF assms(2), of 0 k]] bcsys.inv_init [OF assms(1)] by simp
  from bc_flush.leads_to [OF assms(2,3), of n "length xs"] inv [of n] assms(5,6) Cons
  obtain m1 where m1: "n \<le> m1" "length (added (\<sigma> n)) \<le> length (concat (taken (\<sigma> m1)))" by fastforce
  from added_grows [OF is_run_rtranclp [OF assms(2) m1(1)]] added_is_taken [OF inv _ m1(2)]
  have t: "mset (added (\<sigma> n)) \<subseteq># mset (concat (taken (\<sigma> m1)))" by blast
  from bc_handover.all_paid [OF assms(2) inv [of 0], of m1] assms(4)
  obtain m2 where m2: "m1 \<le> m2" "mset (taken (\<sigma> m1)) \<subseteq># mset (map snd (handled (\<sigma> m2)))"
    by (auto simp: handler_returns_def [abs_def])
  from m1(1) m2(1) t mset_concat_mono [OF m2(2)] show ?thesis
    by (intro exI [of _ m2]) (auto intro: subset_mset.order_trans)
qed

text \<open>A run for the witness: one message, a cancelled context, the final flush, and then nothing more.\<close>

definition demo_at :: "message list \<Rightarrow> message loop_pc \<Rightarrow> message bc_system" where
  "demo_at ms pc = (init_batch 2 1)\<lparr>bcon := (NewBatchConsumer 2 1)\<lparr>bc_running := True, bc_buffer := ms\<rparr>,
     loops := [(context_Background, pc)]\<rparr>"

definition demo_run :: "message bc_system list" where
  "demo_run = [init_batch 2 1, demo_at [] AtSelect, (demo_at [demo_msg 1] AtSelect)\<lparr>added := [demo_msg 1]\<rparr>,
     (demo_at [demo_msg 1] (Flushing context_Background Return))\<lparr>added := [demo_msg 1]\<rparr>,
     (demo_at [] (Handling context_Background [demo_msg 1] Return))\<lparr>added := [demo_msg 1], taken := [[demo_msg 1]]\<rparr>,
     (demo_at [] Returned)\<lparr>added := [demo_msg 1], taken := [[demo_msg 1]],
        handled := [(context_Background, [demo_msg 1])]\<rparr>]"

lemma demo_run_steps: "successively bc_step demo_run"
proof -
  note defs = demo_at_def init_batch_def NewBatchConsumer_def
  have "bc_step (init_batch 2 1) (demo_at [] AtSelect)"
    using bc_step.start [of "init_batch 2 1" True "(NewBatchConsumer 2 1)\<lparr>bc_running := True\<rparr>" context_Background]
    by (simp add: Start_swap_def defs)
  moreover have "bc_step (demo_at [] AtSelect) ((demo_at [demo_msg 1] AtSelect)\<lparr>added := [demo_msg 1]\<rparr>)"
    using bc_step.add_locked [of "demo_msg 1" "demo_at [] AtSelect" False] by (simp add: Add_locked_def defs)
  moreover have "bc_step ((demo_at [demo_msg 1] AtSelect)\<lparr>added := [demo_msg 1]\<rparr>)
      ((demo_at [demo_msg 1] (Flushing context_Background Return))\<lparr>added := [demo_msg 1]\<rparr>)"
    using bc_step.loop_done [of "(demo_at [demo_msg 1] AtSelect)\<lparr>added := [demo_msg 1]\<rparr>" "[]"] by (simp add: defs)
  moreover have "bc_step ((demo_at [demo_msg 1] (Flushing context_Background Return))\<lparr>added := [demo_msg 1]\<rparr>)
      ((demo_at [] (Handling context_Background [demo_msg 1] Return))\<lparr>added := [demo_msg 1], taken := [[demo_msg 1]]\<rparr>)"
    using bc_step.loop_flush [of "(demo_at [demo_msg 1] (Flushing context_Background Return))\<lparr>added := [demo_msg 1]\<rparr>"
        "[]" context_Background context_Background Return "[]" "Some [demo_msg 1]"
        "(NewBatchConsumer 2 1)\<lparr>bc_running := True\<rparr>"] by (simp add: Flush_locked_def taken_by_def defs)
  moreover have "bc_step
      ((demo_at [] (Handling context_Background [demo_msg 1] Return))\<lparr>added := [demo_msg 1], taken := [[demo_msg 1]]\<rparr>)
      (last demo_run)"
    using bc_step.loop_handler [of "(demo_at [] (Handling context_Background [demo_msg 1] Return))\<lparr>added := [demo_msg 1],
      taken := [[demo_msg 1]]\<rparr>" "[]"] by (simp add: demo_run_def defs)
  ultimately show ?thesis by (simp add: demo_run_def)
qed

lemma demo_run_fair:
  "weakly_fair (loop_moves 0) (halting_run demo_run)" "weakly_fair (handler_returns b) (halting_run demo_run)"
proof -
  have ne: "demo_run \<noteq> []" by (simp add: demo_run_def)
  have "\<not> loop_moves 0 (last demo_run) t" for t
  proof
    assume "loop_moves 0 (last demo_run) t"
    then have "bc_step (last demo_run) t" "loops t ! 0 \<noteq> loops (last demo_run) ! 0" by (simp_all add: loop_moves_def)
    then show False
      by (cases rule: bc_step.cases) (auto simp: demo_run_def demo_at_def init_batch_def Cons_eq_append_conv)
  qed
  then show "weakly_fair (loop_moves 0) (halting_run demo_run)" by (rule weakly_fair_halting [OF ne])
  have "\<not> handler_returns b (last demo_run) t" for t
  proof
    assume "handler_returns b (last demo_run) t"
    then have "bc_step (last demo_run) t" "handled t \<noteq> handled (last demo_run)" by (auto simp: handler_returns_def)
    then show False
      by (cases rule: bc_step.cases) (auto simp: demo_run_def demo_at_def init_batch_def Cons_eq_append_conv)
  qed
  then show "weakly_fair (handler_returns b) (halting_run demo_run)" by (rule weakly_fair_halting [OF ne])
qed

theorem batch_eventually_handled_witness:
  "\<exists>m\<ge>2. demo_msg 1 \<in># mset (concat (map snd (handled (halting_run demo_run m))))"
proof -
  have n: "halting_run demo_run 0 = init_batch 2 1"
    "halting_run demo_run 2 = (demo_at [demo_msg 1] AtSelect)\<lparr>added := [demo_msg 1]\<rparr>"
    by (simp_all add: halting_run_def demo_run_def)
  show ?thesis
    using batch_eventually_handled [of "halting_run demo_run" 0 2] demo_run_fair is_run_halting [OF demo_run_steps]
    by (simp add: n initial_batch_def demo_at_def) blast
qed

section \<open>The asynchronous producer\<close>

definition sender_moves ::
  "(go_context \<Rightarrow> string \<Rightarrow> 'm \<Rightarrow> 'w \<Rightarrow> go_error option \<times> 'w) \<Rightarrow> nat \<Rightarrow>
   ('m, 'v, 'w) ap_system \<Rightarrow> ('m, 'v, 'w) ap_system \<Rightarrow> bool" where
  "sender_moves publish i s t \<longleftrightarrow> ap_step publish s t \<and> i < length (sloops s) \<and> snd (sloops t ! i) \<noteq> snd (sloops s ! i)"

definition publish_returns ::
  "(go_context \<Rightarrow> string \<Rightarrow> 'm \<Rightarrow> 'w \<Rightarrow> go_error option \<times> 'w) \<Rightarrow> 'm pendingMessage \<Rightarrow>
   ('m, 'v, 'w) ap_system \<Rightarrow> ('m, 'v, 'w) ap_system \<Rightarrow> bool" where
  "publish_returns publish pm s t \<longleftrightarrow> ap_step publish s t \<and>
     count (mset (map fst (outcomes s))) pm < count (mset (map fst (outcomes t))) pm"

text \<open>The loop \<open>i\<close> returns in this step because its context is done.\<close>

definition sender_cancelled :: "nat \<Rightarrow> ('m, 'v, 'w) ap_system \<Rightarrow> ('m, 'v, 'w) ap_system \<Rightarrow> bool" where
  "sender_cancelled i s t \<longleftrightarrow> i < length (sloops s) \<and> snd (sloops s ! i) = ApSelect \<and> snd (sloops t ! i) = ApDone"

fun until_receive :: "'m send_pc \<Rightarrow> nat" where
  "until_receive (ApPublish pm d) = 2"
| "until_receive ApSelect = 1"
| "until_receive _ = 0"

lemma ap_step_outcomes:
  assumes "ap_step publish s t"
  shows "mset (received s) \<subseteq># mset (received t)" "mset (map fst (outcomes s)) \<subseteq># mset (map fst (outcomes t))"
  using assms by (cases rule: ap_step.cases; simp)+

lemma publish_enabled:
  assumes "conserved s" and "count (mset (map fst (outcomes s))) pm < count (mset (received s)) pm"
  shows "\<exists>t. ap_step publish s t \<and> count (mset (map fst (outcomes s))) pm < count (mset (map fst (outcomes t))) pm"
proof -
  from assms have "pm \<in># mset (in_publish s)" by (auto simp: conserved_def)
  then obtain ctx pc where l: "(ctx, pc) \<in> set (sloops s)" "pm \<in> set (being_sent pc)" by (auto simp: in_publish_def)
  then obtain d where "pc = ApPublish pm d" by (cases pc) auto
  with l obtain xs ys where sp: "sloops s = xs @ (ctx, ApPublish pm d) # ys" by (meson split_list)
  obtain r w where "publish ctx (pm_topic pm) (pm_msg pm) (bw s) = (r, w)" by fastforce
  from ap_step.publish [of s xs ctx pm d ys publish, OF sp this] show ?thesis by (intro exI conjI) auto
qed

interpretation ap_handover: handover "ap_step publish" conserved "\<lambda>s. mset (received s)"
  "\<lambda>s. mset (map fst (outcomes s))" for publish
  by unfold_locales (use conserved_step ap_step_outcomes publish_enabled in blast)+

definition remaining :: "nat \<Rightarrow> ('m, 'v, 'w) ap_system \<Rightarrow> nat" where
  "remaining k s = Suc k - length (received s)"

lemma sender_after_step:
  assumes "ap_step publish s t" and "\<not> sender_cancelled i s t" and "i < length (sloops s)" and "conserved s"
    and "snd (sloops s ! i) \<noteq> ApDone" and "k < length (accepted s)"
  shows "i < length (sloops t) \<and> k < length (accepted t) \<and>
     (k < length (received t) \<or>
      snd (sloops t ! i) \<noteq> ApDone \<and>
      3 * remaining k t + until_receive (snd (sloops t ! i)) \<le> 3 * remaining k s + until_receive (snd (sloops s ! i)) \<and>
      (snd (sloops t ! i) \<noteq> snd (sloops s ! i) \<longrightarrow>
       3 * remaining k t + until_receive (snd (sloops t ! i)) < 3 * remaining k s + until_receive (snd (sloops s ! i))))"
  using assms
proof (cases rule: ap_step.cases)
  case (start spawn ap' ctx)
  then show ?thesis using assms(2-) by (simp add: nth_append remaining_def)
next
  case (recv xs ctx ys pm q)
  then show ?thesis using assms(2,3,5,6) by (auto simp: nth_append nth_Cons' remaining_def)
next
  case (stopped xs ctx ys)
  then show ?thesis using assms(2,3,5,6) by (auto simp: nth_append nth_Cons' remaining_def)
next
  case (context_done xs ctx pc ys e)
  then show ?thesis using assms(2,3,5,6) by (auto simp: nth_append nth_Cons' remaining_def)
next
  case (cancelled xs ctx ys)
  then show ?thesis using assms(2,3,5,6) by (auto simp: nth_append nth_Cons' remaining_def sender_cancelled_def)
next
  case (drain_recv xs ctx ys pm q)
  then show ?thesis using assms(2,3,5,6) by (auto simp: nth_append nth_Cons' remaining_def)
next
  case (drained xs ctx ys)
  then have "msgCh (prod s) = []" by (cases "msgCh (prod s)") simp_all
  with assms(4,6) have "k < length (received s)" by (auto simp: conserved_def)
  with drained assms(3,6) show ?thesis by simp
next
  case (publish xs ctx pm d ys r w')
  then show ?thesis using assms(2,3,5,6) by (auto simp: nth_append nth_Cons' remaining_def)
qed (simp_all add: remaining_def)


lemma sender_enabled:
  assumes "i < length (sloops s)" and "snd (sloops s ! i) \<noteq> ApDone"
    and "conserved s" and "k < length (accepted s)" and "\<not> k < length (received s)"
  shows "\<exists>t. sender_moves publish i s t"
proof -
  from assms(3-5) have "msgCh (prod s) \<noteq> []" by (auto simp: conserved_def)
  then obtain pm q where q: "try_recv (msgCh (prod s)) = Some (pm, q)" by (cases "msgCh (prod s)") auto
  obtain ctx pc where l: "sloops s ! i = (ctx, pc)" by fastforce
  with assms(1) have sp: "sloops s = take i (sloops s) @ (ctx, pc) # drop (Suc i) (sloops s)"
    by (metis id_take_nth_drop)
  have moves: "\<exists>t. sender_moves publish i s t"
    if "ap_step publish s t" "sloops t = take i (sloops s) @ (ctx, pc') # drop (Suc i) (sloops s)" "pc' \<noteq> pc" for t pc'
    using that l assms(1) by (intro exI [of _ t]) (simp add: sender_moves_def nth_append)
  show ?thesis
  proof (cases pc)
    case ApSelect
    from moves [OF ap_step.recv [OF sp [unfolded ApSelect] q]] ApSelect show ?thesis by simp
  next
    case (ApPublish pm d)
    obtain r w where "publish ctx (pm_topic pm) (pm_msg pm) (bw s) = (r, w)" by fastforce
    from moves [OF ap_step.publish [of s _ ctx pm d _ publish, OF sp [unfolded ApPublish] this]] ApPublish show ?thesis
      by (cases d) simp_all
  next
    case ApDrain
    from moves [OF ap_step.drain_recv [OF sp [unfolded ApDrain] q]] ApDrain show ?thesis by simp
  next
    case ApDone
    with l assms(2) show ?thesis by simp
  qed
qed

interpretation ap_receive: fair_progress "\<lambda>s t. ap_step publish s t \<and> \<not> sender_cancelled i s t" "sender_moves publish i"
  "\<lambda>s. conserved s \<and> i < length (sloops s) \<and> snd (sloops s ! i) \<noteq> ApDone \<and> k < length (accepted s)"
  "\<lambda>s. k < length (received s)" "\<lambda>s. 3 * remaining k s + until_receive (snd (sloops s ! i))" for publish i k
proof (unfold_locales, goal_cases)
  case (1 s)
  then show ?case using sender_enabled by blast
next
  case (3 s t)
  then show ?case using sender_after_step [of publish s t i k] by (auto simp: sender_moves_def)
next
  case (4 s t)
  then show ?case using sender_after_step [of publish s t i k] conserved_step [of s publish t] by blast
qed (simp add: sender_moves_def)

lemma ap_histories_grow:
  assumes "(ap_step publish)\<^sup>*\<^sup>* s t"
  shows "\<exists>ms. accepted t = accepted s @ ms"
  using assms
proof (induction rule: rtranclp_induct)
  case (step t u)
  from ap_step_histories [OF step(2)] step.IH show ?case by auto
qed simp

lemma accepted_is_received:
  assumes "conserved s" and "accepted s = xs @ ys" and "length xs \<le> length (received s)"
  shows "mset xs \<subseteq># mset (received s)"
proof -
  from assms have "received s @ msgCh (prod s) = xs @ ys" by (simp add: conserved_def)
  from prefix_of_longer [OF this assms(3)] show ?thesis .
qed

text \<open>
  C11: on every run of the asynchronous producer in which one of its loops is scheduled fairly,
  is not cancelled, and publishes that were begun return, every message that \<open>Send\<close> accepted
  while the loop has not returned is published sooner or later and its result counted. A
  \<open>Stop\<close> in between changes nothing: the drain takes what is left.
\<close>

theorem async_eventually_published:
  assumes "initial_async (\<sigma> 0)" and "is_run (ap_step publish) \<sigma>" and "weakly_fair (sender_moves publish i) \<sigma>"
    and "\<forall>pm. weakly_fair (publish_returns publish pm) \<sigma>"
    and "\<forall>m. \<not> sender_cancelled i (\<sigma> m) (\<sigma> (Suc m))"
    and "i < length (sloops (\<sigma> n))" and "snd (sloops (\<sigma> n) ! i) \<noteq> ApDone"
  shows "\<exists>m\<ge>n. mset (accepted (\<sigma> n)) \<subseteq># mset (map fst (outcomes (\<sigma> m)))"
proof (cases "accepted (\<sigma> n)")
  case Nil
  then show ?thesis by auto
next
  case (Cons x xs)
  have inv: "conserved (\<sigma> k)" for k
    using apsys.inv_rtranclp [OF is_run_rtranclp [OF assms(2), of 0 k]] apsys.inv_init [OF assms(1)] by simp
  have "is_run (\<lambda>s t. ap_step publish s t \<and> \<not> sender_cancelled i s t) \<sigma>"
    using assms(2,5) by (simp add: is_run_def)
  from ap_receive.leads_to [OF this assms(3), of n "length xs"] inv [of n] assms(6,7) Cons
  obtain m1 where m1: "n \<le> m1" "length (accepted (\<sigma> n)) \<le> length (received (\<sigma> m1))" by fastforce
  from ap_histories_grow [OF is_run_rtranclp [OF assms(2) m1(1)]] accepted_is_received [OF inv _ m1(2)]
  have t: "mset (accepted (\<sigma> n)) \<subseteq># mset (received (\<sigma> m1))" by blast
  from ap_handover.all_paid [OF assms(2) inv [of 0], of m1] assms(4)
  obtain m2 where m2: "m1 \<le> m2" "mset (received (\<sigma> m1)) \<subseteq># mset (map fst (outcomes (\<sigma> m2)))"
    by (auto simp: publish_returns_def [abs_def])
  from m1(1) m2(1) subset_mset.order_trans [OF t m2(2)] show ?thesis
    by (intro exI [of _ m2]) simp
qed

text \<open>A run for the witness: \<open>Start\<close>, \<open>Send\<close>, \<open>Stop\<close>, and the drain.\<close>

abbreviation demo_publish :: "go_context \<Rightarrow> string \<Rightarrow> message \<Rightarrow> bool im_world \<Rightarrow> go_error option \<times> bool im_world" where
  "demo_publish \<equiv> im_publish rt_example"

definition demo_drained :: "(message, bool, bool im_world) ap_system" where
  "demo_drained =
     (let (r, w) = demo_publish demo_ctx ''t'' (pm_msg demo_pm) example_world
      in demo_stopping\<lparr>prod := count_result True r ((prod demo_stopping)\<lparr>msgCh := []\<rparr>), bw := w,
           received := [demo_pm], outcomes := [(demo_pm, r)], sloops := [(demo_ctx, ApDrain)]\<rparr>)"

definition demo_async_run :: "(message, bool, bool im_world) ap_system list" where
  "demo_async_run =
     [init_async 2 example_world,
      demo_queued\<lparr>prod := (prod demo_queued)\<lparr>msgCh := []\<rparr>, accepted := []\<rparr>,
      demo_queued\<lparr>prod := (prod demo_queued)\<lparr>msgCh := []\<rparr>, accepted := [], senders := [demo_pm]\<rparr>,
      demo_queued, demo_stopping, demo_stopping\<lparr>sloops := [(demo_ctx, ApDrain)]\<rparr>,
      demo_stopping\<lparr>prod := (prod demo_stopping)\<lparr>msgCh := []\<rparr>, received := [demo_pm],
        sloops := [(demo_ctx, ApPublish demo_pm True)]\<rparr>,
      demo_drained, demo_drained\<lparr>sloops := [(demo_ctx, ApDone)]\<rparr>]"

lemma demo_async_steps: "successively (ap_step demo_publish) demo_async_run"
proof -
  note defs = demo_queued_def demo_stopping_def init_async_def NewAsyncProducer_def
  let ?s1 = "demo_queued\<lparr>prod := (prod demo_queued)\<lparr>msgCh := []\<rparr>, accepted := []\<rparr>"
  let ?s2 = "?s1\<lparr>senders := [demo_pm]\<rparr>"
  let ?s5 = "demo_stopping\<lparr>sloops := [(demo_ctx, ApDrain)]\<rparr>"
  let ?s6 = "demo_stopping\<lparr>prod := (prod demo_stopping)\<lparr>msgCh := []\<rparr>, received := [demo_pm],
    sloops := [(demo_ctx, ApPublish demo_pm True)]\<rparr>"
  obtain r w where rw: "demo_publish demo_ctx ''t'' (pm_msg demo_pm) example_world = (r, w)" by fastforce
  have "ap_step demo_publish (init_async 2 example_world) ?s1"
    using ap_step.start [of "init_async 2 example_world" True "(NewAsyncProducer 2)\<lparr>ap_running := True\<rparr>" _ demo_ctx]
    by (simp add: defs ap_Start_swap_def)
  moreover have "ap_step demo_publish ?s1 ?s2"
    using ap_step.send_check [of ?s1 _ demo_pm] by (simp add: defs Send_check_def)
  moreover have "ap_step demo_publish ?s2 demo_queued"
    using ap_step.send_enqueue [of ?s2 "[]" demo_pm "[]" None "prod demo_queued"]
    by (simp add: defs Send_enqueue_def try_send_def)
  moreover have "ap_step demo_publish demo_queued demo_stopping"
    using ap_step.stop [of demo_queued "prod demo_stopping"] by (simp add: defs ap_Stop_swap_def)
  moreover have "ap_step demo_publish demo_stopping ?s5"
    using ap_step.stopped [of demo_stopping "[]"] by (simp add: defs)
  moreover have "ap_step demo_publish ?s5 ?s6"
    using ap_step.drain_recv [of ?s5 "[]" demo_ctx "[]" demo_pm "[]"] by (simp add: defs)
  moreover have "ap_step demo_publish ?s6 demo_drained"
    using ap_step.publish [of ?s6 "[]" demo_ctx demo_pm True "[]" demo_publish r w] rw
    by (simp add: demo_drained_def demo_pm_def defs)
  moreover have "ap_step demo_publish demo_drained (demo_drained\<lparr>sloops := [(demo_ctx, ApDone)]\<rparr>)"
    using ap_step.drained [of demo_drained "[]"] by (simp add: demo_drained_def defs split: prod.splits)
  ultimately show ?thesis by (simp add: demo_async_run_def)
qed

lemma demo_async_end:
  "demo_async_run \<noteq> []" "sloops (last demo_async_run) = [(demo_ctx, ApDone)]"
  by (simp_all add: demo_async_run_def)

lemma demo_async_fair:
  "weakly_fair (sender_moves demo_publish 0) (halting_run demo_async_run)"
  "weakly_fair (publish_returns demo_publish pm) (halting_run demo_async_run)"
proof -
  have "\<not> sender_moves demo_publish 0 (last demo_async_run) t" for t
  proof
    assume "sender_moves demo_publish 0 (last demo_async_run) t"
    then have "ap_step demo_publish (last demo_async_run) t" "snd (sloops t ! 0) \<noteq> snd (sloops (last demo_async_run) ! 0)"
      by (simp_all add: sender_moves_def)
    then show False
      by (cases rule: ap_step.cases) (auto simp: demo_async_end Cons_eq_append_conv)
  qed
  then show "weakly_fair (sender_moves demo_publish 0) (halting_run demo_async_run)"
    by (rule weakly_fair_halting [OF demo_async_end(1)])
  have "\<not> publish_returns demo_publish pm (last demo_async_run) t" for t
  proof
    assume "publish_returns demo_publish pm (last demo_async_run) t"
    then have "ap_step demo_publish (last demo_async_run) t" "outcomes t \<noteq> outcomes (last demo_async_run)"
      by (auto simp: publish_returns_def)
    then show False
      by (cases rule: ap_step.cases) (auto simp: demo_async_end Cons_eq_append_conv)
  qed
  then show "weakly_fair (publish_returns demo_publish pm) (halting_run demo_async_run)"
    by (rule weakly_fair_halting [OF demo_async_end(1)])
qed

lemma demo_async_not_cancelled:
  "\<not> sender_cancelled 0 (halting_run demo_async_run n) (halting_run demo_async_run (Suc n))"
proof -
  have "successively (\<lambda>s t. \<not> sender_cancelled 0 s t) demo_async_run"
    by (simp add: demo_async_run_def sender_cancelled_def demo_stopping_def demo_queued_def init_async_def
        demo_drained_def split: prod.splits)
  from is_run_halting [OF this] show ?thesis
    by (auto simp: is_run_def sender_cancelled_def)
qed

theorem async_eventually_published_witness:
  "\<exists>m\<ge>3. demo_pm \<in># mset (map fst (outcomes (halting_run demo_async_run m)))"
proof -
  have n: "halting_run demo_async_run 0 = init_async 2 example_world" "halting_run demo_async_run 3 = demo_queued"
    by (simp_all add: halting_run_def demo_async_run_def)
  show ?thesis
    using async_eventually_published [of "halting_run demo_async_run" demo_publish 0 3] demo_async_fair
      is_run_halting [OF demo_async_steps] demo_async_not_cancelled
    by (simp add: n initial_async_def demo_queued_def init_async_def) blast
qed

end
