(* ===== verification/Retry.thy ===== *)
theory Retry
  imports Message Float64
begin

text \<open>
  \<open>RetryPolicy\<close> and \<open>WithRetry\<close> of \<open>pkg/consumer/consumer.go\<close>.

  \<open>Delay\<close> computes in \<open>float64\<close>; \<open>math.Pow\<close> and the conversion of a
  \<open>float64\<close> that does not fit an \<open>int64\<close> are arguments. Attempt numbers are 64-bit
  integers, so that the loop of \<open>WithRetry\<close> can be seen to wrap around; as it may not end, it
  is a partial function. The wrapped handler may change the message and the world. The
  \<open>select\<close> on the context and the timer is the argument \<open>wait\<close>: it yields
  \<open>ctx.Err()\<close> when the context branch is taken and \<^const>\<open>None\<close> when the timer
  branch is.
\<close>

section \<open>The policy\<close>

record RetryPolicy =
  MaxRetries :: int64
  BackoffBase :: int64
  BackoffMax :: int64
  BackoffMultiplier :: float64

definition DefaultRetryPolicy :: RetryPolicy where
  "DefaultRetryPolicy =
     \<lparr>MaxRetries = 3, BackoffBase = 100 * 1000000, BackoffMax = 30 * 1000000000,
      BackoffMultiplier = Fin 2\<rparr>"

definition Delay ::
  "(float64 \<Rightarrow> float64 \<Rightarrow> float64) \<Rightarrow> (float64 \<Rightarrow> int64) \<Rightarrow> RetryPolicy \<Rightarrow> int64 \<Rightarrow> int64" where
  "Delay pow conv rp attempt =
     (if sint attempt \<le> 0 then BackoffBase rp
      else let delay = fmul (float_of_int64 (BackoffBase rp))
                         (pow (BackoffMultiplier rp) (float_of_int64 attempt))
           in if fgt delay (float_of_int64 (BackoffMax rp)) then BackoffMax rp
              else int64_of_float conv delay)"

definition ShouldRetry :: "RetryPolicy \<Rightarrow> int64 \<Rightarrow> bool" where
  "ShouldRetry rp attempt \<longleftrightarrow> sint attempt < sint (MaxRetries rp)"

section \<open>The wrapped handler\<close>

type_synonym 'w handler = "go_context \<Rightarrow> message \<Rightarrow> 'w \<Rightarrow> go_error option \<times> message \<times> 'w"

partial_function (option) retry_loop ::
  "(int64 \<Rightarrow> int64) \<Rightarrow> (go_context \<Rightarrow> int64 \<Rightarrow> 'w \<Rightarrow> go_error option \<times> 'w) \<Rightarrow> 'w handler \<Rightarrow>
   RetryPolicy \<Rightarrow> go_context \<Rightarrow> int64 \<Rightarrow> go_error option \<Rightarrow> message \<Rightarrow> 'w \<Rightarrow>
   (go_error option \<times> message \<times> 'w) option" where
  "retry_loop delay wait handler policy ctx attempt lastErr msg w =
     (if sint attempt \<le> sint (MaxRetries policy) then
        (case (if 0 < sint attempt then wait ctx (delay (attempt - 1)) w else (None, w)) of
           (Some e, w1) \<Rightarrow> Some (Some e, msg, w1)
         | (None, w1) \<Rightarrow>
             (case handler ctx msg w1 of
                (None, msg', w2) \<Rightarrow> Some (None, msg', w2)
              | (Some err, msg', w2) \<Rightarrow>
                  if \<not> IsRetryableError (Some err) \<and> \<not> ShouldRetry policy (attempt + 1)
                  then Some (Some err, msg', w2)
                  else retry_loop delay wait handler policy ctx (attempt + 1) (Some err) msg' w2))
      else Some (lastErr, msg, w))"

definition WithRetry ::
  "(float64 \<Rightarrow> float64 \<Rightarrow> float64) \<Rightarrow> (float64 \<Rightarrow> int64) \<Rightarrow>
   (go_context \<Rightarrow> int64 \<Rightarrow> 'w \<Rightarrow> go_error option \<times> 'w) \<Rightarrow> 'w handler \<Rightarrow> RetryPolicy option \<Rightarrow>
   go_context \<Rightarrow> message \<Rightarrow> 'w \<Rightarrow> (go_error option \<times> message \<times> 'w) option" where
  "WithRetry pow conv wait handler policy ctx msg w =
     (let policy' = (case policy of None \<Rightarrow> DefaultRetryPolicy | Some p \<Rightarrow> p)
      in retry_loop (Delay pow conv policy') wait handler policy' ctx 0 None msg w)"

section \<open>The loop ends\<close>

lemma retry_loop_returns:
  assumes "sint (MaxRetries policy) < 2 ^ 63 - 1"
  shows "\<exists>r. retry_loop delay wait handler policy ctx attempt lastErr msg w = Some r"
proof (induction "nat (sint (MaxRetries policy) + 1 - sint attempt)" arbitrary: attempt lastErr msg w rule: less_induct)
  case less
  show ?case
  proof (cases "sint attempt \<le> sint (MaxRetries policy)")
    case True
    with assms have "sint (attempt + 1) = sint attempt + 1" by (intro sint_suc) simp
    with True have "nat (sint (MaxRetries policy) + 1 - sint (attempt + 1)) <
        nat (sint (MaxRetries policy) + 1 - sint attempt)" by simp
    from less [OF this] show ?thesis
      by (subst retry_loop.simps) (auto split: prod.splits option.splits)
  next
    case False
    then show ?thesis by (subst retry_loop.simps) simp
  qed
qed

section \<open>What the wrapped handler does\<close>

text \<open>
  The run of a handler that is retried whatever it returns: \<open>before i\<close> is the message and
  the world when attempt \<open>i\<close> begins, \<open>waited i\<close> the result of the wait in front of it,
  \<open>outcome i\<close> what the handler returns.
\<close>

definition wait_before ::
  "(int64 \<Rightarrow> int64) \<Rightarrow> (go_context \<Rightarrow> int64 \<Rightarrow> 'w \<Rightarrow> go_error option \<times> 'w) \<Rightarrow> go_context \<Rightarrow> nat \<Rightarrow> 'w \<Rightarrow>
   go_error option \<times> 'w" where
  "wait_before delay wait ctx i w = (if i = 0 then (None, w) else wait ctx (delay (of_nat (i - 1))) w)"

fun before ::
  "(int64 \<Rightarrow> int64) \<Rightarrow> (go_context \<Rightarrow> int64 \<Rightarrow> 'w \<Rightarrow> go_error option \<times> 'w) \<Rightarrow> 'w handler \<Rightarrow>
   go_context \<Rightarrow> message \<times> 'w \<Rightarrow> nat \<Rightarrow> message \<times> 'w" where
  "before delay wait handler ctx s 0 = s"
| "before delay wait handler ctx s (Suc i) =
     (let (m, w) = before delay wait handler ctx s i
      in snd (handler ctx m (snd (wait_before delay wait ctx i w))))"

definition waited ::
  "(int64 \<Rightarrow> int64) \<Rightarrow> (go_context \<Rightarrow> int64 \<Rightarrow> 'w \<Rightarrow> go_error option \<times> 'w) \<Rightarrow> 'w handler \<Rightarrow>
   go_context \<Rightarrow> message \<times> 'w \<Rightarrow> nat \<Rightarrow> go_error option \<times> 'w" where
  "waited delay wait handler ctx s i =
     wait_before delay wait ctx i (snd (before delay wait handler ctx s i))"

definition outcome ::
  "(int64 \<Rightarrow> int64) \<Rightarrow> (go_context \<Rightarrow> int64 \<Rightarrow> 'w \<Rightarrow> go_error option \<times> 'w) \<Rightarrow> 'w handler \<Rightarrow>
   go_context \<Rightarrow> message \<times> 'w \<Rightarrow> nat \<Rightarrow> go_error option" where
  "outcome delay wait handler ctx s i =
     fst (handler ctx (fst (before delay wait handler ctx s i)) (snd (waited delay wait handler ctx s i)))"

text \<open>Attempt \<open>i\<close> is the last one: cancelled before it, successful, out of attempts, or not worth another one.\<close>

definition last_attempt ::
  "(int64 \<Rightarrow> int64) \<Rightarrow> (go_context \<Rightarrow> int64 \<Rightarrow> 'w \<Rightarrow> go_error option \<times> 'w) \<Rightarrow> 'w handler \<Rightarrow>
   int \<Rightarrow> go_context \<Rightarrow> message \<times> 'w \<Rightarrow> nat \<Rightarrow> bool" where
  "last_attempt delay wait handler N ctx s i \<longleftrightarrow>
     fst (waited delay wait handler ctx s i) \<noteq> None \<or>
     outcome delay wait handler ctx s i = None \<or> int i = N \<or>
     (\<not> IsRetryableError (outcome delay wait handler ctx s i) \<and> N \<le> int i + 1)"

lemma retry_step:
  assumes "int i \<le> sint (MaxRetries policy)" and "sint (MaxRetries policy) < 2 ^ 63 - 1"
    and "before delay wait handler ctx s i = (m, w)"
  defines "next \<equiv> before delay wait handler ctx s (Suc i)"
  shows "retry_loop delay wait handler policy ctx (of_nat i) lastErr m w =
    (case fst (waited delay wait handler ctx s i) of
       Some e \<Rightarrow> Some (Some e, m, snd (waited delay wait handler ctx s i))
     | None \<Rightarrow>
         (case outcome delay wait handler ctx s i of
            None \<Rightarrow> Some (None, next)
          | Some err \<Rightarrow>
              if \<not> IsRetryableError (Some err) \<and> sint (MaxRetries policy) \<le> int i + 1
              then Some (Some err, next)
              else retry_loop delay wait handler policy ctx (of_nat (Suc i)) (Some err) (fst next) (snd next)))"
proof -
  have i: "sint (of_nat i :: int64) = int i" "sint (1 + of_nat i :: int64) = 1 + int i"
    using assms(1,2) sint_of_nat64 [of i] sint_suc [of "of_nat i"] by (simp_all add: add.commute)
  have prev: "(of_nat i - 1 :: int64) = of_nat (i - 1)" if "0 < i" using that by (cases i) simp_all
  have "(if 0 < sint (of_nat i :: int64) then wait ctx (delay (of_nat i - 1)) w else (None, w)) =
      waited delay wait handler ctx s i"
    using prev by (simp add: waited_def wait_before_def assms(3) i)
  then show ?thesis
    using assms(1)
    by (subst retry_loop.simps)
       (auto simp: i outcome_def waited_def assms(3) next_def ShouldRetry_def add.commute
         split: prod.splits option.splits)
qed

lemma retry_loop_runs_to:
  assumes "sint (MaxRetries policy) < 2 ^ 63 - 1"
    and "\<forall>i < k. \<not> last_attempt delay wait handler (sint (MaxRetries policy)) ctx s i"
    and "int k \<le> sint (MaxRetries policy)"
  shows "\<exists>e. retry_loop delay wait handler policy ctx 0 None (fst s) (snd s) =
    retry_loop delay wait handler policy ctx (of_nat k) e
      (fst (before delay wait handler ctx s k)) (snd (before delay wait handler ctx s k))"
  using assms(2,3)
proof (induction k)
  case (Suc k)
  then obtain e where IH: "retry_loop delay wait handler policy ctx 0 None (fst s) (snd s) =
    retry_loop delay wait handler policy ctx (of_nat k) e
      (fst (before delay wait handler ctx s k)) (snd (before delay wait handler ctx s k))" by auto
  from Suc.prems have "\<not> last_attempt delay wait handler (sint (MaxRetries policy)) ctx s k" by simp
  with Suc.prems(2) retry_step [OF _ assms(1), of k delay wait handler ctx s _ _ e] show ?case
    unfolding IH by (auto simp: last_attempt_def simp del: before.simps split: option.splits)
qed auto

section \<open>Properties\<close>

abbreviation chosen_policy :: "RetryPolicy option \<Rightarrow> RetryPolicy" where
  "chosen_policy policy \<equiv> (case policy of None \<Rightarrow> DefaultRetryPolicy | Some p \<Rightarrow> p)"

lemma retry_runs:
  assumes "0 \<le> sint (MaxRetries (chosen_policy policy))"
    and "sint (MaxRetries (chosen_policy policy)) < 2 ^ 63 - 1"
    and "delay = Delay pow conv (chosen_policy policy)"
    and "\<forall>i < k. \<not> last_attempt delay wait handler (sint (MaxRetries (chosen_policy policy))) ctx (msg, w) i"
    and "last_attempt delay wait handler (sint (MaxRetries (chosen_policy policy))) ctx (msg, w) k"
    and "int k \<le> sint (MaxRetries (chosen_policy policy))"
  shows "WithRetry pow conv wait handler policy ctx msg w =
    (case fst (waited delay wait handler ctx (msg, w) k) of
       Some e \<Rightarrow> Some (Some e, fst (before delay wait handler ctx (msg, w) k),
                        snd (waited delay wait handler ctx (msg, w) k))
     | None \<Rightarrow> Some (outcome delay wait handler ctx (msg, w) k,
                     before delay wait handler ctx (msg, w) (Suc k)))"
proof -
  let ?p = "chosen_policy policy"
  obtain e where "WithRetry pow conv wait handler policy ctx msg w =
    retry_loop delay wait handler ?p ctx (of_nat k) e
      (fst (before delay wait handler ctx (msg, w) k)) (snd (before delay wait handler ctx (msg, w) k))"
    using retry_loop_runs_to [OF assms(2,4,6)] by (auto simp: WithRetry_def Let_def assms(3))
  moreover have "retry_loop delay wait handler ?p ctx (of_nat (Suc k)) (Some err) m' w' = Some (Some err, m', w')"
    if "int k = sint (MaxRetries ?p)" for err m' w'
    using that assms(2) sint_of_nat64 [of "Suc k"] by (subst retry_loop.simps) simp
  ultimately show ?thesis
    using retry_step [OF assms(6,2), of delay wait handler ctx "(msg, w)" _ _ e] assms(5,6)
    by (auto simp: last_attempt_def simp del: before.simps split: option.splits)
qed


text \<open>
  A handler that fails with the errors of a script, over a world that counts its calls, and a
  wait that records the delays. The rest of the world is left alone.
\<close>

definition scripted :: "(nat \<Rightarrow> go_error option) \<Rightarrow> (nat \<times> int64 list \<times> 'b) handler" where
  "scripted script = (\<lambda>ctx m (calls, delays, b). (script calls, m, (Suc calls, delays, b)))"

definition recorded ::
  "go_context \<Rightarrow> int64 \<Rightarrow> nat \<times> int64 list \<times> 'b \<Rightarrow> go_error option \<times> (nat \<times> int64 list \<times> 'b)" where
  "recorded = (\<lambda>ctx d (calls, delays, b). (None, (calls, delays @ [d], b)))"

lemma before_scripted:
  "before delay recorded (scripted script) ctx (m, (0, [], b)) i =
     (m, (i, map (\<lambda>j. delay (of_nat j)) [0..<i - 1], b))"
proof (induction i)
  case (Suc i)
  then show ?case by (cases i) (simp_all add: wait_before_def scripted_def recorded_def)
qed simp

lemma waited_scripted:
  "waited delay recorded (scripted script) ctx (m, (0, [], b)) i =
     (None, (i, map (\<lambda>j. delay (of_nat j)) [0..<i], b))"
  unfolding waited_def before_scripted by (cases i) (simp_all add: wait_before_def recorded_def)

lemma outcome_scripted: "outcome delay recorded (scripted script) ctx (m, (0, [], b)) i = script i"
  unfolding outcome_def before_scripted waited_scripted by (simp add: scripted_def)


text \<open>
  C22: \<open>WithRetry\<close> returns whatever the handler, the context and the clock do, unless
  \<open>MaxRetries\<close> is the largest \<open>int\<close>.
\<close>

theorem with_retry_returns:
  assumes "sint (MaxRetries (chosen_policy policy)) < 2 ^ 63 - 1"
  shows "\<exists>r. WithRetry pow conv wait handler policy ctx msg w = Some r"
  using retry_loop_returns [OF assms] by (simp add: WithRetry_def Let_def)

theorem with_retry_returns_witness:
  "\<exists>r. WithRetry (\<lambda>x y. NaN) (\<lambda>f. 0) recorded (scripted (\<lambda>i. Some (Sentinel ErrHandlerError)))
     None \<lparr>ctx_deadline = None, ctx_err = None\<rparr> (NewMessage ''m'' 0 ''t'' None) (0, [], ()) = Some r"
  by (rule with_retry_returns) (simp add: DefaultRetryPolicy_def)

lemma retry_constant_error:
  assumes "0 \<le> sint (MaxRetries p)" and "sint (MaxRetries p) < 2 ^ 63 - 1"
    and "calls = (if IsRetryableError (Some e) then nat (sint (MaxRetries p)) + 1
                  else max 1 (nat (sint (MaxRetries p))))"
  shows "WithRetry pow conv recorded (scripted (\<lambda>i. Some e)) (Some p) ctx m (0, [], b) =
    Some (Some e, m, (calls, map (\<lambda>j. Delay pow conv p (of_nat j)) [0..<calls - 1], b))"
proof -
  have "0 < calls" using assms(3) by (simp split: if_splits)
  then obtain k where k: "calls = Suc k" by (auto dest: gr0_implies_Suc)
  have "\<forall>i < k. \<not> last_attempt (Delay pow conv p) recorded (scripted (\<lambda>i. Some e)) (sint (MaxRetries p)) ctx (m, (0, [], b)) i"
    "last_attempt (Delay pow conv p) recorded (scripted (\<lambda>i. Some e)) (sint (MaxRetries p)) ctx (m, (0, [], b)) k"
    "int k \<le> sint (MaxRetries p)"
    using assms(1,3) k by (auto simp: last_attempt_def outcome_scripted waited_scripted split: if_splits)
  with retry_runs [of "Some p" "Delay pow conv p" pow conv k recorded "scripted (\<lambda>i. Some e)" ctx m "(0, [], b)"]
    assms(1,2) show ?thesis
    by (simp add: outcome_scripted waited_scripted k before_scripted del: before.simps)
qed

text \<open>
  How often a handler that always fails with the same error is called. A retryable error
  costs \<open>MaxRetries + 1\<close> calls, any other one \<open>MaxRetries\<close> calls, and at least one; between
  two calls the delays are those of the policy, in order, and the error comes back unchanged.
\<close>

lemma retry_attempt_counts:
  assumes "0 \<le> sint (MaxRetries p)" and "sint (MaxRetries p) < 2 ^ 63 - 1"
    and "calls = (if IsRetryableError (Some e) then nat (sint (MaxRetries p)) + 1
                  else max 1 (nat (sint (MaxRetries p))))"
  shows "WithRetry pow conv recorded (scripted (\<lambda>i. Some e)) (Some p) ctx m (0, [], b) =
    Some (Some e, m, (calls, map (\<lambda>j. Delay pow conv p (of_nat j)) [0..<calls - 1], b))"
  using assms by (rule retry_constant_error)

text \<open>
  With a negative \<open>MaxRetries\<close> the wrapped handler reports success without ever calling
  the handler: message and world are untouched.
\<close>

lemma negative_retries_drop_the_message:
  assumes "sint (MaxRetries p) < 0"
  shows "WithRetry pow conv wait handler (Some p) ctx msg w = Some (None, msg, w)"
  using assms by (simp add: WithRetry_def retry_loop.simps)

definition always_retries ::
  "(go_context \<Rightarrow> int64 \<Rightarrow> 'w \<Rightarrow> go_error option \<times> 'w) \<Rightarrow> 'w handler \<Rightarrow> bool" where
  "always_retries wait handler \<longleftrightarrow> (\<forall>ctx d w. fst (wait ctx d w) = None) \<and>
     (\<forall>ctx m w. \<exists>e. fst (handler ctx m w) = Some e \<and> IsRetryableError (Some e))"

lemma retry_loop_diverges:
  assumes "retry_loop delay wait handler policy ctx attempt lastErr msg w = Some r"
  shows "\<not> (sint (MaxRetries policy) = 2 ^ 63 - 1 \<and> always_retries wait handler)"
proof (rule retry_loop.raw_induct
    [where P = "\<lambda>delay wait handler policy ctx attempt lastErr msg w r.
       \<not> (sint (MaxRetries policy) = 2 ^ 63 - 1 \<and> always_retries wait handler)", OF _ assms], goal_cases)
  case (1 loop delay wait handler policy ctx attempt lastErr msg w r)
  show ?case
  proof
    assume max: "sint (MaxRetries policy) = 2 ^ 63 - 1 \<and> always_retries wait handler"
    with 1(1) have none: "loop delay wait handler policy ctx a l m v = None" for a l m v
      by (meson not_None_eq)
    have "sint attempt < 2 ^ 63" using sint_lt [of attempt] by simp
    with max have le: "sint attempt \<le> sint (MaxRetries policy)" by simp
    obtain w1 where w1: "(if 0 < sint attempt then wait ctx (delay (attempt - 1)) w else (None, w)) = (None, w1)"
      using max unfolding always_retries_def by (metis prod.collapse)
    obtain err msg' w2 where "handler ctx msg w1 = (Some err, msg', w2)" "IsRetryableError (Some err)"
      using max unfolding always_retries_def by (metis prod.collapse)
    with 1(2) le none show False unfolding w1 by simp
  qed
qed

text \<open>
  C40: when \<open>MaxRetries\<close> is the largest \<open>int\<close> the loop variable never exceeds it, and
  a handler that always fails with a retryable error is called for ever as long as the context
  is not cancelled.
\<close>

theorem with_retry_max_int_diverges:
  assumes "sint (MaxRetries p) = 2 ^ 63 - 1" and "always_retries wait handler"
  shows "WithRetry pow conv wait handler (Some p) ctx msg w = None"
  using assms retry_loop_diverges by (cases "WithRetry pow conv wait handler (Some p) ctx msg w")
    (fastforce simp: WithRetry_def)+

theorem with_retry_max_int_witness:
  "WithRetry (\<lambda>x y. NaN) (\<lambda>f. 0) recorded
     (scripted (\<lambda>i. Some (NewBrokerError ErrCodeConnectionFailed ''down'' None)))
     (Some (DefaultRetryPolicy\<lparr>MaxRetries := 9223372036854775807\<rparr>))
     \<lparr>ctx_deadline = None, ctx_err = None\<rparr> (NewMessage ''m'' 0 ''t'' None) (0, [], ()) = None"
proof (rule with_retry_max_int_diverges)
  have "IsRetryableError (Some (NewBrokerError ErrCodeConnectionFailed ''down'' None))" by code_simp
  then show "always_retries recorded (scripted (\<lambda>i. Some (NewBrokerError ErrCodeConnectionFailed ''down'' None)))"
    by (auto simp: always_retries_def recorded_def scripted_def)
qed simp

section \<open>Delays\<close>

text \<open>
  C28: from the second attempt on the delay lies between zero and \<open>BackoffMax\<close>, whatever the
  attempt number, provided \<open>BackoffBase\<close> is positive, \<open>BackoffMax\<close> is not negative, both are below
  \<open>2\<^sup>5\<^sup>3\<close> nanoseconds (about 104 days), and the power of the multiplier is a number that is not
  negative, or has overflowed to infinity. The delay of the first attempt is \<open>BackoffBase\<close>,
  however small \<open>BackoffMax\<close> is.
\<close>

theorem delay_is_capped:
  assumes "0 < sint (BackoffBase rp)" and "sint (BackoffBase rp) < 2 ^ 53"
    and "0 \<le> sint (BackoffMax rp)" and "sint (BackoffMax rp) < 2 ^ 53"
    and "(\<exists>x \<ge> 0. pow (BackoffMultiplier rp) (float_of_int64 attempt) = Fin x) \<or>
         pow (BackoffMultiplier rp) (float_of_int64 attempt) = Inf True"
  shows "if 0 < sint attempt
    then 0 \<le> sint (Delay pow conv rp attempt) \<and> sint (Delay pow conv rp attempt) \<le> sint (BackoffMax rp)
    else Delay pow conv rp attempt = BackoffBase rp"
proof (cases "0 < sint attempt")
  case True
  let ?d = "fmul (float_of_int64 (BackoffBase rp)) (pow (BackoffMultiplier rp) (float_of_int64 attempt))"
  have base: "float_of_int64 (BackoffBase rp) = Fin (of_int (sint (BackoffBase rp)))"
    and max: "float_of_int64 (BackoffMax rp) = Fin (of_int (sint (BackoffMax rp)))"
    using assms(1-4) by (auto simp only: float_of_int64_small abs_of_pos abs_of_nonneg)
  have "?d = Inf True \<or> (\<exists>v \<ge> 0. ?d = Fin v)"
    unfolding base using assms(1,5) by (intro fmul_nonneg) (simp_all only: of_int_0_less_iff)
  then show ?thesis
  proof (elim disjE exE conjE)
    assume "?d = Inf True"
    with True assms(3) show ?thesis by (simp add: Delay_def max)
  next
    fix v assume v: "0 \<le> v" "?d = Fin v"
    show ?thesis
    proof (cases "of_int (sint (BackoffMax rp)) < v")
      case above: True
      with True v assms(3) show ?thesis by (simp only: Delay_def max Let_def fgt.simps) simp
    next
      case below: False
      then have "\<lfloor>v\<rfloor> \<le> sint (BackoffMax rp)" by (simp add: not_less floor_le_iff le_less_trans)
      then have t: "trunc v \<le> sint (BackoffMax rp)" "0 \<le> trunc v" using v(1) by (simp_all add: trunc_def)
      with assms(4) have "sint (of_int (trunc v) :: int64) = trunc v"
        by (intro sint_of_int64) simp_all
      with True v t assms(4) below show ?thesis
        by (simp only: Delay_def max Let_def fgt.simps) simp
    qed
  qed
qed (simp add: Delay_def)

theorem delay_is_capped_witness:
  "0 \<le> sint (Delay (\<lambda>x y. Inf True) (\<lambda>f. 0) DefaultRetryPolicy 4000) \<and>
   sint (Delay (\<lambda>x y. Inf True) (\<lambda>f. 0) DefaultRetryPolicy 4000) \<le> 30000000000"
  using delay_is_capped [of DefaultRetryPolicy "\<lambda>x y. Inf True" 4000 "\<lambda>f. 0"]
  by (simp add: DefaultRetryPolicy_def)

text \<open>Powers of two are exact in \<open>float64\<close> until they overflow.\<close>

definition pow_exact_on_two :: "(float64 \<Rightarrow> float64 \<Rightarrow> float64) \<Rightarrow> bool" where
  "pow_exact_on_two pow \<longleftrightarrow>
     (\<forall>n. pow (Fin 2) (Fin (of_nat n)) = (if n < 1024 then Fin (2 ^ n) else Inf True))"

text \<open>
  C29: the delays of the default policy. Attempt \<open>n\<close> waits for 100 milliseconds times
  \<open>2^n\<close>, and 30 seconds at most, for every attempt number below \<open>2^53\<close>.
\<close>

theorem default_delays:
  assumes "pow_exact_on_two pow" and "n < 2 ^ 53"
  shows "sint (Delay pow conv DefaultRetryPolicy (of_nat n)) = min (100000000 * 2 ^ n) 30000000000"
proof -
  have n: "sint (of_nat n :: int64) = int n" using assms(2) by (intro sint_of_nat64) simp
  have f: "float_of_int64 (of_nat n) = Fin (of_nat n)"
    using float_of_int64_small [of "of_nat n"] assms(2) unfolding n by simp
  have p: "pow (Fin 2) (Fin (of_nat n)) = (if n < 1024 then Fin (2 ^ n) else Inf True)"
    using assms(1) by (simp add: pow_exact_on_two_def)
  have base: "float_of_int64 100000000 = Fin 100000000" "float_of_int64 30000000000 = Fin 30000000000"
    using float_of_int64_small [of 100000000] float_of_int64_small [of 30000000000] by simp_all
  consider "n = 0" | "0 < n" "n \<le> 8" | "8 < n" by linarith
  then show ?thesis
  proof cases
    case 2
    define v where "v = (100000000 * 2 ^ n :: int)"
    have "(2::int) ^ n \<le> 2 ^ 8" using 2(2) by (intro power_increasing) simp_all
    then have v: "0 \<le> v" "v \<le> 25600000000" by (simp_all add: v_def)
    have "round64 (100000000 * 2 ^ n) = Fin (of_int v)"
      using round64_of_int [of v] v by (simp add: v_def)
    moreover have "\<not> fgt (Fin (of_int v)) (Fin 30000000000)"
      using v(2) by (simp add: not_less)
    moreover have "int64_of_float conv (Fin (of_int v)) = of_int v"
      using v by (intro int64_of_float_exact) simp_all
    moreover have "sint (of_int v :: int64) = v" using v by (intro sint_of_int64) simp_all
    moreover have "min (100000000 * 2 ^ n) 30000000000 = v" using v(2) by (simp add: v_def)
    ultimately show ?thesis using 2 n f p base by (simp add: Delay_def DefaultRetryPolicy_def Let_def)
  next
    case 3
    then have "(2::int) ^ 9 \<le> 2 ^ n" "(2::rat) ^ 9 \<le> 2 ^ n"
      by (intro power_increasing; simp)+
    then have big: "(30000000000::int) \<le> 100000000 * 2 ^ n" "(51200000000::rat) \<le> 100000000 * 2 ^ n"
      by simp_all
    then have "fgt (round64 (100000000 * 2 ^ n)) (Fin 30000000000)" by (intro fgt_round64) simp_all
    with 3 n f p base big(1) show ?thesis by (simp add: Delay_def DefaultRetryPolicy_def Let_def min_def)
  qed (simp add: Delay_def DefaultRetryPolicy_def)
qed

definition pow_of_two :: "float64 \<Rightarrow> float64 \<Rightarrow> float64" where
  "pow_of_two x y = (case y of Fin r \<Rightarrow> if r < 1024 then Fin (2 ^ nat \<lfloor>r\<rfloor>) else Inf True | _ \<Rightarrow> NaN)"

theorem default_delays_witness:
  "sint (Delay pow_of_two (\<lambda>f. 0) DefaultRetryPolicy (of_nat 3)) = 800000000 \<and>
   sint (Delay pow_of_two (\<lambda>f. 0) DefaultRetryPolicy (of_nat 40)) = 30000000000"
proof -
  have "(rat_of_nat n < 1024) = (n < 1024)" for n by (metis of_nat_less_iff of_nat_numeral)
  then have "pow_exact_on_two pow_of_two" by (simp add: pow_exact_on_two_def pow_of_two_def)
  from default_delays [OF this, of 3 "\<lambda>f. 0"] default_delays [OF this, of 40 "\<lambda>f. 0"]
  show ?thesis by simp
qed

end
