(* ===== verification/DeadLetter.thy ===== *)
theory DeadLetter
  imports Broker_Interface
begin

text \<open>
  \<open>DeadLetterHandler\<close> of \<open>pkg/consumer/consumer.go\<close>, over any broker that keeps the
  contract of the locale \<open>publishing\<close>.

  \<open>Handle\<close> takes the broker's \<open>Publish\<close>, the clock reading it renders, and the error
  that made the message fail, \<^const>\<open>None\<close> being a nil error. The callback is a function on the
  world. A panic of the original error's \<open>Error\<close> method is a panic of \<open>Handle\<close>.
\<close>

type_synonym 'w on_failure = "go_context \<Rightarrow> message \<Rightarrow> go_error option \<Rightarrow> 'w \<Rightarrow> 'w"

record 'w DeadLetterHandler =
  dlqTopic :: string
  onFailure :: "'w on_failure option"
  dlq_count :: int64

definition NewDeadLetterHandler :: "string \<Rightarrow> 'w DeadLetterHandler" where
  "NewDeadLetterHandler topic = \<lparr>dlqTopic = topic, onFailure = None, dlq_count = 0\<rparr>"

definition SetOnFailure :: "'w on_failure option \<Rightarrow> 'w DeadLetterHandler \<Rightarrow> 'w DeadLetterHandler" where
  "SetOnFailure fn dlh = dlh\<lparr>onFailure := fn\<rparr>"

definition Handle ::
  "(go_context \<Rightarrow> string \<Rightarrow> message \<Rightarrow> 'w \<Rightarrow> go_error option \<times> 'w) \<Rightarrow> translator \<Rightarrow> time \<Rightarrow>
   go_context \<Rightarrow> message \<Rightarrow> go_error option \<Rightarrow> 'w DeadLetterHandler \<Rightarrow> 'w \<Rightarrow>
   go_panic + (go_error option \<times> 'w DeadLetterHandler \<times> 'w)" where
  "Handle publish tn now ctx msg originalErr dlh w =
     (case originalErr of
        None \<Rightarrow> Inl NilDereference
      | Some oerr \<Rightarrow>
          (case Error tn oerr of
             Inl p \<Rightarrow> Inl p
           | Inr reason \<Rightarrow>
               let dlqMsg = SetHeader ''x-dlq-timestamp'' (format_rfc3339 now)
                     (SetHeader ''x-dlq-original-topic'' (Topic msg)
                       (SetHeader ''x-dlq-reason'' reason (Clone msg)))
               in (case publish ctx (dlqTopic dlh) dlqMsg w of
                     (Some err, w') \<Rightarrow>
                       Inr (Some (Errorf_w tn (''failed to publish to DLQ '' @ dlqTopic dlh) err), dlh, w')
                   | (None, w') \<Rightarrow>
                       let dlh' = dlh\<lparr>dlq_count := dlq_count dlh + 1\<rparr>
                       in (case onFailure dlh' of
                             None \<Rightarrow> Inr (None, dlh', w')
                           | Some fn \<Rightarrow> Inr (None, dlh', fn ctx msg originalErr w')))))"

definition dlq_Count :: "'w DeadLetterHandler \<Rightarrow> int64" where
  "dlq_Count dlh = dlq_count dlh"

definition DLQTopic :: "'w DeadLetterHandler \<Rightarrow> string" where
  "DLQTopic dlh = dlqTopic dlh"

section \<open>The handler over any broker\<close>

definition run_callback ::
  "'w DeadLetterHandler \<Rightarrow> go_context \<Rightarrow> message \<Rightarrow> go_error option \<Rightarrow> 'w \<Rightarrow> 'w" where
  "run_callback dlh ctx msg oerr w = (case onFailure dlh of None \<Rightarrow> w | Some fn \<Rightarrow> fn ctx msg oerr w)"

text \<open>What a dead letter must carry of the message it stands for.\<close>

definition dead_letter_of :: "message \<Rightarrow> string \<Rightarrow> time \<Rightarrow> message \<Rightarrow> bool" where
  "dead_letter_of msg reason now c \<longleftrightarrow>
     ID c = ID msg \<and> slice_bytes (Key c) = slice_bytes (Key msg) \<and>
     slice_bytes (Value c) = slice_bytes (Value msg) \<and>
     GetHeader c = (GetHeader msg)(''x-dlq-reason'' := reason,
       ''x-dlq-original-topic'' := Topic msg, ''x-dlq-timestamp'' := format_rfc3339 now)"

lemma dead_letter_content:
  "same_content c (SetHeader ''x-dlq-timestamp'' (format_rfc3339 now)
     (SetHeader ''x-dlq-original-topic'' (Topic msg) (SetHeader ''x-dlq-reason'' reason (Clone msg)))) \<Longrightarrow>
   dead_letter_of msg reason now c"
  by (simp add: same_content_def dead_letter_of_def)

context publishing
begin

lemma Handle_cases:
  assumes "inv w" and "Error tn e = Inr reason"
  obtains
    (published) w1 c where
      "Handle publish tn now ctx msg (Some e) dlh w =
         Inr (None, dlh\<lparr>dlq_count := dlq_count dlh + 1\<rparr>, run_callback dlh ctx msg (Some e) w1)"
      "inv w1" "dead_letter_of msg reason now c" "Topic c = dlqTopic dlh"
      "log_of w1 = (log_of w)(dlqTopic dlh := log_of w (dlqTopic dlh) @ [c])" "ready w1 = ready w"
  | (failed) err w1 where
      "Handle publish tn now ctx msg (Some e) dlh w =
         Inr (Some (Errorf_w tn (''failed to publish to DLQ '' @ dlqTopic dlh) err), dlh, w1)"
      "inv w1" "log_of w1 = log_of w" "\<not> ready w" "fst (publish ctx (dlqTopic dlh)
         (SetHeader ''x-dlq-timestamp'' (format_rfc3339 now)
           (SetHeader ''x-dlq-original-topic'' (Topic msg)
             (SetHeader ''x-dlq-reason'' reason (Clone msg)))) w) = Some err"
proof -
  let ?m = "SetHeader ''x-dlq-timestamp'' (format_rfc3339 now)
     (SetHeader ''x-dlq-original-topic'' (Topic msg) (SetHeader ''x-dlq-reason'' reason (Clone msg)))"
  obtain r w1 where pub: "publish ctx (dlqTopic dlh) ?m w = (r, w1)" by fastforce
  from publish_inv [OF assms(1), of ctx "dlqTopic dlh" ?m] pub have inv1: "inv w1" by simp
  from assms(1) pub show ?thesis
  proof (cases rule: publish_cases)
    case (ok c)
    from pub ok(1) assms(2) have "Handle publish tn now ctx msg (Some e) dlh w =
        Inr (None, dlh\<lparr>dlq_count := dlq_count dlh + 1\<rparr>, run_callback dlh ctx msg (Some e) w1)"
      by (simp add: Handle_def run_callback_def Let_def split: option.split)
    with ok inv1 dead_letter_content [OF ok(2)] ready_publish [OF assms(1), of ctx "dlqTopic dlh" ?m] pub
    show ?thesis using published by simp
  next
    case (failed err)
    from pub failed(1) assms(2) have "Handle publish tn now ctx msg (Some e) dlh w =
        Inr (Some (Errorf_w tn (''failed to publish to DLQ '' @ dlqTopic dlh) err), dlh, w1)"
      by (simp add: Handle_def Let_def)
    with failed inv1 pub show ?thesis using that(2) by simp
  qed
qed

end

section \<open>A sequence of failures\<close>

fun handle_all ::
  "(go_context \<Rightarrow> string \<Rightarrow> message \<Rightarrow> 'w \<Rightarrow> go_error option \<times> 'w) \<Rightarrow> translator \<Rightarrow> go_context \<Rightarrow>
   (time \<times> message \<times> go_error) list \<Rightarrow> 'w DeadLetterHandler \<Rightarrow> 'w \<Rightarrow> go_panic + ('w DeadLetterHandler \<times> 'w)" where
  "handle_all publish tn ctx [] dlh w = Inr (dlh, w)"
| "handle_all publish tn ctx ((now, msg, e) # jobs) dlh w =
     (case Handle publish tn now ctx msg (Some e) dlh w of
        Inl p \<Rightarrow> Inl p
      | Inr (_, dlh', w') \<Rightarrow> handle_all publish tn ctx jobs dlh' w')"

definition renderable :: "translator \<Rightarrow> (time \<times> message \<times> go_error) list \<Rightarrow> bool" where
  "renderable tn jobs \<longleftrightarrow> (\<forall>(now, msg, e) \<in> set jobs. \<exists>r. Error tn e = Inr r)"

context publishing
begin

lemma handle_all_counts:
  assumes "inv w" and "renderable tn jobs" and "onFailure dlh = None"
  shows "\<exists>dlh' w' cs. handle_all publish tn ctx jobs dlh w = Inr (dlh', w') \<and>
    (\<forall>t. log_of w' t = log_of w t @ (if t = dlqTopic dlh then cs else [])) \<and>
    dlq_count dlh' = dlq_count dlh + of_nat (length cs) \<and> length cs \<le> length jobs \<and>
    (ready w \<longrightarrow> length cs = length jobs)"
  using assms
proof (induction jobs arbitrary: dlh w)
  case Nil
  then show ?case by (auto intro: exI [of _ "[]"])
next
  case (Cons job jobs)
  obtain now msg e where job: "job = (now, msg, e)" by (cases job)
  with Cons.prems(2) obtain reason where e: "Error tn e = Inr reason" and jobs: "renderable tn jobs"
    by (auto simp: renderable_def)
  from Cons.prems(1) e show ?case
  proof (cases rule: Handle_cases [where now = now and ctx = ctx and msg = msg and dlh = dlh])
    case (published w1 c)
    let ?dlh = "dlh\<lparr>dlq_count := dlq_count dlh + 1\<rparr>"
    have w1: "run_callback dlh ctx msg (Some e) w1 = w1"
      using Cons.prems(3) by (simp add: run_callback_def)
    have cb: "onFailure ?dlh = None" "dlqTopic ?dlh = dlqTopic dlh" using Cons.prems(3) by simp_all
    obtain dlh' w' cs where IH: "handle_all publish tn ctx jobs ?dlh w1 = Inr (dlh', w')"
        "\<forall>t. log_of w' t = log_of w1 t @ (if t = dlqTopic dlh then cs else [])"
        "dlq_count dlh' = dlq_count ?dlh + of_nat (length cs)" "length cs \<le> length jobs"
        "ready w1 \<longrightarrow> length cs = length jobs"
      using Cons.IH [OF published(2) jobs cb(1)] unfolding cb(2) by blast
    have "handle_all publish tn ctx (job # jobs) dlh w = Inr (dlh', w')"
      using published(1) IH(1) w1 by (simp add: job)
    with IH published(5,6) show ?thesis by (intro exI [of _ dlh'] exI [of _ w'] exI [of _ "c # cs"]) simp
  next
    case (failed err w1)
    obtain dlh' w' cs where IH: "handle_all publish tn ctx jobs dlh w1 = Inr (dlh', w')"
        "\<forall>t. log_of w' t = log_of w1 t @ (if t = dlqTopic dlh then cs else [])"
        "dlq_count dlh' = dlq_count dlh + of_nat (length cs)" "length cs \<le> length jobs"
      using Cons.IH [OF failed(2) jobs Cons.prems(3)] by blast
    have "handle_all publish tn ctx (job # jobs) dlh w = Inr (dlh', w')"
      using failed(1) IH(1) by (simp add: job)
    with IH failed(3,4) show ?thesis by (intro exI [of _ dlh'] exI [of _ w'] exI [of _ cs]) simp
  qed
qed

end

section \<open>Properties\<close>

text \<open>
  C18: \<open>Handle\<close> on the in-memory broker. When the broker is connected, the dead-letter topic
  gets one message with the identity, key, value and headers of the failed one and the three
  \<open>x-dlq\<close> headers, no other topic changes, the count goes up by one and then the callback
  runs on the failed message. When it is not, nothing changes and the error wraps
  \<open>ErrNotConnected\<close>.
\<close>

theorem dead_letter_on_inmemory:
  assumes "im_ok rt w" and "Error tn e = Inr reason"
  shows "if IsConnected w
    then \<exists>w1 c. Handle (im_publish rt) tn now ctx msg (Some e) dlh w =
           Inr (None, dlh\<lparr>dlq_count := dlq_count dlh + 1\<rparr>, run_callback dlh ctx msg (Some e) w1) \<and>
         dead_letter_of msg reason now c \<and> Topic c = DLQTopic dlh \<and>
         (\<forall>t. queue_of w1 t = queue_of w t @ (if t = DLQTopic dlh then [c] else []))
    else \<exists>err. Handle (im_publish rt) tn now ctx msg (Some e) dlh w = Inr (Some err, dlh, w) \<and>
         errors_Is err (TargetSentinel ErrNotConnected)"
  using assms
proof (cases rule: impub.Handle_cases [where now = now and ctx = ctx and msg = msg and dlh = dlh])
  case (published w1 c)
  then have "IsConnected w"
    by (auto simp: IsConnected_def Handle_def assms(2) im_publish_def Publish_not_connected)
  with published show ?thesis by (auto simp: DLQTopic_def fun_eq_iff)
next
  case (failed err w1)
  then have off: "\<not> connected (im w)" by (simp add: IsConnected_def)
  have "Handle (im_publish rt) tn now ctx msg (Some e) dlh w =
      Inr (Some (Errorf_w tn (''failed to publish to DLQ '' @ dlqTopic dlh) (Sentinel ErrNotConnected)), dlh, w)"
    using off assms(2) by (simp add: Handle_def im_publish_def Publish_not_connected)
  moreover have "errors_Is (Errorf_w tn s (Sentinel ErrNotConnected)) (TargetSentinel ErrNotConnected)" for s
    by (simp add: Errorf_w_def errors_Is.simps)
  ultimately show ?thesis using off by (auto simp: IsConnected_def)
qed

theorem dead_letter_on_inmemory_witness:
  "\<exists>w1 c. Handle (im_publish rt_example) NoopTranslator 0 \<lparr>ctx_deadline = None, ctx_err = None\<rparr>
       (NewMessage ''m'' 5 ''orders'' (Some [1, 2])) (Some (Sentinel ErrHandlerError))
       (NewDeadLetterHandler ''dlq'') example_world =
     Inr (None, (NewDeadLetterHandler ''dlq'')\<lparr>dlq_count := 1\<rparr>, w1) \<and>
     queue_of w1 ''dlq'' = [c] \<and> GetHeader c ''x-dlq-reason'' = ''message handler error'' \<and>
     GetHeader c ''x-dlq-original-topic'' = ''orders'' \<and> slice_bytes (Value c) = [1, 2]"
  using dead_letter_on_inmemory [of rt_example example_world NoopTranslator "Sentinel ErrHandlerError"
      "''message handler error''" 0 "\<lparr>ctx_deadline = None, ctx_err = None\<rparr>"
      "NewMessage ''m'' 5 ''orders'' (Some [1, 2])" "NewDeadLetterHandler ''dlq''"]
  by (auto simp: im_ok_def im_inv_example IsConnected_def NewDeadLetterHandler_def NewMessage_def
      run_callback_def dead_letter_of_def DLQTopic_def)

text \<open>
  After any sequence of \<open>Handle\<close> calls without a callback, \<open>Count\<close> of a new handler
  is the number of messages that its topic received, modulo \<open>2^64\<close>; no other topic changed,
  and on a connected broker every failed message is there.
\<close>

lemma dlq_count_matches_queue:
  assumes "im_ok rt w" and "renderable tn jobs"
  shows "\<exists>dlh w' cs. handle_all (im_publish rt) tn ctx jobs (NewDeadLetterHandler topic) w = Inr (dlh, w') \<and>
    dlq_Count dlh = of_nat (length cs) \<and>
    (\<forall>t. queue_of w' t = queue_of w t @ (if t = topic then cs else [])) \<and>
    (IsConnected w \<longrightarrow> length cs = length jobs)"
proof -
  have "onFailure (NewDeadLetterHandler topic) = None" by (simp add: NewDeadLetterHandler_def)
  from impub.handle_all_counts [OF assms this, of ctx] obtain dlh w' cs where
    "handle_all (im_publish rt) tn ctx jobs (NewDeadLetterHandler topic) w = Inr (dlh, w')"
    "\<forall>t. queue_of w' t = queue_of w t @ (if t = topic then cs else [])"
    "dlq_count dlh = of_nat (length cs)" "IsConnected w \<longrightarrow> length cs = length jobs"
    unfolding NewDeadLetterHandler_def by (simp; blast)
  then show ?thesis by (auto simp: dlq_Count_def)
qed

lemma dlq_count_matches_queue_example:
  "\<exists>dlh w' cs. handle_all (im_publish rt_example) NoopTranslator \<lparr>ctx_deadline = None, ctx_err = None\<rparr>
       [(0, NewMessage ''m'' 5 ''a'' None, Sentinel ErrHandlerError),
        (1, NewMessage ''n'' 6 ''b'' None, ErrorString ''boom'')]
       (NewDeadLetterHandler ''dlq'') example_world = Inr (dlh, w') \<and>
     dlq_Count dlh = 2 \<and> length (queue_of w' ''dlq'') = 2"
proof -
  let ?jobs = "[(0, NewMessage ''m'' 5 ''a'' None, Sentinel ErrHandlerError),
        (1, NewMessage ''n'' 6 ''b'' None, ErrorString ''boom'')]"
  have "renderable NoopTranslator ?jobs" by (simp add: renderable_def)
  moreover have "im_ok rt_example example_world" by (simp add: im_ok_def im_inv_example)
  ultimately show ?thesis
    using dlq_count_matches_queue [of rt_example example_world NoopTranslator ?jobs
        "\<lparr>ctx_deadline = None, ctx_err = None\<rparr>" "''dlq''"]
    by (fastforce simp: IsConnected_def)
qed

end
