(* ===== verification/Runner.thy ===== *)
theory Runner
  imports Retry DeadLetter "HOL-Library.Multiset"
begin

text \<open>
  The parts of \<open>challenges/runner/main.go\<close> that compute: the two comparisons of the batch
  section, and the documented composition of \<open>WithRetry\<close> with \<open>DeadLetterHandler\<close>.
\<close>

section \<open>Comparisons\<close>

text \<open>A Go map of counters; a missing key reads as zero.\<close>

definition counter :: "(string \<rightharpoonup> int) \<Rightarrow> string \<Rightarrow> int" where
  "counter m x = (case m x of None \<Rightarrow> 0 | Some n \<Rightarrow> n)"

fun count_up :: "string list \<Rightarrow> (string \<rightharpoonup> int) \<Rightarrow> (string \<rightharpoonup> int)" where
  "count_up [] m = m"
| "count_up (x # xs) m = count_up xs (m(x \<mapsto> counter m x + 1))"

fun count_down :: "string list \<Rightarrow> (string \<rightharpoonup> int) \<Rightarrow> bool" where
  "count_down [] m = True"
| "count_down (x # xs) m =
     (let m' = m(x \<mapsto> counter m x - 1) in if counter m' x < 0 then False else count_down xs m')"

definition equalAsMultiset :: "string list \<Rightarrow> string list \<Rightarrow> bool" where
  "equalAsMultiset a b = (if length a \<noteq> length b then False else count_down b (count_up a Map.empty))"

fun same_elements :: "string list \<Rightarrow> string list \<Rightarrow> nat list \<Rightarrow> bool" where
  "same_elements a b [] = True"
| "same_elements a b (i # is) = (if a ! i \<noteq> b ! i then False else same_elements a b is)"

definition equalSlices :: "string list \<Rightarrow> string list \<Rightarrow> bool" where
  "equalSlices a b = (if length a \<noteq> length b then False else same_elements a b [0..<length a])"

lemma counter_upd [simp]: "counter (m(x \<mapsto> n)) y = (if y = x then n else counter m y)"
  by (simp add: counter_def)

lemma counter_empty [simp]: "counter Map.empty x = 0"
  by (simp add: counter_def)

lemma counter_count_up: "counter (count_up xs m) y = counter m y + int (count (mset xs) y)"
  by (induction xs arbitrary: m) auto

lemma count_down_iff: "(\<forall>y. 0 \<le> counter m y) \<Longrightarrow>
   count_down xs m \<longleftrightarrow> (\<forall>y. int (count (mset xs) y) \<le> counter m y)"
proof (induction xs arbitrary: m)
  case (Cons x xs)
  show ?case
  proof (cases "counter m x - 1 < 0")
    case True
    then have "\<not> int (count (mset (x # xs)) x) \<le> counter m x" by simp
    with True show ?thesis by (auto simp: Let_def)
  next
    case False
    define m' where "m' = m(x \<mapsto> counter m x - 1)"
    have c: "counter m' y = (if y = x then counter m x - 1 else counter m y)" for y
      by (simp add: m'_def del: fun_upd_apply)
    with Cons.prems False have "\<forall>y. 0 \<le> counter m' y" by simp
    note IH = Cons.IH [OF this]
    have "count_down (x # xs) m \<longleftrightarrow> count_down xs m'"
      using False c [of x] by (simp only: count_down.simps Let_def m'_def [symmetric]) simp
    also have "\<dots> \<longleftrightarrow> (\<forall>y. int (count (mset xs) y) \<le> (if y = x then counter m x - 1 else counter m y))"
      unfolding IH c ..
    also have "\<dots> \<longleftrightarrow> (\<forall>y. int (count (mset (x # xs)) y) \<le> counter m y)"
      by (intro all_cong1) auto
    finally show ?thesis .
  qed
qed simp

lemma same_elements_iff: "same_elements a b is \<longleftrightarrow> (\<forall>i \<in> set is. a ! i = b ! i)"
  by (induction "is") auto

text \<open>The comparisons are the ones their names promise.\<close>

lemma equalAsMultiset_iff: "equalAsMultiset a b \<longleftrightarrow> mset a = mset b"
proof -
  have "count_down b (count_up a Map.empty) \<longleftrightarrow> mset b \<subseteq># mset a"
    by (simp add: count_down_iff counter_count_up subseteq_mset_def)
  moreover have "length a = length b \<Longrightarrow> mset b \<subseteq># mset a \<longleftrightarrow> mset a = mset b"
    by (metis less_irrefl mset_subset_size size_mset subset_mset.le_less)
  ultimately show ?thesis
    using mset_eq_length [of a b] by (simp add: equalAsMultiset_def) blast
qed

lemma equalSlices_iff: "equalSlices a b \<longleftrightarrow> a = b"
  unfolding equalSlices_def same_elements_iff list_eq_iff_nth_eq [of a b] by (simp add: Ball_def)

section \<open>Retry, then dead letter\<close>

text \<open>
  The handler \<open>wrapped\<close> of the retry section. \<^const>\<open>None\<close> is a retry loop that does not
  return.
\<close>

definition wrapped ::
  "(float64 \<Rightarrow> float64 \<Rightarrow> float64) \<Rightarrow> (float64 \<Rightarrow> int64) \<Rightarrow>
   (go_context \<Rightarrow> int64 \<Rightarrow> 'w \<Rightarrow> go_error option \<times> 'w) \<Rightarrow>
   (go_context \<Rightarrow> string \<Rightarrow> message \<Rightarrow> 'w \<Rightarrow> go_error option \<times> 'w) \<Rightarrow> translator \<Rightarrow> time \<Rightarrow>
   'w handler \<Rightarrow> RetryPolicy option \<Rightarrow> 'w DeadLetterHandler \<Rightarrow> go_context \<Rightarrow> message \<Rightarrow> 'w \<Rightarrow>
   (go_panic + (go_error option \<times> 'w DeadLetterHandler \<times> 'w)) option" where
  "wrapped pow conv wait publish tn now handler policy dlq ctx m w =
     (case WithRetry pow conv wait handler policy ctx m w of
        None \<Rightarrow> None
      | Some (None, m', w') \<Rightarrow> Some (Inr (None, dlq, w'))
      | Some (Some err, m', w') \<Rightarrow> Some (Handle publish tn now ctx m' (Some err) dlq w'))"

text \<open>The broker as one part of a world that also counts handler calls and records delays.\<close>

definition beside :: "('a \<Rightarrow> 'b \<Rightarrow> 'c \<Rightarrow> 'w \<Rightarrow> go_error option \<times> 'w) \<Rightarrow> 'a \<Rightarrow> 'b \<Rightarrow> 'c \<Rightarrow>
    nat \<times> int64 list \<times> 'w \<Rightarrow> go_error option \<times> (nat \<times> int64 list \<times> 'w)" where
  "beside publish ctx t m = (\<lambda>(calls, delays, w). let (e, w') = publish ctx t m w in (e, (calls, delays, w')))"

interpretation beside_im: publishing "beside (im_publish rt)" "\<lambda>(c, d, w). queue_of w"
    "\<lambda>(c, d, w). IsConnected w" "\<lambda>(c, d, w). im_ok rt w" for rt
proof (unfold_locales, goal_cases)
  case (1 w ctx t m)
  then show ?case
    using impub.publish_inv [of rt "snd (snd w)" ctx t m] by (auto simp: beside_def split: prod.splits)
next
  case (2 w ctx t m w')
  then show ?case
    using impub.publish_ok [of rt "snd (snd w)" ctx t m "snd (snd w')"]
    by (auto simp: beside_def split: prod.splits)
next
  case (3 w ctx t m e w')
  then show ?case
    using impub.publish_fail [of rt "snd (snd w)" ctx t m e "snd (snd w')"]
    by (auto simp: beside_def split: prod.splits)
next
  case (4 w ctx t m)
  then show ?case
    using impub.publish_ready [of rt "snd (snd w)" ctx t m] by (auto simp: beside_def split: prod.splits)
next
  case (5 w ctx t m)
  then show ?case
    using impub.ready_publish [of rt "snd (snd w)" ctx t m] by (auto simp: beside_def split: prod.splits)
qed

section \<open>Properties\<close>



end
