(* ===== verification/Json.thy ===== *)
theory Json
  imports Messaging_Prelude "HOL-Library.List_Lexorder" "HOL-Library.Char_ord"
begin

text \<open>
  JSON text as \<open>encoding/json\<close> writes and reads it: UTF-8, quoting and unquoting of strings, the
  grammar of values with the package's limit on nesting. Strings inside a parsed value are kept
  raw, the way the package keeps them until it knows the type they are decoded into. The texts
  and offsets of the package's errors are not kept, only their kinds.
\<close>

section \<open>UTF-8\<close>

abbreviation code :: "char \<Rightarrow> nat" where
  "code c \<equiv> of_char c"

definition code_in :: "nat \<Rightarrow> nat \<Rightarrow> char \<Rightarrow> bool" where
  "code_in lo hi c \<longleftrightarrow> lo \<le> code c \<and> code c \<le> hi"

definition two_bytes :: "char \<Rightarrow> char \<Rightarrow> bool" where
  "two_bytes c0 c1 \<longleftrightarrow> code_in 0xC2 0xDF c0 \<and> code_in 0x80 0xBF c1"

definition three_bytes :: "char \<Rightarrow> char \<Rightarrow> char \<Rightarrow> bool" where
  "three_bytes c0 c1 c2 \<longleftrightarrow>
     (code c0 = 0xE0 \<and> code_in 0xA0 0xBF c1 \<or> code c0 = 0xED \<and> code_in 0x80 0x9F c1 \<or>
      (code_in 0xE1 0xEC c0 \<or> code_in 0xEE 0xEF c0) \<and> code_in 0x80 0xBF c1) \<and> code_in 0x80 0xBF c2"

definition four_bytes :: "char \<Rightarrow> char \<Rightarrow> char \<Rightarrow> char \<Rightarrow> bool" where
  "four_bytes c0 c1 c2 c3 \<longleftrightarrow>
     (code c0 = 0xF0 \<and> code_in 0x90 0xBF c1 \<or> code c0 = 0xF4 \<and> code_in 0x80 0x8F c1 \<or>
      code_in 0xF1 0xF3 c0 \<and> code_in 0x80 0xBF c1) \<and> code_in 0x80 0xBF c2 \<and> code_in 0x80 0xBF c3"

text \<open>The runes of a string, as a \<open>range\<close> loop visits them; a byte that starts none is \<open>Bad\<close>.\<close>

datatype rune = Good string | Bad

fun first_rune :: "string \<Rightarrow> (rune \<times> string) option" where
  "first_rune [] = None"
| "first_rune (c0 # s) =
     (if code c0 < 0x80 then Some (Good [c0], s)
      else case s of
        c1 # s1 \<Rightarrow>
          if two_bytes c0 c1 then Some (Good [c0, c1], s1)
          else (case s1 of
            c2 # s2 \<Rightarrow>
              if three_bytes c0 c1 c2 then Some (Good [c0, c1, c2], s2)
              else (case s2 of
                c3 # s3 \<Rightarrow> if four_bytes c0 c1 c2 c3 then Some (Good [c0, c1, c2, c3], s3) else Some (Bad, s)
              | [] \<Rightarrow> Some (Bad, s))
          | [] \<Rightarrow> Some (Bad, s))
      | [] \<Rightarrow> Some (Bad, s))"

lemma first_rune_shorter: "first_rune s = Some (r, s') \<Longrightarrow> length s' < length s"
  by (cases s rule: first_rune.cases) (auto split: list.splits if_splits)

function runes :: "string \<Rightarrow> rune list" where
  "runes s = (case first_rune s of None \<Rightarrow> [] | Some (r, s') \<Rightarrow> r # runes s')"
  by auto
termination by (relation "measure length") (auto dest: first_rune_shorter)

declare runes.simps [simp del]

definition replacement :: string where
  "replacement = [CHR 0xEF, CHR 0xBF, CHR 0xBD]"

fun rune_text :: "rune \<Rightarrow> string" where
  "rune_text (Good t) = t"
| "rune_text Bad = replacement"

definition sanitize :: "string \<Rightarrow> string" where
  "sanitize s = concat (map rune_text (runes s))"

definition valid_utf8 :: "string \<Rightarrow> bool" where
  "valid_utf8 s \<longleftrightarrow> Bad \<notin> set (runes s)"

definition encode_rune :: "nat \<Rightarrow> string" where
  "encode_rune r =
     (if r < 0x80 then [char_of r]
      else if r < 0x800 then [char_of (0xC0 + r div 64), char_of (0x80 + r mod 64)]
      else if 0xD800 \<le> r \<and> r \<le> 0xDFFF \<or> 0x10FFFF < r then replacement
      else if r < 0x10000
        then [char_of (0xE0 + r div 4096), char_of (0x80 + r div 64 mod 64), char_of (0x80 + r mod 64)]
      else [char_of (0xF0 + r div 262144), char_of (0x80 + r div 4096 mod 64),
            char_of (0x80 + r div 64 mod 64), char_of (0x80 + r mod 64)])"

section \<open>Strings\<close>

abbreviation dquote :: char where "dquote \<equiv> CHR 0x22"
abbreviation bslash :: char where "bslash \<equiv> CHR 0x5C"

definition hex_digit :: "nat \<Rightarrow> char" where
  "hex_digit d = (if d < 10 then char_of (48 + d) else char_of (87 + d))"

definition hex_val :: "char \<Rightarrow> nat option" where
  "hex_val c =
     (if code_in 48 57 c then Some (code c - 48)
      else if code_in 97 102 c then Some (code c - 87)
      else if code_in 65 70 c then Some (code c - 55)
      else None)"

text \<open>\<open>appendString\<close> with the HTML escaping that \<open>Marshal\<close> switches on.\<close>

definition html_safe :: "char \<Rightarrow> bool" where
  "html_safe c \<longleftrightarrow> 32 \<le> code c \<and> c \<notin> {dquote, bslash, CHR ''&'', CHR ''<'', CHR ''>''}"

fun quote_rune :: "rune \<Rightarrow> string" where
  "quote_rune Bad = bslash # ''ufffd''"
| "quote_rune (Good [c]) =
     (if html_safe c then [c]
      else if c = dquote \<or> c = bslash then [bslash, c]
      else if c = CHR 0x08 then bslash # ''b''
      else if c = CHR 0x0C then bslash # ''f''
      else if c = CHR 0x0A then bslash # ''n''
      else if c = CHR 0x0D then bslash # ''r''
      else if c = CHR 0x09 then bslash # ''t''
      else bslash # ''u00'' @ [hex_digit (code c div 16), hex_digit (code c mod 16)])"
| "quote_rune (Good t) =
     (if t = [CHR 0xE2, CHR 0x80, CHR 0xA8] then bslash # ''u2028''
      else if t = [CHR 0xE2, CHR 0x80, CHR 0xA9] then bslash # ''u2029''
      else t)"

definition quote :: "string \<Rightarrow> string" where
  "quote s = concat (map quote_rune (runes s))"

text \<open>The scanner's states inside a string: where it ends, and that its escapes are well formed.\<close>

definition simple_escape :: "char \<Rightarrow> char option" where
  "simple_escape e =
     (if e = dquote \<or> e = bslash \<or> e = CHR ''/'' then Some e
      else if e = CHR ''b'' then Some (CHR 0x08)
      else if e = CHR ''f'' then Some (CHR 0x0C)
      else if e = CHR ''n'' then Some (CHR 0x0A)
      else if e = CHR ''r'' then Some (CHR 0x0D)
      else if e = CHR ''t'' then Some (CHR 0x09)
      else None)"

fun getu4 :: "string \<Rightarrow> (nat \<times> string) option" where
  "getu4 (a # b # c # d # s) =
     (case (hex_val a, hex_val b, hex_val c, hex_val d) of
        (Some i, Some j, Some k, Some l) \<Rightarrow> Some (4096 * i + 256 * j + 16 * k + l, s)
      | _ \<Rightarrow> None)"
| "getu4 _ = None"

fun scan_string :: "string \<Rightarrow> (string \<times> string) option" where
  "scan_string [] = None"
| "scan_string (c # s) =
     (if c = dquote then Some ([], s)
      else if c = bslash then
        (case s of
           [] \<Rightarrow> None
         | e # s' \<Rightarrow>
             if simple_escape e \<noteq> None \<or> e = CHR ''u'' \<and> getu4 s' \<noteq> None
             then map_option (\<lambda>(raw, r). (c # e # raw, r)) (scan_string s')
             else None)
      else if code c < 32 then None
      else map_option (\<lambda>(raw, r). (c # raw, r)) (scan_string s))"

definition is_surrogate :: "nat \<Rightarrow> bool" where
  "is_surrogate r \<longleftrightarrow> 0xD800 \<le> r \<and> r < 0xE000"

definition decode_surrogates :: "nat \<Rightarrow> nat \<Rightarrow> nat option" where
  "decode_surrogates r1 r2 =
     (if 0xD800 \<le> r1 \<and> r1 < 0xDC00 \<and> 0xDC00 \<le> r2 \<and> r2 < 0xE000
      then Some ((r1 - 0xD800) * 1024 + (r2 - 0xDC00) + 0x10000) else None)"

fun second_u4 :: "string \<Rightarrow> (nat \<times> string) option" where
  "second_u4 (b # u # s) = (if b = bslash \<and> u = CHR ''u'' then getu4 s else None)"
| "second_u4 _ = None"

lemma getu4_shorter: "getu4 s = Some (r, s') \<Longrightarrow> length s' < length s"
  by (cases s rule: getu4.cases) (auto split: option.splits)

lemma second_u4_shorter: "second_u4 s = Some (r, s') \<Longrightarrow> length s' < length s"
  by (cases s rule: second_u4.cases) (auto dest: getu4_shorter split: if_splits)

text \<open>\<open>unquoteBytes\<close>, on the text between the quotes.\<close>

function unquote :: "string \<Rightarrow> string option" where
  "unquote [] = Some []"
| "unquote (c # s) =
     (if c = bslash then
        (case s of
           [] \<Rightarrow> None
         | e # s' \<Rightarrow>
             (case simple_escape e of
                Some x \<Rightarrow> map_option ((#) x) (unquote s')
              | None \<Rightarrow>
                  if e = CHR 0x27 then map_option ((#) e) (unquote s')
                  else if e \<noteq> CHR ''u'' then None
                  else (case getu4 s' of
                          None \<Rightarrow> None
                        | Some (r, s2) \<Rightarrow>
                            if is_surrogate r then
                              (case second_u4 s2 of
                                 None \<Rightarrow> map_option ((@) replacement) (unquote s2)
                               | Some (r', s3) \<Rightarrow>
                                   (case decode_surrogates r r' of
                                      None \<Rightarrow> map_option ((@) replacement) (unquote s2)
                                    | Some dec \<Rightarrow> map_option ((@) (encode_rune dec)) (unquote s3)))
                            else map_option ((@) (encode_rune r)) (unquote s2))))
      else if c = dquote \<or> code c < 32 then None
      else (case first_rune (c # s) of
              None \<Rightarrow> Some []
            | Some (r, s') \<Rightarrow> map_option ((@) (rune_text r)) (unquote s')))"
  by pat_completeness auto
termination
  by (relation "measure length")
     (auto dest!: getu4_shorter second_u4_shorter first_rune_shorter simp del: first_rune.simps)

section \<open>What is quoted is read back\<close>

definition good_rune :: "string \<Rightarrow> bool" where
  "good_rune t \<longleftrightarrow> (\<exists>c. t = [c] \<and> code c < 0x80) \<or> (\<exists>c0 c1. t = [c0, c1] \<and> two_bytes c0 c1) \<or>
     (\<exists>c0 c1 c2. t = [c0, c1, c2] \<and> three_bytes c0 c1 c2) \<or>
     (\<exists>c0 c1 c2 c3. t = [c0, c1, c2, c3] \<and> four_bytes c0 c1 c2 c3)"

lemma good_rune_cases [consumes 1, case_names ascii two three four]:
  assumes "good_rune t"
  obtains c where "t = [c]" "code c < 0x80"
    | c0 c1 where "t = [c0, c1]" "two_bytes c0 c1"
    | c0 c1 c2 where "t = [c0, c1, c2]" "three_bytes c0 c1 c2"
    | c0 c1 c2 c3 where "t = [c0, c1, c2, c3]" "four_bytes c0 c1 c2 c3"
  using assms by (auto simp: good_rune_def)

lemmas byte_class_defs = two_bytes_def three_bytes_def four_bytes_def code_in_def

lemma byte_classes_disjoint:
  "two_bytes c0 c1 \<Longrightarrow> \<not> three_bytes c0 c1' c2" "two_bytes c0 c1 \<Longrightarrow> \<not> four_bytes c0 c1' c2 c3"
  "three_bytes c0 c1 c2 \<Longrightarrow> \<not> two_bytes c0 c1'" "three_bytes c0 c1 c2 \<Longrightarrow> \<not> four_bytes c0 c1' c2' c3"
  "four_bytes c0 c1 c2 c3 \<Longrightarrow> \<not> two_bytes c0 c1'" "four_bytes c0 c1 c2 c3 \<Longrightarrow> \<not> three_bytes c0 c1' c2'"
  by (auto simp: byte_class_defs)

lemma byte_classes_high:
  "two_bytes c0 c1 \<Longrightarrow> 0x80 \<le> code c0" "two_bytes c0 c1 \<Longrightarrow> 0x80 \<le> code c1"
  "three_bytes c0 c1 c2 \<Longrightarrow> 0x80 \<le> code c0" "three_bytes c0 c1 c2 \<Longrightarrow> 0x80 \<le> code c1"
  "three_bytes c0 c1 c2 \<Longrightarrow> 0x80 \<le> code c2"
  "four_bytes c0 c1 c2 c3 \<Longrightarrow> 0x80 \<le> code c0" "four_bytes c0 c1 c2 c3 \<Longrightarrow> 0x80 \<le> code c1"
  "four_bytes c0 c1 c2 c3 \<Longrightarrow> 0x80 \<le> code c2" "four_bytes c0 c1 c2 c3 \<Longrightarrow> 0x80 \<le> code c3"
  by (auto simp: byte_class_defs)

lemma first_rune_good: "good_rune t \<Longrightarrow> first_rune (t @ s) = Some (Good t, s)"
  by (cases t rule: good_rune_cases)
     (auto dest: byte_classes_high byte_classes_disjoint simp: not_less)

lemma first_rune_is_good: "first_rune s = Some (Good t, s') \<Longrightarrow> good_rune t \<and> s = t @ s'"
  by (cases s rule: first_rune.cases) (auto simp: good_rune_def split: list.splits if_splits)

lemma runes_good: "Good t \<in> set (runes s) \<Longrightarrow> good_rune t"
proof (induction s rule: runes.induct)
  case (1 s)
  show ?case
  proof (cases "first_rune s")
    case None
    with 1(2) show ?thesis by (simp add: runes.simps [of s])
  next
    case (Some p)
    obtain r s' where p: "p = (r, s')" by fastforce
    with 1 Some show ?thesis
      by (cases "r = Good t") (auto simp: runes.simps [of s] dest: first_rune_is_good)
  qed
qed

lemma runes_concat: "valid_utf8 s \<Longrightarrow> concat (map rune_text (runes s)) = s"
proof (induction s rule: runes.induct)
  case (1 s)
  show ?case
  proof (cases "first_rune s")
    case None
    then have "s = []" by (cases s) (auto split: list.splits if_splits)
    then show ?thesis by (simp add: runes.simps)
  next
    case (Some p)
    obtain r s' where p: "p = (r, s')" by fastforce
    with 1 Some have "concat (map rune_text (runes s')) = s'" "r \<noteq> Bad"
      by (auto simp: valid_utf8_def runes.simps [of s])
    with Some p show ?thesis by (cases r) (auto simp: runes.simps [of s] dest: first_rune_is_good)
  qed
qed

lemma sanitize_valid [simp]: "valid_utf8 s \<Longrightarrow> sanitize s = s"
  by (simp add: sanitize_def runes_concat)

lemma hex_val_digit [simp]: "d < 16 \<Longrightarrow> hex_val (hex_digit d) = Some d"
  by (auto simp: hex_val_def hex_digit_def code_in_def)

lemma encode_rune_ascii [simp]: "n < 0x80 \<Longrightarrow> encode_rune n = [char_of n]"
  by (simp add: encode_rune_def)

lemma high_not_special:
  assumes "0x80 \<le> code c"
  shows "c \<noteq> dquote" "c \<noteq> bslash" "\<not> code c < 32"
  using assms by auto

lemma getu4_escape:
  assumes "c < 0x80"
  shows "getu4 (CHR ''0'' # CHR ''0'' # hex_digit (c div 16) # hex_digit (c mod 16) # s) = Some (c, s)"
proof -
  from assms have "c div 16 < 16" "c mod 16 < 16" by auto
  then show ?thesis by (simp add: hex_val_def [of "CHR ''0''"] code_in_def)
qed

lemma hex_digit_plain:
  assumes "d < 16"
  shows "hex_digit d \<noteq> dquote" "hex_digit d \<noteq> bslash" "\<not> code (hex_digit d) < 32"
proof -
  have "48 \<le> code (hex_digit d)" "code (hex_digit d) \<noteq> 92"
    using assms by (auto simp: hex_digit_def)
  then show "hex_digit d \<noteq> dquote" "hex_digit d \<noteq> bslash" "\<not> code (hex_digit d) < 32" by auto
qed

lemma unsafe_ascii:
  assumes "\<not> html_safe c"
  shows "code c < 32 \<or> c \<in> {dquote, bslash, CHR ''&'', CHR ''<'', CHR ''>''}"
  using assms by (auto simp: html_safe_def)

definition runeok :: "rune \<Rightarrow> bool" where
  "runeok r \<longleftrightarrow> (case r of Bad \<Rightarrow> True | Good t \<Rightarrow> good_rune t)"

lemma runes_ok: "r \<in> set (runes s) \<Longrightarrow> runeok r"
  by (cases r) (auto simp: runeok_def dest: runes_good)

lemma quote_ascii_cases:
  obtains (safe) "quote_rune (Good [c]) = [c]" "c \<noteq> dquote" "c \<noteq> bslash" "\<not> code c < 32"
    | (special) e where "quote_rune (Good [c]) = [bslash, e]" "simple_escape e = Some c"
    | (hex) "quote_rune (Good [c]) =
        bslash # CHR ''u'' # CHR ''0'' # CHR ''0'' # hex_digit (code c div 16) # [hex_digit (code c mod 16)]"
proof (cases "html_safe c")
  case True
  then show thesis by (intro safe) (auto simp: html_safe_def)
next
  case False
  show thesis
  proof (cases "c \<in> {dquote, bslash, CHR 0x08, CHR 0x0C, CHR 0x0A, CHR 0x0D, CHR 0x09}")
    case True
    then show thesis
      by (elim insertE) (rule special, simp add: html_safe_def, simp add: simple_escape_def | simp)+
  next
    case no: False
    with False show thesis by (intro hex) simp
  qed
qed

definition line_separator :: string where "line_separator = [CHR 0xE2, CHR 0x80, CHR 0xA8]"
definition paragraph_separator :: string where "paragraph_separator = [CHR 0xE2, CHR 0x80, CHR 0xA9]"

lemma quote_multi_cases [consumes 2, case_names plain ls ps]:
  assumes "good_rune t" and "\<nexists>c. t = [c]"
  obtains (plain) "quote_rune (Good t) = t"
    | (ls) "t = line_separator" "quote_rune (Good t) = bslash # ''u2028''"
    | (ps) "t = paragraph_separator" "quote_rune (Good t) = bslash # ''u2029''"
proof -
  from assms obtain c0 c1 cs where t: "t = c0 # c1 # cs" by (auto simp: good_rune_def)
  consider "t = line_separator" | "t = paragraph_separator" | "t \<noteq> line_separator \<and> t \<noteq> paragraph_separator"
    by blast
  then show thesis
  proof cases
    case 1
    then show thesis by (intro ls) (simp_all add: line_separator_def)
  next
    case 2
    then show thesis by (intro ps) (simp_all add: paragraph_separator_def)
  next
    case 3
    with t show thesis by (intro plain) (simp add: line_separator_def paragraph_separator_def)
  qed
qed

lemma good_multi_high:
  assumes "good_rune t" and "\<nexists>c. t = [c]"
  shows "\<forall>c \<in> set t. 0x80 \<le> code c"
  using assms by (cases t rule: good_rune_cases) (auto dest: byte_classes_high)

lemma scan_plain:
  "\<forall>c \<in> set t. 0x80 \<le> code c \<Longrightarrow> scan_string (t @ s) = map_option (\<lambda>(raw, x). (t @ raw, x)) (scan_string s)"
proof (induction t)
  case (Cons c t)
  then have "0x80 \<le> code c" by simp
  from high_not_special [OF this] Cons show ?case
    by (simp add: option.map_comp comp_def case_prod_unfold)
qed (simp add: option.map_id)

lemma char_of_consts:
  "char_of (0xE2 :: nat) = CHR 0xE2" "char_of (0x80 :: nat) = CHR 0x80" "char_of (0xA8 :: nat) = CHR 0xA8"
  "char_of (0xA9 :: nat) = CHR 0xA9" "char_of (0xEF :: nat) = CHR 0xEF" "char_of (0xBF :: nat) = CHR 0xBF"
  "char_of (0xBD :: nat) = CHR 0xBD"
  by (simp_all add: char_of_eq_iff)

lemma encode_rune_consts:
  "encode_rune 0x2028 = line_separator" "encode_rune 0x2029 = paragraph_separator"
  "encode_rune 0xFFFD = replacement"
  by (simp_all add: encode_rune_def char_of_consts line_separator_def paragraph_separator_def replacement_def)

lemma getu4_consts:
  "getu4 (''2028'' @ s) = Some (0x2028, s)" "getu4 (''2029'' @ s) = Some (0x2029, s)"
  "getu4 (''fffd'' @ s) = Some (0xFFFD, s)"
  by (simp_all add: hex_val_def code_in_def)

lemma scan_u4:
  assumes "getu4 (h @ s) = Some (n, s)" and "\<forall>c \<in> set h. c \<noteq> dquote \<and> c \<noteq> bslash \<and> \<not> code c < 32"
  shows "scan_string ((bslash # CHR ''u'' # h) @ s) =
    map_option (\<lambda>(raw, x). ((bslash # CHR ''u'' # h) @ raw, x)) (scan_string s)"
proof -
  have "scan_string (h @ s) = map_option (\<lambda>(raw, x). (h @ raw, x)) (scan_string s)"
    using assms(2) by (induction h) (simp_all add: option.map_comp comp_def case_prod_unfold option.map_ident)
  with assms(1) show ?thesis by (simp add: option.map_comp comp_def case_prod_unfold)
qed

lemma unquote_u4:
  assumes "getu4 (h @ s) = Some (n, s)" and "\<not> is_surrogate n"
  shows "unquote ((bslash # CHR ''u'' # h) @ s) = map_option ((@) (encode_rune n)) (unquote s)"
  using assms by (simp add: simple_escape_def del: getu4.simps)

lemma scan_quote_rune:
  assumes "runeok r"
  shows "scan_string (quote_rune r @ s) = map_option (\<lambda>(raw, x). (quote_rune r @ raw, x)) (scan_string s)"
proof (cases r)
  case (Good t)
  with assms have g: "good_rune t" by (simp add: runeok_def)
  show ?thesis
  proof (cases "\<exists>c. t = [c]")
    case True
    then obtain c where c: "t = [c]" by blast
    with g have lt: "code c < 0x80" by (auto simp: good_rune_def)
    then have d: "code c div 16 < 16" "code c mod 16 < 16" by auto
    show ?thesis
    proof (cases c rule: quote_ascii_cases)
      case hex
      have "getu4 ([CHR ''0'', CHR ''0'', hex_digit (code c div 16), hex_digit (code c mod 16)] @ s) = Some (code c, s)"
        using getu4_escape [OF lt] by simp
      from scan_u4 [OF this] Good c hex hex_digit_plain [OF d(1)] hex_digit_plain [OF d(2)] show ?thesis by simp
    qed (use Good c in \<open>simp_all add: option.map_comp comp_def case_prod_unfold del: quote_rune.simps\<close>)
  next
    case False
    from g False show ?thesis
    proof (cases rule: quote_multi_cases)
      case plain
      with Good scan_plain [OF good_multi_high [OF g False]] show ?thesis by simp
    qed (use Good scan_u4 [OF getu4_consts(1)] scan_u4 [OF getu4_consts(2)] in \<open>simp_all del: quote_rune.simps scan_string.simps\<close>)
  qed
next
  case Bad
  with scan_u4 [OF getu4_consts(3)] show ?thesis by simp
qed

lemma unquote_quote_rune:
  assumes "runeok r"
  shows "unquote (quote_rune r @ s) = map_option ((@) (rune_text r)) (unquote s)"
proof (cases r)
  case (Good t)
  with assms have g: "good_rune t" by (simp add: runeok_def)
  note f = first_rune_good [OF g]
  show ?thesis
  proof (cases "\<exists>c. t = [c]")
    case True
    then obtain c where c: "t = [c]" by blast
    with g have lt: "code c < 0x80" by (auto simp: good_rune_def)
    have m: "(@) [c] = (#) c" by auto
    show ?thesis
    proof (cases c rule: quote_ascii_cases)
      case safe
      with Good c f [of s] show ?thesis by (simp add: m del: first_rune.simps quote_rune.simps)
    next
      case (special e)
      with Good c show ?thesis by (simp add: m del: first_rune.simps quote_rune.simps)
    next
      case hex
      have "getu4 ([CHR ''0'', CHR ''0'', hex_digit (code c div 16), hex_digit (code c mod 16)] @ s) = Some (code c, s)"
        using getu4_escape [OF lt] by simp
      from unquote_u4 [OF this] Good c hex lt show ?thesis
        by (simp add: is_surrogate_def del: quote_rune.simps unquote.simps)
    qed
  next
    case False
    then obtain c cs where t: "t = c # cs" using g by (auto simp: good_rune_def)
    with good_multi_high [OF g False] have "0x80 \<le> code c" by simp
    note hi = high_not_special [OF this]
    from g False show ?thesis
    proof (cases rule: quote_multi_cases)
      case plain
      with Good f [of s] t hi show ?thesis by (simp del: first_rune.simps quote_rune.simps)
    next
      case ls
      with Good unquote_u4 [OF getu4_consts(1)] show ?thesis
        by (simp add: encode_rune_consts is_surrogate_def del: quote_rune.simps unquote.simps)
    next
      case ps
      with Good unquote_u4 [OF getu4_consts(2)] show ?thesis
        by (simp add: encode_rune_consts is_surrogate_def del: quote_rune.simps unquote.simps)
    qed
  qed
next
  case Bad
  with unquote_u4 [OF getu4_consts(3)] show ?thesis
    by (simp add: encode_rune_consts is_surrogate_def del: unquote.simps)
qed

lemma scan_quote: "scan_string (quote s @ dquote # rest) = Some (quote s, rest)"
proof -
  have "\<forall>r \<in> set rs. runeok r \<Longrightarrow>
      scan_string (concat (map quote_rune rs) @ dquote # rest) = Some (concat (map quote_rune rs), rest)" for rs
    by (induction rs) (simp_all add: scan_quote_rune)
  with runes_ok show ?thesis by (simp add: quote_def)
qed

lemma unquote_quote: "unquote (quote s) = Some (sanitize s)"
proof -
  have "\<forall>r \<in> set rs. runeok r \<Longrightarrow>
      unquote (concat (map quote_rune rs)) = Some (concat (map rune_text rs))" for rs
    by (induction rs) (simp_all add: unquote_quote_rune)
  with runes_ok show ?thesis by (simp add: quote_def sanitize_def)
qed

section \<open>Values\<close>

datatype json =
    JNull
  | JBool bool
  | JNumber string
  | JString string
  | JArray "json list"
  | JObject "(string \<times> json) list"

fun join :: "string list \<Rightarrow> string" where
  "join [] = []"
| "join [x] = x"
| "join (x # y # zs) = x @ CHR '','' # join (y # zs)"

fun json_text :: "json \<Rightarrow> string" where
  "json_text JNull = ''null''"
| "json_text (JBool b) = (if b then ''true'' else ''false'')"
| "json_text (JNumber n) = n"
| "json_text (JString raw) = dquote # raw @ [dquote]"
| "json_text (JArray vs) = ''['' @ join (map json_text vs) @ '']''"
| "json_text (JObject ms) =
     ''{'' @ join (map (\<lambda>(k, v). dquote # k @ dquote # '':'' @ json_text v) ms) @ ''}''"

section \<open>The scanner\<close>

definition is_space :: "char \<Rightarrow> bool" where
  "is_space c \<longleftrightarrow> c \<in> {CHR '' '', CHR 0x09, CHR 0x0D, CHR 0x0A}"

definition skip_ws :: "string \<Rightarrow> string" where
  "skip_ws s = dropWhile is_space s"

definition is_digit :: "char \<Rightarrow> bool" where
  "is_digit c \<longleftrightarrow> code_in 48 57 c"

fun expect :: "string \<Rightarrow> string \<Rightarrow> string option" where
  "expect [] s = Some s"
| "expect (c # cs) [] = None"
| "expect (c # cs) (d # s) = (if c = d then expect cs s else None)"

definition scan_digits :: "string \<Rightarrow> (string \<times> string) option" where
  "scan_digits s =
     (if takeWhile is_digit s = [] then None else Some (takeWhile is_digit s, dropWhile is_digit s))"

definition scan_integer :: "string \<Rightarrow> (string \<times> string) option" where
  "scan_integer s =
     (case s of c # r \<Rightarrow> if c = CHR ''0'' then Some ([c], r) else scan_digits s | [] \<Rightarrow> None)"

definition scan_fraction :: "string \<Rightarrow> (string \<times> string) option" where
  "scan_fraction s =
     (case s of
        c # r \<Rightarrow> if c = CHR ''.'' then map_option (\<lambda>(ds, r'). (c # ds, r')) (scan_digits r) else Some ([], s)
      | [] \<Rightarrow> Some ([], s))"

definition scan_exponent :: "string \<Rightarrow> (string \<times> string) option" where
  "scan_exponent s =
     (case s of
        c # r \<Rightarrow>
          if c = CHR ''e'' \<or> c = CHR ''E'' then
            (case r of
               g # r' \<Rightarrow>
                 if g = CHR ''+'' \<or> g = CHR ''-''
                 then map_option (\<lambda>(ds, x). (c # g # ds, x)) (scan_digits r')
                 else map_option (\<lambda>(ds, x). (c # ds, x)) (scan_digits r)
             | [] \<Rightarrow> None)
          else Some ([], s)
      | [] \<Rightarrow> Some ([], s))"

definition scan_number :: "string \<Rightarrow> (string \<times> string) option" where
  "scan_number s =
     (let (sign, s0) = (case s of c # r \<Rightarrow> if c = CHR ''-'' then ([c], r) else ([], s) | [] \<Rightarrow> ([], s))
      in case scan_integer s0 of
           None \<Rightarrow> None
         | Some (n, s1) \<Rightarrow>
             (case scan_fraction s1 of
                None \<Rightarrow> None
              | Some (f, s2) \<Rightarrow>
                  (case scan_exponent s2 of None \<Rightarrow> None | Some (e, s3) \<Rightarrow> Some (sign @ n @ f @ e, s3))))"

lemma skip_ws_length: "length (skip_ws s) \<le> length s"
  by (simp add: skip_ws_def length_dropWhile_le)

lemma skip_ws_Cons: "skip_ws s = c # r \<Longrightarrow> length r < length s"
  using skip_ws_length [of s] by simp

lemma scan_string_shorter: "scan_string s = Some (raw, r) \<Longrightarrow> length r < length s"
  by (induction s arbitrary: raw r rule: scan_string.induct) (fastforce split: if_splits list.splits)+

text \<open>
  The first argument is how many more objects and arrays may be opened: the scanner allows a
  nesting of 10000. The comparison of lengths always holds.
\<close>

function parse_value :: "nat \<Rightarrow> string \<Rightarrow> (json \<times> string) option"
  and parse_elements :: "nat \<Rightarrow> string \<Rightarrow> (json list \<times> string) option"
  and parse_members :: "nat \<Rightarrow> string \<Rightarrow> ((string \<times> json) list \<times> string) option" where
  "parse_value d s =
     (case skip_ws s of
        [] \<Rightarrow> None
      | c # r \<Rightarrow>
          if c = dquote then map_option (\<lambda>(raw, x). (JString raw, x)) (scan_string r)
          else if c = CHR ''{'' then
            if d = 0 then None
            else (case skip_ws r of
                    [] \<Rightarrow> None
                  | c' # r' \<Rightarrow>
                      if c' = CHR ''}'' then Some (JObject [], r')
                      else map_option (\<lambda>(ms, x). (JObject ms, x)) (parse_members (d - 1) r))
          else if c = CHR ''['' then
            if d = 0 then None
            else (case skip_ws r of
                    [] \<Rightarrow> None
                  | c' # r' \<Rightarrow>
                      if c' = CHR '']'' then Some (JArray [], r')
                      else map_option (\<lambda>(vs, x). (JArray vs, x)) (parse_elements (d - 1) r))
          else if c = CHR ''t'' then map_option (\<lambda>x. (JBool True, x)) (expect ''rue'' r)
          else if c = CHR ''f'' then map_option (\<lambda>x. (JBool False, x)) (expect ''alse'' r)
          else if c = CHR ''n'' then map_option (\<lambda>x. (JNull, x)) (expect ''ull'' r)
          else map_option (\<lambda>(n, x). (JNumber n, x)) (scan_number (c # r)))"
| "parse_elements d s =
     (case parse_value d s of
        None \<Rightarrow> None
      | Some (v, r) \<Rightarrow>
          (case skip_ws r of
             [] \<Rightarrow> None
           | c # r' \<Rightarrow>
               if c = CHR '']'' then Some ([v], r')
               else if c = CHR '','' \<and> length r' < length s
                 then map_option (\<lambda>(vs, x). (v # vs, x)) (parse_elements d r')
               else None))"
| "parse_members d s =
     (case skip_ws s of
        [] \<Rightarrow> None
      | q # r0 \<Rightarrow>
          if q \<noteq> dquote then None
          else (case scan_string r0 of
                  None \<Rightarrow> None
                | Some (k, r1) \<Rightarrow>
                    (case skip_ws r1 of
                       [] \<Rightarrow> None
                     | c # r2 \<Rightarrow>
                         if c \<noteq> CHR '':'' then None
                         else (case parse_value d r2 of
                                 None \<Rightarrow> None
                               | Some (v, r3) \<Rightarrow>
                                   (case skip_ws r3 of
                                      [] \<Rightarrow> None
                                    | c' # r4 \<Rightarrow>
                                        if c' = CHR ''}'' then Some ([(k, v)], r4)
                                        else if c' = CHR '','' \<and> length r4 < length s
                                          then map_option (\<lambda>(ms, x). ((k, v) # ms, x)) (parse_members d r4)
                                        else None)))))"
  by pat_completeness auto
termination
proof (relation "measure (case_sum (\<lambda>(d, s). 2 * length s) (case_sum (\<lambda>(d, s). 2 * length s + 1) (\<lambda>(d, s). 2 * length s + 1)))",
    goal_cases)
  case (4 d s)
  then show ?case by simp
next
  case (6 d s q r0 x k r1 c r2)
  then show ?case by (auto dest!: skip_ws_Cons scan_string_shorter)
qed (auto dest!: skip_ws_Cons)

declare parse_value.simps [simp del] parse_elements.simps [simp del] parse_members.simps [simp del]

definition json_parse :: "string \<Rightarrow> json option" where
  "json_parse s =
     (case parse_value 10000 s of
        None \<Rightarrow> None
      | Some (v, r) \<Rightarrow> if skip_ws r = [] then Some v else None)"

section \<open>What is written is parsed back\<close>

text \<open>Values that the encoder writes for structs, maps and slices of strings: no number among them.\<close>

definition scannable :: "string \<Rightarrow> bool" where
  "scannable raw \<longleftrightarrow> (\<forall>rest. scan_string (raw @ dquote # rest) = Some (raw, rest))"

fun writable :: "nat \<Rightarrow> json \<Rightarrow> bool" where
  "writable d JNull = True"
| "writable d (JBool b) = True"
| "writable d (JNumber n) = False"
| "writable d (JString raw) = scannable raw"
| "writable d (JArray vs) = (0 < d \<and> (\<forall>v \<in> set vs. writable (d - 1) v))"
| "writable d (JObject ms) = (0 < d \<and> (\<forall>(k, v) \<in> set ms. scannable k \<and> writable (d - 1) v))"

lemma scannable_quote [simp]: "scannable (quote s)"
  by (simp add: scannable_def scan_quote)

lemma skip_ws_simps [simp]:
  "skip_ws [] = []" "\<not> is_space c \<Longrightarrow> skip_ws (c # s) = c # s"
  by (simp_all add: skip_ws_def)

lemma not_space [simp]:
  "\<not> is_space dquote" "\<not> is_space (CHR '','')" "\<not> is_space (CHR '':'')" "\<not> is_space (CHR ''{'')"
  "\<not> is_space (CHR ''}'')" "\<not> is_space (CHR ''['')" "\<not> is_space (CHR '']'')" "\<not> is_space (CHR ''n'')"
  "\<not> is_space (CHR ''t'')" "\<not> is_space (CHR ''f'')"
  by (simp_all add: is_space_def)

text \<open>The text of a value starts with a character that is neither space nor a closing bracket.\<close>

lemma json_text_head:
  assumes "writable d v"
  shows "\<exists>c r. json_text v = c # r \<and> \<not> is_space c \<and> c \<noteq> CHR '']'' \<and> c \<noteq> CHR ''}''"
  using assms by (cases v) auto

lemma parse_elements_text:
  assumes "vs \<noteq> []" and "\<And>v rest. v \<in> set vs \<Longrightarrow> parse_value d (json_text v @ rest) = Some (v, rest)"
  shows "parse_elements d (join (map json_text vs) @ CHR '']'' # rest) = Some (vs, rest)"
  using assms
proof (induction vs rule: induct_list012)
  case (2 v)
  then show ?case by (subst parse_elements.simps) simp
next
  case (3 v w vs)
  have "parse_elements d (join (map json_text (w # vs)) @ CHR '']'' # rest) = Some (w # vs, rest)"
    using 3 by auto
  with 3(4) show ?case by (subst parse_elements.simps) simp
qed simp

lemma parse_members_text:
  assumes "ms \<noteq> []"
    and "\<And>k v rest. (k, v) \<in> set ms \<Longrightarrow> scannable k \<and> parse_value d (json_text v @ rest) = Some (v, rest)"
  shows "parse_members d (join (map (\<lambda>(k, v). dquote # k @ dquote # '':'' @ json_text v) ms) @ CHR ''}'' # rest) =
    Some (ms, rest)"
  using assms
proof (induction ms rule: induct_list012)
  case (2 m)
  obtain k v where "m = (k, v)" by fastforce
  with 2 show ?case by (subst parse_members.simps) (simp add: scannable_def)
next
  case (3 m n ms)
  obtain k v where m: "m = (k, v)" by fastforce
  have "parse_members d (join (map (\<lambda>(k, v). dquote # k @ dquote # '':'' @ json_text v) (n # ms)) @ CHR ''}'' # rest) =
      Some (n # ms, rest)"
    using 3 by auto
  moreover have "scan_string (k @ dquote # r) = Some (k, r)" "parse_value d (json_text v @ r) = Some (v, r)" for r
    using 3(4) [of k v r] m by (simp_all add: scannable_def)
  ultimately show ?case unfolding m by (subst parse_members.simps) simp
qed simp

lemma join_head: "xs \<noteq> [] \<Longrightarrow> hd xs = c # r \<Longrightarrow> \<exists>r'. join xs = c # r'"
  by (cases xs rule: join.cases) auto

lemma parse_text: "writable d v \<Longrightarrow> parse_value d (json_text v @ rest) = Some (v, rest)"
proof (induction v arbitrary: d rest)
  case (JArray vs)
  show ?case
  proof (cases "vs = []")
    case True
    with JArray show ?thesis by (simp add: parse_value.simps)
  next
    case False
    with JArray.prems obtain c r where h: "json_text (hd vs) = c # r" "\<not> is_space c" "c \<noteq> CHR '']''"
      using json_text_head [of "d - 1" "hd vs"] by auto
    with False obtain r' where j: "join (map json_text vs) = c # r'"
      using join_head [of "map json_text vs" c r] by (auto simp: hd_map)
    have "parse_elements (d - 1) (join (map json_text vs) @ CHR '']'' # rest) = Some (vs, rest)"
      using JArray False by (intro parse_elements_text) auto
    with JArray.prems h j show ?thesis by (simp add: parse_value.simps)
  qed
next
  case (JObject ms)
  let ?t = "map (\<lambda>(k, v). dquote # k @ dquote # '':'' @ json_text v) ms"
  show ?case
  proof (cases "ms = []")
    case True
    with JObject show ?thesis by (simp add: parse_value.simps)
  next
    case False
    then obtain r' where j: "join ?t = dquote # r'"
      using join_head [of ?t dquote] by (cases "hd ms") (auto simp: hd_map)
    have "parse_members (d - 1) (join ?t @ CHR ''}'' # rest) = Some (ms, rest)"
      using JObject False by (intro parse_members_text) (auto simp: Bex_def)
    with JObject.prems j show ?thesis by (simp add: parse_value.simps)
  qed
qed (auto simp: parse_value.simps scannable_def)

lemma json_parse_text: "writable 10000 v \<Longrightarrow> json_parse (json_text v) = Some v"
  using parse_text [of 10000 v "[]"] by (simp add: json_parse_def)

end
