(* ===== verification/Base64.thy ===== *)
theory Base64
  imports Json
begin

text \<open>
  \<open>base64.StdEncoding\<close>, the form in which \<open>encoding/json\<close> writes a \<open>[]byte\<close>. The decoder
  ignores line breaks and the unused bits of the last character, as the package does.
\<close>

definition b64_char :: "nat \<Rightarrow> char" where
  "b64_char n =
     (if n < 26 then char_of (65 + n) else if n < 52 then char_of (71 + n)
      else if n < 62 then char_of (n - 4) else if n = 62 then CHR ''+'' else CHR ''/'')"

definition b64_val :: "char \<Rightarrow> nat option" where
  "b64_val c =
     (if code_in 65 90 c then Some (code c - 65) else if code_in 97 122 c then Some (code c - 71)
      else if code_in 48 57 c then Some (code c + 4) else if c = CHR ''+'' then Some 62
      else if c = CHR ''/'' then Some 63 else None)"

definition b64_chars :: "nat \<Rightarrow> string" where
  "b64_chars v = map b64_char [v div 262144, v div 4096 mod 64, v div 64 mod 64, v mod 64]"

fun b64_encode :: "byte list \<Rightarrow> string" where
  "b64_encode [] = []"
| "b64_encode [a] = take 2 (b64_chars (65536 * unat a)) @ ''==''"
| "b64_encode [a, b] = take 3 (b64_chars (65536 * unat a + 256 * unat b)) @ ''=''"
| "b64_encode (a # b # c # bs) = b64_chars (65536 * unat a + 256 * unat b + unat c) @ b64_encode bs"

definition b64_bytes :: "nat \<Rightarrow> nat \<Rightarrow> nat \<Rightarrow> nat \<Rightarrow> byte list" where
  "b64_bytes w x y z =
     (let v = 262144 * w + 4096 * x + 64 * y + z
      in [of_nat (v div 65536), of_nat (v div 256 mod 256), of_nat (v mod 256)])"

fun b64_quanta :: "string \<Rightarrow> byte list option" where
  "b64_quanta [] = Some []"
| "b64_quanta (c0 # c1 # c2 # c3 # s) =
     (case (b64_val c0, b64_val c1) of
        (Some w, Some x) \<Rightarrow>
          if c2 = CHR ''='' then
            if c3 = CHR ''='' \<and> s = [] then Some (take 1 (b64_bytes w x 0 0)) else None
          else (case b64_val c2 of
                  None \<Rightarrow> None
                | Some y \<Rightarrow>
                    if c3 = CHR ''='' then if s = [] then Some (take 2 (b64_bytes w x y 0)) else None
                    else (case b64_val c3 of
                            None \<Rightarrow> None
                          | Some z \<Rightarrow> map_option ((@) (b64_bytes w x y z)) (b64_quanta s)))
      | _ \<Rightarrow> None)"
| "b64_quanta _ = None"

definition b64_decode :: "string \<Rightarrow> byte list option" where
  "b64_decode s = b64_quanta (filter (\<lambda>c. c \<noteq> CHR 0x0A \<and> c \<noteq> CHR 0x0D) s)"

lemma b64_val_char [simp]: "n < 64 \<Longrightarrow> b64_val (b64_char n) = Some n"
  by (auto simp: b64_val_def b64_char_def code_in_def)

lemma b64_char_code:
  assumes "n < 64"
  shows "b64_char n \<noteq> CHR ''=''" "b64_char n \<noteq> CHR 0x0A" "b64_char n \<noteq> CHR 0x0D"
proof -
  have "b64_val (CHR ''='') = None" "b64_val (CHR 0x0A) = None" "b64_val (CHR 0x0D) = None"
    by (simp_all add: b64_val_def code_in_def)
  with b64_val_char [OF assms] show "b64_char n \<noteq> CHR ''=''" "b64_char n \<noteq> CHR 0x0A" "b64_char n \<noteq> CHR 0x0D"
    by auto
qed

lemma b64_recompose:
  fixes v :: nat
  assumes "v < 16777216"
  shows "262144 * (v div 262144) + 4096 * (v div 4096 mod 64) + 64 * (v div 64 mod 64) + v mod 64 = v"
    "v div 262144 < 64"
proof -
  have "v div 4096 = v div 64 div 64" "v div 262144 = v div 64 div 64 div 64"
    by (simp_all add: div_mult2_eq [symmetric])
  moreover have "262144 * a + 4096 * b + 64 * c + d = 64 * (64 * (64 * a + b) + c) + d" for a b c d :: nat by simp
  ultimately show "262144 * (v div 262144) + 4096 * (v div 4096 mod 64) + 64 * (v div 64 mod 64) + v mod 64 = v"
    by (simp only: mult_div_mod_eq)
  show "v div 262144 < 64" using assms by (simp add: div_less_iff_less_mult)
qed

lemma b64_bytes_of:
  assumes "v < 16777216"
  shows "b64_bytes (v div 262144) (v div 4096 mod 64) (v div 64 mod 64) (v mod 64) =
    [of_nat (v div 65536), of_nat (v div 256 mod 256), of_nat (v mod 256)]"
  unfolding b64_bytes_def b64_recompose(1) [OF assms] by (simp add: Let_def)

lemma unat_byte_bound: "unat (b :: byte) < 256"
  using unsigned_less [of b] by simp

lemma b64_encode_letters: "c \<in> set (b64_encode bs) \<Longrightarrow> c \<noteq> CHR 0x0A \<and> c \<noteq> CHR 0x0D"
proof (induction bs rule: b64_encode.induct)
  case (2 a)
  then show ?case using unat_byte_bound [of a] by (auto simp: b64_chars_def b64_char_code)
next
  case (3 a b)
  then show ?case using unat_byte_bound [of a] unat_byte_bound [of b] by (auto simp: b64_chars_def b64_char_code)
next
  case (4 a b c bs)
  then show ?case using unat_byte_bound [of a] unat_byte_bound [of b] unat_byte_bound [of c]
    by (auto simp: b64_chars_def b64_char_code)
qed simp

lemma b64_quanta_encode: "b64_quanta (b64_encode bs) = Some bs"
proof (induction bs rule: b64_encode.induct)
  case (2 a)
  let ?v = "65536 * unat a"
  from unat_byte_bound [of a] have v: "?v < 16777216" by simp
  have z: "?v div 64 mod 64 = 0" "?v mod 64 = 0" by simp_all
  from b64_bytes_of [OF v] have "take 1 (b64_bytes (?v div 262144) (?v div 4096 mod 64) 0 0) = [a]"
    unfolding z by simp
  with b64_recompose(2) [OF v] show ?case by (simp add: b64_chars_def)
next
  case (3 a b)
  let ?v = "65536 * unat a + 256 * unat b"
  from unat_byte_bound [of a] unat_byte_bound [of b] have v: "?v < 16777216" by simp
  have z: "?v mod 64 = 0" by simp
  from b64_bytes_of [OF v] unat_byte_bound [of b]
  have "take 2 (b64_bytes (?v div 262144) (?v div 4096 mod 64) (?v div 64 mod 64) 0) = [a, b]"
    unfolding z by simp
  with b64_recompose(2) [OF v] show ?case by (simp add: b64_chars_def b64_char_code)
next
  case (4 a b c bs)
  define v where "v = 65536 * unat a + 256 * unat b + unat c"
  from unat_byte_bound [of a] unat_byte_bound [of b] unat_byte_bound [of c] have v: "v < 16777216"
    by (simp add: v_def)
  have q: "v div 256 = 256 * unat a + unat b"
    using unat_byte_bound [of c] by (simp add: v_def)
  then have "v div 256 div 256 = unat a" "v div 256 mod 256 = unat b"
    using unat_byte_bound [of b] by simp_all
  moreover have "v div 65536 = v div 256 div 256" by (simp add: div_mult2_eq [symmetric])
  moreover have "v = unat c + 256 * (256 * unat a + unat b)" by (simp add: v_def)
  then have "v mod 256 = unat c" using unat_byte_bound [of c] by (metis mod_less mod_mult_self2)
  ultimately have "b64_bytes (v div 262144) (v div 4096 mod 64) (v div 64 mod 64) (v mod 64) = [a, b, c]"
    using b64_bytes_of [OF v] by simp
  with b64_recompose(2) [OF v] 4 show ?case by (simp add: b64_chars_def b64_char_code v_def [symmetric])
qed simp

lemma b64_roundtrip [simp]: "b64_decode (b64_encode bs) = Some bs"
proof -
  have "filter (\<lambda>c. c \<noteq> CHR 0x0A \<and> c \<noteq> CHR 0x0D) (b64_encode bs) = b64_encode bs"
    using b64_encode_letters by (simp add: filter_id_conv)
  then show ?thesis by (simp add: b64_decode_def b64_quanta_encode)
qed

end
