(* ===== verification/GoTime.thy ===== *)
theory GoTime
  imports Json
begin

text \<open>
  The time stamps of JSON messages: \<open>Time.MarshalJSON\<close>, which writes RFC 3339 with up to nine
  fractional digits and refuses years outside 0 to 9999, and \<open>Time.UnmarshalJSON\<close>, which reads what
  \<open>time.Parse\<close> accepts for that layout. A time is an instant; the zone a text was written in is
  not kept.
\<close>

section \<open>Calendar\<close>

definition is_leap :: "int \<Rightarrow> bool" where
  "is_leap y \<longleftrightarrow> y mod 4 = 0 \<and> (y mod 100 \<noteq> 0 \<or> y mod 400 = 0)"

definition days_in :: "int \<Rightarrow> int \<Rightarrow> int" where
  "days_in m y =
     (if m = 2 then if is_leap y then 29 else 28
      else if m \<in> {4, 6, 9, 11} then 30 else 31)"

definition days_from_civil :: "int \<Rightarrow> int \<Rightarrow> int \<Rightarrow> int" where
  "days_from_civil y m d =
     (let y' = (if m \<le> 2 then y - 1 else y); era = y' div 400; yoe = y' mod 400;
          doy = (153 * (if m > 2 then m - 3 else m + 9) + 2) div 5 + d - 1;
          doe = yoe * 365 + yoe div 4 - yoe div 100 + doy
      in era * 146097 + doe - 719468)"

text \<open>The first day of a March-based year of an era, and the formula that finds the year of a day.\<close>

definition year_start :: "int \<Rightarrow> int" where
  "year_start y = 365 * y + y div 4 - y div 100 + y div 400"

definition year_index :: "int \<Rightarrow> int" where
  "year_index doe = (doe - doe div 1460 + doe div 36524 - doe div 146096) div 365"

lemma div_succ:
  fixes x :: int
  assumes "0 \<le> x"
  shows "(x + 1) div int n = x div int n + (if int n dvd x + 1 \<and> n \<noteq> 0 then 1 else 0)"
proof -
  obtain k where x: "x = int k" using assms nonneg_eq_int by blast
  have "Suc k div n = k div n + (if n dvd Suc k \<and> n \<noteq> 0 then 1 else 0)"
    by (cases "n = 0") (auto simp: div_Suc dvd_eq_mod_eq_0)
  moreover have "x + 1 = int (Suc k)" by (simp add: x)
  ultimately show ?thesis unfolding x by (simp only: of_nat_dvd_iff zdiv_int [symmetric]) simp
qed

lemma year_index_step: "i \<le> 1 \<Longrightarrow> k \<le> j \<Longrightarrow> x - p + q - r \<le> x + 1 - (p + i) + (q + j) - (r + k)" for p :: int
  by simp

lemma year_index_mono:
  assumes "0 \<le> a" "a \<le> b"
  shows "year_index a \<le> year_index b"
proof -
  have "x - x div 1460 + x div 36524 - x div 146096 \<le>
      (x + 1) - (x + 1) div 1460 + (x + 1) div 36524 - (x + 1) div 146096" if "0 \<le> x" for x :: int
  proof -
    have "36524 dvd y" if "146096 dvd y" for y :: int
      using that by (rule dvd_trans [rotated]) simp
    then show ?thesis
      unfolding div_succ [OF that, of 1460, unfolded of_nat_numeral] div_succ [OF that, of 36524, unfolded of_nat_numeral]
        div_succ [OF that, of 146096, unfolded of_nat_numeral]
      by (intro year_index_step) simp_all
  qed
  then have "year_index x \<le> year_index (x + 1)" if "0 \<le> x" for x
    unfolding year_index_def by (intro zdiv_mono1) (use that in auto)
  note suc = this
  from assms(2) show ?thesis
  proof (induction b rule: int_ge_induct)
    case (step b)
    with suc [of b] assms(1) show ?case by simp
  qed simp
qed

lemma list_all_range: "list_all P (map int [0..<n]) \<Longrightarrow> 0 \<le> y \<Longrightarrow> y < int n \<Longrightarrow> P y"
proof -
  assume "list_all P (map int [0..<n])" "0 \<le> y" "y < int n"
  then have "y = int (nat y)" "nat y \<in> set [0..<n]" by auto
  with \<open>list_all P (map int [0..<n])\<close> show "P y" unfolding list_all_iff set_map by (metis imageI)
qed

definition year_ok :: "int \<Rightarrow> bool" where
  "year_ok y \<longleftrightarrow> year_index (year_start y) = y \<and> year_index (year_start (y + 1) - 1) = y \<and>
     (year_start (y + 1) - year_start y = (if is_leap (y + 1) then 366 else 365))"

lemma years_ok: "list_all year_ok (map int [0..<400])"
  by code_simp

lemma year_start_mono: "0 \<le> a \<Longrightarrow> a \<le> b \<Longrightarrow> year_start a \<le> year_start b"
proof (rotate_tac, induction b rule: int_ge_induct)
  case (step b)
  then have "0 \<le> b" by simp
  from div_succ [OF this, of 4] div_succ [OF this, of 100] div_succ [OF this, of 400]
  have "year_start b \<le> year_start (b + 1)"
    unfolding year_start_def by (simp split: if_splits)
  with step show ?case by simp
qed simp

lemma year_found:
  assumes "0 \<le> doe" "doe < year_start (int n)"
  shows "\<exists>y. 0 \<le> y \<and> y < int n \<and> year_start y \<le> doe \<and> doe < year_start (y + 1)"
  using assms
proof (induction n)
  case 0
  then show ?case by (simp add: year_start_def)
next
  case (Suc n)
  then show ?case
    by (cases "doe < year_start (int n)") (force, intro exI [of _ "int n"], simp add: add.commute)
qed

lemma year_of_day:
  assumes "0 \<le> doe" "doe < 146097"
  shows "0 \<le> year_index doe" "year_index doe < 400" "year_start (year_index doe) \<le> doe"
    "doe - year_start (year_index doe) < (if is_leap (year_index doe + 1) then 366 else 365)"
proof -
  have "year_start 400 = 146097" by code_simp
  with year_found [of doe 400] assms obtain y where y: "0 \<le> y" "y < 400" "year_start y \<le> doe" "doe < year_start (y + 1)"
    by auto
  then have "year_ok y" using list_all_range [OF years_ok] by simp
  then have "y \<le> year_index doe" "year_index doe \<le> y"
    using year_index_mono [of "year_start y" doe] year_index_mono [of doe "year_start (y + 1) - 1"]
      year_start_mono [of 0 y] y assms by (simp_all add: year_ok_def year_start_def [of 0])
  then have eq: "year_index doe = y" by simp
  with y \<open>year_ok y\<close> show "0 \<le> year_index doe" "year_index doe < 400" "year_start (year_index doe) \<le> doe"
    "doe - year_start (year_index doe) < (if is_leap (year_index doe + 1) then 366 else 365)"
    by (auto simp: year_ok_def split: if_splits)
qed

text \<open>Month and day of the day of a March-based year.\<close>

definition month_of :: "int \<Rightarrow> int" where
  "month_of doy = (let mp = (5 * doy + 2) div 153 in if mp < 10 then mp + 3 else mp - 9)"

definition day_of :: "int \<Rightarrow> int" where
  "day_of doy = doy - (153 * ((5 * doy + 2) div 153) + 2) div 5 + 1"

definition day_ok :: "int \<Rightarrow> bool" where
  "day_ok doy \<longleftrightarrow> (let m = month_of doy; d = day_of doy in
     1 \<le> m \<and> m \<le> 12 \<and> 1 \<le> d \<and>
     d \<le> (if m = 2 then if doy = 365 then 29 else 28 else if m \<in> {4, 6, 9, 11} then 30 else 31) \<and>
     (doy = 365 \<longrightarrow> m = 2) \<and>
     (153 * (if m > 2 then m - 3 else m + 9) + 2) div 5 + d - 1 = doy)"

lemma days_ok: "list_all day_ok (map int [0..<366])"
  by code_simp

lemma day_ok_range: "0 \<le> doy \<Longrightarrow> doy < 366 \<Longrightarrow> day_ok doy"
  using list_all_range [OF days_ok] by simp

lemma civil_from_days_eq:
  fixes days :: int
  defines "z \<equiv> days + 719468"
  defines "yoe \<equiv> year_index (z mod 146097)"
  defines "doy \<equiv> z mod 146097 - year_start yoe"
  defines "m \<equiv> month_of doy"
  shows "civil_from_days days = (yoe + z div 146097 * 400 + (if m \<le> 2 then 1 else 0), m, day_of doy)"
proof -
  have yoe: "0 \<le> yoe" "yoe < 400" unfolding yoe_def by (rule year_of_day; simp)+
  then have ys: "365 * yoe + yoe div 4 - yoe div 100 = year_start yoe" by (simp add: year_start_def)
  show ?thesis
    unfolding civil_from_days_def Let_def z_def [symmetric] year_index_def [symmetric] yoe_def [symmetric]
      ys doy_def [symmetric]
    by (simp add: m_def month_of_def day_of_def Let_def)
qed

lemma is_leap_era: "is_leap (y + e * 400) = is_leap y"
proof -
  have "(y + e * 400) mod 4 = y mod 4" "(y + e * 400) mod 100 = y mod 100" "(y + e * 400) mod 400 = y mod 400"
    using mod_mult_self1 [of y "e * 100" 4] mod_mult_self1 [of y "e * 4" 100] mod_mult_self1 [of y e 400]
    by (simp_all add: mult.assoc)
  then show ?thesis by (simp add: is_leap_def)
qed

lemma civil_days:
  assumes "civil_from_days days = (y, m, d)"
  shows "1 \<le> m" "m \<le> 12" "1 \<le> d" "d \<le> days_in m y" "days_from_civil y m d = days"
proof -
  define z where "z = days + 719468"
  define e where "e = z div 146097"
  define doe where "doe = z mod 146097"
  define yoe where "yoe = year_index doe"
  define doy where "doy = doe - year_start yoe"
  have doe: "0 \<le> doe" "doe < 146097" by (simp_all add: doe_def)
  note yd = year_of_day [OF doe, folded yoe_def]
  then have doy: "0 \<le> doy" "doy < 366" "doy = 365 \<Longrightarrow> is_leap (yoe + 1)"
    by (auto simp: doy_def split: if_splits)
  from civil_from_days_eq [of days] assms
  have ymd: "y = yoe + e * 400 + (if m \<le> 2 then 1 else 0)" "m = month_of doy" "d = day_of doy"
    by (simp_all add: z_def e_def doe_def yoe_def doy_def)
  have ok: "1 \<le> m \<and> m \<le> 12 \<and> 1 \<le> d \<and>
     d \<le> (if m = 2 then if doy = 365 then 29 else 28 else if m \<in> {4, 6, 9, 11} then 30 else 31) \<and>
     (doy = 365 \<longrightarrow> m = 2) \<and> (153 * (if m > 2 then m - 3 else m + 9) + 2) div 5 + d - 1 = doy"
    using day_ok_range [OF doy(1,2)] unfolding day_ok_def Let_def ymd(2,3) [symmetric] .
  then show "1 \<le> m" "m \<le> 12" "1 \<le> d" by blast+
  have "is_leap y" if "doy = 365"
  proof -
    from that ok have "m = 2" by blast
    with ymd(1) have "y = yoe + 1 + e * 400" by simp
    with doy(3) [OF that] show ?thesis by (simp only: is_leap_era)
  qed
  with ok show "d \<le> days_in m y" by (auto simp: days_in_def split: if_splits)
  have y': "(if m \<le> 2 then y - 1 else y) = yoe + e * 400" using ymd(1) by simp
  have "(yoe + e * 400) div 400 = e" "(yoe + e * 400) mod 400 = yoe" using yd(1,2) by simp_all
  moreover have "yoe * 365 + yoe div 4 - yoe div 100 = year_start yoe" using yd(1,2) by (simp add: year_start_def)
  moreover have "(153 * (if m > 2 then m - 3 else m + 9) + 2) div 5 + d - 1 = doy" using ok by blast
  ultimately have "days_from_civil y m d = e * 146097 + (year_start yoe + doy) - 719468"
    unfolding days_from_civil_def Let_def y' by (simp only:)
  also have "\<dots> = z - 719468" by (simp add: doy_def doe_def e_def)
  finally show "days_from_civil y m d = days" by (simp add: z_def)
qed

section \<open>Writing a time\<close>

definition trim_zeros :: "string \<Rightarrow> string" where
  "trim_zeros s = rev (dropWhile (\<lambda>c. c = CHR ''0'') (rev s))"

definition append_nano :: "int \<Rightarrow> string" where
  "append_nano ns = (let s = trim_zeros (append_int ns 9) in if s = [] then [] else CHR ''.'' # s)"

definition format_rfc3339nano :: "time \<Rightarrow> string" where
  "format_rfc3339nano t =
     (let secs = t div 1000000000; days = secs div 86400; r = secs mod 86400;
          (y, m, d) = civil_from_days days
      in append_int y 4 @ ''-'' @ append_int m 2 @ ''-'' @ append_int d 2 @ ''T'' @
         append_int (r div 3600) 2 @ '':'' @ append_int (r mod 3600 div 60) 2 @ '':'' @
         append_int (r mod 60) 2 @ append_nano (t mod 1000000000) @ ''Z'')"

text \<open>\<open>appendStrictRFC3339\<close>, on a time in UTC: the year must have exactly four digits.\<close>

definition time_MarshalJSON :: "time \<Rightarrow> string option" where
  "time_MarshalJSON t =
     (let b = format_rfc3339nano t in if b ! 4 \<noteq> CHR ''-'' then None else Some b)"

section \<open>Reading a time\<close>

definition dig :: "char \<Rightarrow> nat" where
  "dig c = code c - 48"

fun getnum :: "bool \<Rightarrow> string \<Rightarrow> (nat \<times> string) option" where
  "getnum fixed [] = None"
| "getnum fixed [a] = (if \<not> is_digit a \<or> fixed then None else Some (dig a, []))"
| "getnum fixed (a # b # s) =
     (if \<not> is_digit a then None
      else if \<not> is_digit b then if fixed then None else Some (dig a, b # s)
      else Some (10 * dig a + dig b, s))"

definition get_year :: "string \<Rightarrow> (nat \<times> string) option" where
  "get_year s =
     (if length s < 4 \<or> \<not> list_all is_digit (take 4 s) then None else Some (nat_of_dec (take 4 s), drop 4 s))"

fun get_fraction :: "string \<Rightarrow> nat \<times> string" where
  "get_fraction (p # a # s) =
     (if (p = CHR ''.'' \<or> p = CHR '','') \<and> is_digit a then
        let ds = take 9 (takeWhile is_digit (a # s))
        in (nat_of_dec ds * 10 ^ (9 - length ds), dropWhile is_digit (a # s))
      else (0, p # a # s))"
| "get_fraction s = (0, s)"

definition get_zone :: "string \<Rightarrow> (int \<times> string) option" where
  "get_zone s =
     (case s of
        [] \<Rightarrow> None
      | z # s' \<Rightarrow>
          if z = CHR ''Z'' then Some (0, s')
          else if length s < 6 \<or> s ! 3 \<noteq> CHR '':'' then None
          else (case (getnum True (take 2 (drop 1 s)), getnum True (take 2 (drop 4 s))) of
                  (Some (h, _), Some (m, _)) \<Rightarrow>
                    if h > 24 \<or> m > 60 then None
                    else if z = CHR ''+'' then Some (int ((h * 60 + m) * 60), drop 6 s)
                    else if z = CHR ''-'' then Some (- int ((h * 60 + m) * 60), drop 6 s)
                    else None
                | _ \<Rightarrow> None))"

text \<open>\<open>time.Parse\<close> for the layout \<open>2006-01-02T15:04:05Z07:00\<close>.\<close>

definition time_Parse :: "string \<Rightarrow> time option" where
  "time_Parse s =
     (case get_year s of None \<Rightarrow> None | Some (y, s1) \<Rightarrow>
     (case expect ''-'' s1 of None \<Rightarrow> None | Some s2 \<Rightarrow>
     (case getnum True s2 of None \<Rightarrow> None | Some (m, s3) \<Rightarrow>
     (if m = 0 \<or> 12 < m then None else
     (case expect ''-'' s3 of None \<Rightarrow> None | Some s4 \<Rightarrow>
     (case getnum True s4 of None \<Rightarrow> None | Some (d, s5) \<Rightarrow>
     (case expect ''T'' s5 of None \<Rightarrow> None | Some s6 \<Rightarrow>
     (case getnum False s6 of None \<Rightarrow> None | Some (h, s7) \<Rightarrow>
     (if 24 \<le> h then None else
     (case expect '':'' s7 of None \<Rightarrow> None | Some s8 \<Rightarrow>
     (case getnum True s8 of None \<Rightarrow> None | Some (mi, s9) \<Rightarrow>
     (if 60 \<le> mi then None else
     (case expect '':'' s9 of None \<Rightarrow> None | Some s10 \<Rightarrow>
     (case getnum True s10 of None \<Rightarrow> None | Some (sec, s11) \<Rightarrow>
     (if 60 \<le> sec then None else
     (case get_fraction s11 of (ns, s12) \<Rightarrow>
     (case get_zone s12 of None \<Rightarrow> None | Some (off, s13) \<Rightarrow>
     (if s13 \<noteq> [] \<or> d < 1 \<or> days_in (int m) (int y) < int d then None
      else Some ((days_from_civil (int y) (int m) (int d) * 86400 + int h * 3600 + int mi * 60 + int sec - off)
                 * 1000000000 + int ns)))))))))))))))))))"

section \<open>What is written is read back\<close>

lemma is_digit_char [simp]: "n < 10 \<Longrightarrow> is_digit (digit_char n)"
  by (simp add: is_digit_def code_in_def digit_char_def)

lemma dig_char [simp]: "n < 10 \<Longrightarrow> dig (digit_char n) = n"
  by (simp add: dig_def digit_char_def)

lemma dec_of_nat_digits: "list_all is_digit (dec_of_nat n)"
proof (induction n rule: dec_of_nat.induct)
  case (1 n)
  then show ?case by (cases "n < 10") (simp_all add: dec_of_nat.simps [of n])
qed

lemma dec_of_nat_length: "n < 10 ^ k \<Longrightarrow> 0 < k \<Longrightarrow> length (dec_of_nat n) \<le> k"
proof (induction n arbitrary: k rule: dec_of_nat.induct)
  case (1 n)
  show ?case
  proof (cases "n < 10")
    case True
    with 1 show ?thesis by (simp add: dec_of_nat.simps [of n])
  next
    case False
    with 1(2) obtain j where k: "k = Suc j" "0 < j" by (cases k; cases "k = 1") auto
    with 1(2) have "n div 10 < 10 ^ j" by (simp add: div_less_iff_less_mult mult.commute)
    with 1(1) [OF False] k False show ?thesis by (simp add: dec_of_nat.simps [of n])
  qed
qed

lemma nat_of_dec_zeros [simp]: "nat_of_dec (replicate k (CHR ''0'') @ s) = nat_of_dec s"
  by (induction k) (simp_all add: nat_of_dec_def digit_val_def)

lemma append_int_digits:
  assumes "0 \<le> i" "i < 10 ^ k" "0 < k"
  shows "length (append_int i k) = k" "list_all is_digit (append_int i k)" "nat_of_dec (append_int i k) = nat i"
proof -
  have "nat i < 10 ^ k" using assms by (simp add: nat_less_iff)
  from dec_of_nat_length [OF this assms(3)] assms(1)
  show "length (append_int i k) = k" by (simp add: append_int_def pad_zeros_def)
  show "list_all is_digit (append_int i k)"
    using assms(1) dec_of_nat_digits [of "nat i"]
    by (auto simp: append_int_def pad_zeros_def list_all_iff is_digit_def code_in_def)
  show "nat_of_dec (append_int i k) = nat i"
    using assms(1) by (simp add: append_int_def pad_zeros_def dec_of_nat_roundtrip)
qed

lemma getnum_two:
  assumes "0 \<le> i" "i < 100"
  shows "getnum fixed (append_int i 2 @ s) = Some (nat i, s)"
proof -
  note d = append_int_digits [of i 2, simplified, OF assms]
  then obtain a b where ab: "append_int i 2 = [a, b]" by (metis length_0_conv length_Suc_conv numeral_2_eq_2)
  with d have "is_digit a" "is_digit b" "10 * dig a + dig b = nat i"
    by (auto simp: nat_of_dec_def digit_val_def dig_def)
  with ab show ?thesis by simp
qed

lemma get_year_four:
  assumes "0 \<le> y" "y \<le> 9999"
  shows "get_year (append_int y 4 @ s) = Some (nat y, s)"
  using append_int_digits [of y 4] assms by (simp add: get_year_def)

lemma trim_zeros_decompose:
  obtains k where "s = trim_zeros s @ replicate k (CHR ''0'')"
proof -
  have "rev s = takeWhile (\<lambda>c. c = CHR ''0'') (rev s) @ dropWhile (\<lambda>c. c = CHR ''0'') (rev s)" by simp
  moreover have "takeWhile (\<lambda>c. c = CHR ''0'') (rev s) =
      replicate (length (takeWhile (\<lambda>c. c = CHR ''0'') (rev s))) (CHR ''0'')"
    by (metis (full_types) replicate_length_same set_takeWhileD)
  ultimately have "s = rev (dropWhile (\<lambda>c. c = CHR ''0'') (rev s)) @
      replicate (length (takeWhile (\<lambda>c. c = CHR ''0'') (rev s))) (CHR ''0'')"
    by (metis rev_append rev_replicate rev_rev_ident)
  then show thesis using that by (simp add: trim_zeros_def)
qed

lemma nat_of_dec_append_zeros: "nat_of_dec (s @ replicate k (CHR ''0'')) = nat_of_dec s * 10 ^ k"
  by (induction k) (simp_all add: nat_of_dec_def digit_val_def replicate_append_same [symmetric] del: replicate_append_same)

lemma get_fraction_nano:
  assumes "0 \<le> ns" "ns < 1000000000" and "s \<noteq> []" "\<not> is_digit (hd s)" "hd s \<noteq> CHR ''.''" "hd s \<noteq> CHR '',''"
  shows "get_fraction (append_nano ns @ s) = (nat ns, s)"
proof -
  define t where "t = trim_zeros (append_int ns 9)"
  obtain k where k: "append_int ns 9 = t @ replicate k (CHR ''0'')" using trim_zeros_decompose t_def by metis
  note d = append_int_digits [of ns 9, simplified, OF assms(1,2)]
  then have t: "length t + k = 9" "list_all is_digit t" "nat_of_dec t * 10 ^ k = nat ns"
    unfolding k by (simp_all add: nat_of_dec_append_zeros)
  show ?thesis
  proof (cases t)
    case Nil
    with t have "nat ns = 0" by (simp add: nat_of_dec_def)
    moreover have "append_nano ns = []" by (simp add: append_nano_def t_def [symmetric] Nil)
    ultimately show ?thesis using assms by (cases s rule: get_fraction.cases) auto
  next
    case (Cons a r)
    have w: "takeWhile is_digit (t @ s) = t" "dropWhile is_digit (t @ s) = s"
      using t(2) assms(3,4) by (cases s; simp add: list_all_iff takeWhile_append2 dropWhile_append2)+
    have "k = 9 - length t" using t(1) by simp
    with t w Cons show ?thesis
      by (simp add: append_nano_def t_def [symmetric] Let_def)
  qed
qed

lemma time_Parse_format:
  assumes "civil_from_days (t div 1000000000 div 86400) = (y, m, d)" and "0 \<le> y" "y \<le> 9999"
  shows "time_Parse (format_rfc3339nano t) = Some t"
proof -
  define secs where "secs = t div 1000000000"
  define r where "r = secs mod 86400"
  define h where "h = r div 3600"
  define mi where "mi = r mod 3600 div 60"
  define sc where "sc = r mod 60"
  define ns where "ns = t mod 1000000000"
  note c = civil_days [OF assms(1), folded secs_def]
  have r: "0 \<le> r" "r < 86400" by (simp_all add: r_def)
  then have p: "0 \<le> h" "h < 24" "0 \<le> mi" "mi < 60" "0 \<le> sc" "sc < 60" "0 \<le> ns" "ns < 1000000000"
    by (simp_all add: h_def mi_def sc_def ns_def div_less_iff_less_mult pos_imp_zdiv_nonneg_iff)
  have "d \<le> 31" using c(4) by (simp add: days_in_def split: if_splits)
  have fr: "get_fraction (append_nano ns @ ''Z'') = (nat ns, ''Z'')"
    using p(7,8) by (intro get_fraction_nano) (simp_all add: is_digit_def code_in_def)
  have "r mod 3600 mod 60 = sc" unfolding sc_def by (rule mod_mod_cancel) simp
  with div_mult_mod_eq [of r 3600] div_mult_mod_eq [of "r mod 3600" 60]
  have "h * 3600 + (mi * 60 + sc) = r" by (simp add: h_def mi_def)
  moreover have "secs div 86400 * 86400 + r = secs" "secs * 1000000000 + ns = t"
    by (simp_all add: r_def secs_def ns_def)
  ultimately have tm: "(days_from_civil y m d * 86400 + h * 3600 + mi * 60 + sc) * 1000000000 + ns = t"
    unfolding c(5) by (simp only: add.assoc)
  have f: "format_rfc3339nano t = append_int y 4 @ CHR ''-'' # append_int m 2 @ CHR ''-'' # append_int d 2 @
      CHR ''T'' # append_int h 2 @ CHR '':'' # append_int mi 2 @ CHR '':'' # append_int sc 2 @ append_nano ns @ ''Z''"
    using assms(1) by (simp add: format_rfc3339nano_def h_def mi_def sc_def ns_def r_def secs_def Let_def)
  have g: "getnum x (append_int m 2 @ s) = Some (nat m, s)" "getnum x (append_int d 2 @ s) = Some (nat d, s)"
    "getnum x (append_int h 2 @ s) = Some (nat h, s)" "getnum x (append_int mi 2 @ s) = Some (nat mi, s)"
    "getnum x (append_int sc 2 @ s) = Some (nat sc, s)" for x s
    using c(1-3) \<open>d \<le> 31\<close> p by (intro getnum_two; linarith)+
  have chk: "\<not> (nat m = 0 \<or> 12 < nat m)" "\<not> 24 \<le> nat h" "\<not> 60 \<le> nat mi" "\<not> 60 \<le> nat sc" "\<not> nat d < 1"
    "\<not> days_in m y < d"
    using c(1-4) p by linarith+
  have z: "get_zone ''Z'' = Some (0, [])" by (simp add: get_zone_def)
  have nn: "int (nat y) = y" "int (nat m) = m" "int (nat d) = d" "int (nat h) = h" "int (nat mi) = mi"
    "int (nat sc) = sc" "int (nat ns) = ns"
    using c(1-3) p assms(2) by simp_all
  show ?thesis
    unfolding f time_Parse_def using get_year_four [OF assms(2,3)] chk
    by (simp only: g fr z expect.simps if_True if_False option.case prod.case simp_thms nn tm diff_0_right)
qed

definition year_of :: "time \<Rightarrow> int" where
  "year_of t = fst (civil_from_days (t div 1000000000 div 86400))"

lemma dec_of_nat_longer: "10 ^ k \<le> n \<Longrightarrow> k < length (dec_of_nat n)"
proof (induction n arbitrary: k rule: dec_of_nat.induct)
  case (1 n)
  show ?case
  proof (cases k)
    case 0
    then show ?thesis using dec_of_nat_nonempty by simp
  next
    case (Suc j)
    with 1(2) have "10 \<le> n" using self_le_power [of "10 :: nat" k] by (simp add: order_trans [of 10 "10 * 10 ^ j"])
    moreover have "10 ^ j \<le> n div 10" using 1(2) Suc by (simp add: less_eq_div_iff_mult_less_eq mult.commute)
    ultimately show ?thesis using 1(1) [of j] Suc by (simp add: dec_of_nat.simps [of n])
  qed
qed

lemma is_digit_not_dash: "is_digit c \<Longrightarrow> c \<noteq> CHR ''-''"
  by (auto simp: is_digit_def code_in_def)

lemma year_text_index:
  "(append_int y 4 @ CHR ''-'' # s) ! 4 = CHR ''-'' \<longleftrightarrow> 0 \<le> y \<and> y \<le> 9999"
proof (cases "0 \<le> y \<and> y \<le> 9999")
  case True
  then show ?thesis using append_int_digits(1) [of y 4] by (simp add: nth_append)
next
  case False
  have dig: "list_all is_digit (pad_zeros 4 (dec_of_nat n))" for n
    using dec_of_nat_digits [of n] by (auto simp: pad_zeros_def list_all_iff is_digit_def code_in_def)
  have "is_digit ((append_int y 4 @ CHR ''-'' # s) ! 4)"
  proof (cases "y < 0")
    case True
    have "4 \<le> length (pad_zeros 4 (dec_of_nat (nat (- y))))" by (simp add: pad_zeros_def)
    with dig [of "nat (- y)"] show ?thesis
      using True by (simp add: append_int_def nth_append list_all_length)
  next
    case ge: False
    with False have "10 ^ 4 \<le> nat y" by simp
    from dec_of_nat_longer [OF this] have "4 < length (pad_zeros 4 (dec_of_nat (nat y)))" by (simp add: pad_zeros_def)
    with dig [of "nat y"] show ?thesis using ge by (simp add: append_int_def nth_append list_all_length)
  qed
  with False is_digit_not_dash show ?thesis by blast
qed

lemma time_MarshalJSON_iff: "time_MarshalJSON t \<noteq> None \<longleftrightarrow> 0 \<le> year_of t \<and> year_of t \<le> 9999"
proof -
  obtain y m d where c: "civil_from_days (t div 1000000000 div 86400) = (y, m, d)" by (metis prod_cases3)
  then obtain s where "format_rfc3339nano t = append_int y 4 @ CHR ''-'' # s"
    by (auto simp: format_rfc3339nano_def Let_def)
  with year_text_index [of y s] c show ?thesis by (simp add: time_MarshalJSON_def year_of_def Let_def)
qed

lemma time_roundtrip:
  assumes "time_MarshalJSON t = Some s"
  shows "time_Parse s = Some t"
proof -
  obtain y m d where c: "civil_from_days (t div 1000000000 div 86400) = (y, m, d)" by (metis prod_cases3)
  from assms time_MarshalJSON_iff [of t] c have "0 \<le> y" "y \<le> 9999" by (simp_all add: year_of_def)
  from time_Parse_format [OF c this] assms show ?thesis
    by (simp add: time_MarshalJSON_def Let_def split: if_splits)
qed

text \<open>The text needs no escape, so it is its own raw string.\<close>

definition plain_char :: "char \<Rightarrow> bool" where
  "plain_char c \<longleftrightarrow> 32 \<le> code c \<and> c \<noteq> dquote \<and> c \<noteq> bslash"

lemma scannable_plain: "list_all plain_char s \<Longrightarrow> scannable s"
  unfolding scannable_def by (induction s) (auto simp: plain_char_def)

lemma append_int_plain: "list_all plain_char (append_int i k)"
proof -
  have d: "plain_char c" if "is_digit c" for c using that by (auto simp: is_digit_def code_in_def plain_char_def)
  have "list_all plain_char (pad_zeros k (dec_of_nat n))" for n
  proof -
    have "list_all plain_char (dec_of_nat n)" using dec_of_nat_digits [of n] d unfolding list_all_iff by blast
    moreover have "plain_char (CHR ''0'')" by (simp add: plain_char_def)
    ultimately show ?thesis by (auto simp: pad_zeros_def list_all_iff)
  qed
  then show ?thesis by (simp add: append_int_def) (simp add: plain_char_def)
qed

lemma append_nano_plain: "list_all plain_char (append_nano ns)"
proof -
  have "set (trim_zeros s) \<subseteq> set s" for s by (auto simp: trim_zeros_def dest: set_dropWhileD)
  with append_int_plain [of ns 9] show ?thesis
    by (auto simp: append_nano_def Let_def list_all_iff plain_char_def)
qed

lemma time_scannable: "time_MarshalJSON t = Some s \<Longrightarrow> scannable s"
  by (rule scannable_plain)
     (auto simp: time_MarshalJSON_def format_rfc3339nano_def Let_def append_int_plain append_nano_plain plain_char_def
        split: if_splits prod.splits)

end
