(* ===== verification/MessageJson.thy ===== *)
theory MessageJson
  imports Message Base64 GoTime
begin

text \<open>
  \<open>Message.MarshalJSON\<close> and \<open>Message.UnmarshalJSON\<close> of \<open>pkg/broker/broker.go\<close>. Both hand an
  alias of the struct to \<open>encoding/json\<close>, so the definitions are that package's encoder and
  decoder at the fields and tags of \<open>Message\<close>: byte slices in base64, the keys of a map in
  order, \<open>omitempty\<close> for key and headers, names matched without regard to case, and a type error
  remembered while the rest is decoded. A slice is taken to have no spare capacity.
\<close>

definition bytes_string :: "byte list \<Rightarrow> string" where
  "bytes_string bs = map (\<lambda>b. char_of (unat b)) bs"

lemma bytes_string_bytes [simp]: "bytes_string (string_bytes s) = s"
proof -
  have "char_of (unat (of_nat (code c) :: byte)) = c" for c
    by (simp add: unat_of_nat)
  then show ?thesis by (simp add: bytes_string_def string_bytes_def comp_def)
qed

lemma string_bytes_string [simp]: "string_bytes (bytes_string bs) = bs"
proof -
  have "of_nat (code (char_of (unat b))) = b" for b :: byte
    using unat_byte_bound [of b] by (simp add: of_char_of)
  then show ?thesis by (simp add: bytes_string_def string_bytes_def comp_def map_idI)
qed

section \<open>Encoding\<close>

datatype json_error = SyntaxError | TypeMismatch | CorruptInput | NotATime | YearOutOfRange

definition string_json :: "string \<Rightarrow> json" where
  "string_json s = JString (quote s)"

definition bytes_json :: "byte_slice \<Rightarrow> json" where
  "bytes_json b = (case b of None \<Rightarrow> JNull | Some bs \<Rightarrow> JString (b64_encode bs))"

definition map_json :: "(string \<rightharpoonup> string) \<Rightarrow> string list \<Rightarrow> json" where
  "map_json h ks = JObject (map (\<lambda>k. (quote k, string_json (case h k of None \<Rightarrow> [] | Some v \<Rightarrow> v))) (sort ks))"

definition message_json :: "((string \<rightharpoonup> string) \<Rightarrow> string list) \<Rightarrow> message \<Rightarrow> json option" where
  "message_json ord m =
     (case time_MarshalJSON (Timestamp m) of
        None \<Rightarrow> None
      | Some ts \<Rightarrow>
          Some (JObject
            ([(''id'', string_json (ID m)), (''topic'', string_json (Topic m))] @
             (if slice_len (Key m) = 0 then [] else [(''key'', bytes_json (Key m))]) @
             [(''value'', bytes_json (Value m))] @
             (case Headers m of
                None \<Rightarrow> []
              | Some h \<Rightarrow> if length (ord h) = 0 then [] else [(''headers'', map_json h (ord h))]) @
             [(''timestamp'', JString ts)])))"

definition MarshalJSON ::
  "((string \<rightharpoonup> string) \<Rightarrow> string list) \<Rightarrow> message \<Rightarrow> json_error + byte_slice" where
  "MarshalJSON ord m =
     (case message_json ord m of
        None \<Rightarrow> Inl YearOutOfRange
      | Some j \<Rightarrow> Inr (Some (string_bytes (json_text j))))"

section \<open>Decoding\<close>

definition decode_string :: "json \<Rightarrow> string \<Rightarrow> string \<times> json_error option" where
  "decode_string v old =
     (case v of
        JString raw \<Rightarrow> (case unquote raw of None \<Rightarrow> (old, Some SyntaxError) | Some s \<Rightarrow> (s, None))
      | JNull \<Rightarrow> (old, None)
      | _ \<Rightarrow> (old, Some TypeMismatch))"

definition decode_byte :: "json \<Rightarrow> byte \<Rightarrow> byte \<times> json_error option" where
  "decode_byte v old =
     (case v of
        JNumber n \<Rightarrow>
          if list_all is_digit n \<and> nat_of_dec n < 256 then (of_nat (nat_of_dec n), None)
          else (old, Some TypeMismatch)
      | JNull \<Rightarrow> (old, None)
      | _ \<Rightarrow> (old, Some TypeMismatch))"

definition first_error :: "'e option \<Rightarrow> 'e option \<Rightarrow> 'e option" where
  "first_error e e' = (case e of None \<Rightarrow> e' | Some x \<Rightarrow> Some x)"

fun decode_array :: "json list \<Rightarrow> byte list \<Rightarrow> byte list \<times> json_error option" where
  "decode_array [] old = ([], None)"
| "decode_array (v # vs) old =
     (let (b, e) = decode_byte v (case old of [] \<Rightarrow> 0 | x # _ \<Rightarrow> x);
          (bs, e') = decode_array vs (tl old)
      in (b # bs, first_error e e'))"

definition decode_bytes :: "json \<Rightarrow> byte_slice \<Rightarrow> byte_slice \<times> json_error option" where
  "decode_bytes v old =
     (case v of
        JString raw \<Rightarrow>
          (case unquote raw of
             None \<Rightarrow> (old, Some SyntaxError)
           | Some s \<Rightarrow>
               (case b64_decode s of None \<Rightarrow> (old, Some CorruptInput) | Some bs \<Rightarrow> (Some bs, None)))
      | JNull \<Rightarrow> (None, None)
      | JArray vs \<Rightarrow> (let (bs, e) = decode_array vs (slice_bytes old) in (Some bs, e))
      | _ \<Rightarrow> (old, Some TypeMismatch))"

fun decode_entries ::
  "(string \<times> json) list \<Rightarrow> (string \<rightharpoonup> string) \<Rightarrow> (string \<rightharpoonup> string) \<times> json_error option" where
  "decode_entries [] h = (h, None)"
| "decode_entries ((k, v) # es) h =
     (case unquote k of
        None \<Rightarrow> (h, Some SyntaxError)
      | Some key \<Rightarrow>
          let (s, e) = decode_string v '''';
              (h', e') = decode_entries es (h(key \<mapsto> s))
          in (h', first_error e e'))"

definition decode_map :: "json \<Rightarrow> (string \<rightharpoonup> string) option \<Rightarrow> (string \<rightharpoonup> string) option \<times> json_error option" where
  "decode_map v old =
     (case v of
        JObject es \<Rightarrow>
          (let (h, e) = decode_entries es (case old of None \<Rightarrow> Map.empty | Some h \<Rightarrow> h) in (Some h, e))
      | JNull \<Rightarrow> (None, None)
      | _ \<Rightarrow> (old, Some TypeMismatch))"

text \<open>\<open>Time.UnmarshalJSON\<close> sees the raw text; a failed parse leaves the zero time.\<close>

definition decode_time :: "json \<Rightarrow> time \<Rightarrow> time \<times> json_error option" where
  "decode_time v old =
     (case v of
        JNull \<Rightarrow> (old, None)
      | JString raw \<Rightarrow> (case time_Parse raw of None \<Rightarrow> (zero_time, Some NotATime) | Some t \<Rightarrow> (t, None))
      | _ \<Rightarrow> (old, Some NotATime))"

text \<open>\<open>foldName\<close>: the long s and the Kelvin sign fold to ASCII letters, no other rune does.\<close>

fun fold_rune :: "rune \<Rightarrow> string" where
  "fold_rune Bad = replacement"
| "fold_rune (Good [c]) = (if code_in 97 122 c then [char_of (code c - 32)] else [c])"
| "fold_rune (Good t) =
     (if t = [CHR 0xC5, CHR 0xBF] then ''S'' else if t = [CHR 0xE2, CHR 0x84, CHR 0xAA] then ''K'' else t)"

definition fold_name :: "string \<Rightarrow> string" where
  "fold_name s = concat (map fold_rune (runes s))"

datatype message_field = FID | FTopic | FKey | FValue | FHeaders | FTimestamp

definition message_field_of :: "string \<Rightarrow> message_field option" where
  "message_field_of name =
     (let n = fold_name name
      in if n = ''ID'' then Some FID else if n = ''TOPIC'' then Some FTopic else if n = ''KEY'' then Some FKey
         else if n = ''VALUE'' then Some FValue else if n = ''HEADERS'' then Some FHeaders
         else if n = ''TIMESTAMP'' then Some FTimestamp else None)"

fun decode_message ::
  "(string \<times> json) list \<Rightarrow> message \<Rightarrow> json_error option \<Rightarrow> json_error option \<times> message" where
  "decode_message [] m saved = (saved, m)"
| "decode_message ((k, v) # es) m saved =
     (case unquote k of
        None \<Rightarrow> (Some SyntaxError, m)
      | Some name \<Rightarrow>
          (case message_field_of name of
             None \<Rightarrow> decode_message es m saved
           | Some FID \<Rightarrow>
               (let (s, e) = decode_string v (ID m) in decode_message es (m\<lparr>ID := s\<rparr>) (first_error saved e))
           | Some FTopic \<Rightarrow>
               (let (s, e) = decode_string v (Topic m) in decode_message es (m\<lparr>Topic := s\<rparr>) (first_error saved e))
           | Some FKey \<Rightarrow>
               (let (b, e) = decode_bytes v (Key m) in decode_message es (m\<lparr>Key := b\<rparr>) (first_error saved e))
           | Some FValue \<Rightarrow>
               (let (b, e) = decode_bytes v (Value m) in decode_message es (m\<lparr>Value := b\<rparr>) (first_error saved e))
           | Some FHeaders \<Rightarrow>
               (let (h, e) = decode_map v (Headers m) in decode_message es (m\<lparr>Headers := h\<rparr>) (first_error saved e))
           | Some FTimestamp \<Rightarrow>
               (case decode_time v (Timestamp m) of
                  (t, Some err) \<Rightarrow> (Some err, m\<lparr>Timestamp := t\<rparr>)
                | (t, None) \<Rightarrow> decode_message es (m\<lparr>Timestamp := t\<rparr>) saved)))"

definition UnmarshalJSON :: "byte_slice \<Rightarrow> message \<Rightarrow> json_error option \<times> message" where
  "UnmarshalJSON data m =
     (case json_parse (bytes_string (slice_bytes data)) of
        None \<Rightarrow> (Some SyntaxError, m)
      | Some (JObject es) \<Rightarrow> decode_message es m None
      | Some JNull \<Rightarrow> (None, m)
      | Some _ \<Rightarrow> (Some TypeMismatch, m))"

definition zero_message :: message where
  "zero_message = \<lparr>ID = '''', Topic = '''', Key = None, Value = None, Headers = None, Timestamp = zero_time\<rparr>"

section \<open>The round trip\<close>

definition ascii_plain :: "char \<Rightarrow> bool" where
  "ascii_plain c \<longleftrightarrow> plain_char c \<and> code c < 0x80"

lemma unquote_plain: "list_all ascii_plain s \<Longrightarrow> unquote s = Some s"
  by (induction s) (auto simp: ascii_plain_def plain_char_def)

lemma scannable_ascii: "list_all ascii_plain s \<Longrightarrow> scannable s"
  by (rule scannable_plain) (auto simp: list_all_iff ascii_plain_def)

lemma b64_char_plain: "ascii_plain (b64_char n)" "ascii_plain (CHR ''='')"
proof -
  have "b64_char n = CHR ''+'' \<or> b64_char n = CHR ''/'' \<or>
      code_in 65 90 (b64_char n) \<or> code_in 97 122 (b64_char n) \<or> code_in 48 57 (b64_char n)"
    by (auto simp: b64_char_def code_in_def)
  then show "ascii_plain (b64_char n)" by (auto simp: ascii_plain_def plain_char_def code_in_def)
  show "ascii_plain (CHR ''='')" by (simp add: ascii_plain_def plain_char_def)
qed

lemma b64_encode_plain: "list_all ascii_plain (b64_encode bs)"
  by (induction bs rule: b64_encode.induct) (simp_all add: b64_chars_def b64_char_plain)

lemma decode_bytes_json [simp]: "decode_bytes (bytes_json b) old = (b, None)"
  by (cases b) (simp_all add: bytes_json_def decode_bytes_def unquote_plain b64_encode_plain)

lemma decode_string_json [simp]: "decode_string (string_json s) old = (sanitize s, None)"
  by (simp add: string_json_def decode_string_def unquote_quote)

definition sanitized :: "(string \<rightharpoonup> string) \<Rightarrow> string list \<Rightarrow> (string \<rightharpoonup> string)" where
  "sanitized h ks = map_of (rev (map (\<lambda>k. (sanitize k, sanitize (case h k of None \<Rightarrow> [] | Some v \<Rightarrow> v))) (sort ks)))"

lemma decode_entries_json:
  "decode_entries (map (\<lambda>k. (quote k, string_json (f k))) ks) h =
     (h ++ map_of (rev (map (\<lambda>k. (sanitize k, sanitize (f k))) ks)), None)"
  by (induction ks arbitrary: h) (simp_all add: unquote_quote first_error_def)

lemma decode_map_json [simp]: "decode_map (map_json h ks) None = (Some (sanitized h ks), None)"
  by (simp add: decode_map_def map_json_def decode_entries_json sanitized_def)

lemma sanitized_valid:
  assumes "iteration_of h ks" and "\<forall>k v. h k = Some v \<longrightarrow> valid_utf8 k \<and> valid_utf8 v"
  shows "sanitized h ks = h"
proof -
  have ks: "distinct (sort ks)" "set (sort ks) = dom h" using assms(1) by (simp_all add: iteration_of_def)
  have "map (\<lambda>k. (sanitize k, sanitize (case h k of None \<Rightarrow> [] | Some v \<Rightarrow> v))) (sort ks) =
      map (\<lambda>k. (k, the (h k))) (sort ks)"
    using assms ks by (auto simp: iteration_of_def dom_def)
  then have s: "sanitized h ks = map_of (rev (map (\<lambda>k. (k, the (h k))) (sort ks)))" by (simp only: sanitized_def)
  have "map_of (map (\<lambda>k. (k, the (h k))) (sort ks)) = h"
    using ks by (auto simp: map_of_map_restrict restrict_map_def fun_eq_iff domIff)
  moreover have "distinct (map fst (map (\<lambda>k. (k, the (h k))) (sort ks)))" using ks by (simp add: comp_def)
  ultimately show ?thesis unfolding s by (metis distinct_rev map_of_inject_set rev_map set_rev)
qed

lemma sanitized_dom: "iteration_of h ks \<Longrightarrow> dom (sanitized h ks) = sanitize ` dom h"
  by (simp add: sanitized_def iteration_of_def dom_map_of_conv_image_fst image_image)

text \<open>Of several keys that are read back alike the greatest is written last and wins.\<close>

lemma sanitized_greatest:
  assumes "iteration_of h ks" and "h k = Some v"
    and "\<forall>k' \<in> dom h. sanitize k' = sanitize k \<longrightarrow> k' \<le> k"
  shows "sanitized h ks (sanitize k) = Some (sanitize v)"
proof -
  let ?f = "\<lambda>k. (sanitize k, sanitize (case h k of None \<Rightarrow> [] | Some v \<Rightarrow> v))"
  have ks: "distinct (sort ks)" "set (sort ks) = dom h" "sorted (sort ks)"
    using assms(1) by (simp_all add: iteration_of_def)
  then have "k \<in> set (sort ks)" using assms(2) by auto
  then obtain as bs where s: "sort ks = as @ k # bs" by (meson split_list)
  from ks(1,3) s have "\<forall>k' \<in> set bs. k < k'" by (auto simp: sorted_append order.strict_iff_order)
  moreover have "set bs \<subseteq> dom h" using ks(2) s by auto
  ultimately have "sanitize k \<notin> sanitize ` set bs" using assms(3) by (metis image_iff leD subsetD)
  then have "map_of (rev (map ?f bs)) (sanitize k) = None"
    by (simp add: map_of_eq_None_iff image_image)
  then show ?thesis by (simp add: sanitized_def s assms(2) map_add_def)
qed

lemma field_names [simp]:
  "message_field_of ''id'' = Some FID" "message_field_of ''topic'' = Some FTopic"
  "message_field_of ''key'' = Some FKey" "message_field_of ''value'' = Some FValue"
  "message_field_of ''headers'' = Some FHeaders" "message_field_of ''timestamp'' = Some FTimestamp"
  by code_simp+

lemma writable_parts [simp]:
  "writable d (string_json s)" "writable d (bytes_json b)" "0 < d \<Longrightarrow> writable d (map_json h ks)"
  by (auto simp: string_json_def bytes_json_def map_json_def scannable_ascii b64_encode_plain split: option.splits)

lemma message_json_writable:
  assumes "message_json ord m = Some j"
  shows "writable 10000 j"
  using assms
  by (auto simp: message_json_def scannable_ascii time_scannable ascii_plain_def plain_char_def
      split: option.splits if_splits)

definition decoded :: "((string \<rightharpoonup> string) \<Rightarrow> string list) \<Rightarrow> message \<Rightarrow> message" where
  "decoded ord m =
     \<lparr>ID = sanitize (ID m), Topic = sanitize (Topic m), Key = (if slice_len (Key m) = 0 then None else Key m),
      Value = Value m,
      Headers = (case Headers m of
         None \<Rightarrow> None | Some h \<Rightarrow> if length (ord h) = 0 then None else Some (sanitized h (ord h))),
      Timestamp = Timestamp m\<rparr>"

lemma decode_message_json:
  assumes "message_json ord m = Some (JObject es)"
  shows "decode_message es zero_message None = (None, decoded ord m)"
proof -
  from assms obtain ts where ts: "time_MarshalJSON (Timestamp m) = Some ts"
    by (auto simp: message_json_def split: option.splits)
  then have t: "decode_time (JString ts) old = (Timestamp m, None)" for old
    using time_roundtrip by (simp add: decode_time_def)
  show ?thesis
    using assms
    by (cases "Headers m"; cases "slice_len (Key m) = 0")
       (auto simp: message_json_def ts t zero_message_def decoded_def first_error_def split: if_splits)
qed

lemma json_roundtrip_general:
  assumes "0 \<le> year_of (Timestamp m)" "year_of (Timestamp m) \<le> 9999"
  shows "\<exists>data. MarshalJSON ord m = Inr data \<and> UnmarshalJSON data zero_message = (None, decoded ord m)"
proof -
  from assms time_MarshalJSON_iff [of "Timestamp m"] obtain es where j: "message_json ord m = Some (JObject es)"
    by (auto simp: message_json_def)
  from message_json_writable [OF j] have "json_parse (json_text (JObject es)) = Some (JObject es)"
    by (rule json_parse_text)
  with decode_message_json [OF j] j show ?thesis
    by (simp add: MarshalJSON_def UnmarshalJSON_def del: json_text.simps)
qed

lemma MarshalJSON_fails_iff:
  "MarshalJSON ord m = Inl YearOutOfRange \<longleftrightarrow> \<not> (0 \<le> year_of (Timestamp m) \<and> year_of (Timestamp m) \<le> 9999)"
  using time_MarshalJSON_iff [of "Timestamp m"] by (auto simp: MarshalJSON_def message_json_def split: option.splits)

section \<open>Properties\<close>

text \<open>
  C7: a message whose year has four digits is encoded, and decoding the text into a fresh message
  gives it back. Value, key bytes and time stamp are the same; in identity, topic and headers every
  byte that is no UTF-8 is replaced, nothing else changes. The headers read back are those of the
  message with keys and values so repaired, none dropped or invented; of keys that become equal
  the greatest wins. Nil and empty header maps come back as nil, in whatever order the map is
  visited. So when these strings are valid UTF-8 the content is the same.
\<close>

theorem message_json_roundtrip:
  assumes "0 \<le> year_of (Timestamp m)" "year_of (Timestamp m) \<le> 9999"
    and "\<forall>h. Headers m = Some h \<longrightarrow> iteration_of h (ord h)"
  shows "\<exists>data m'. MarshalJSON ord m = Inr data \<and> UnmarshalJSON data zero_message = (None, m') \<and>
    Value m' = Value m \<and> Timestamp m' = Timestamp m \<and> slice_bytes (Key m') = slice_bytes (Key m) \<and>
    ID m' = sanitize (ID m) \<and> Topic m' = sanitize (Topic m) \<and>
    (case Headers m of
       None \<Rightarrow> Headers m' = None
     | Some h \<Rightarrow>
         if h = Map.empty then Headers m' = None
         else \<exists>h'. Headers m' = Some h' \<and> dom h' = sanitize ` dom h \<and>
           (\<forall>k v. h k = Some v \<and> (\<forall>k' \<in> dom h. sanitize k' = sanitize k \<longrightarrow> k' \<le> k) \<longrightarrow>
              h' (sanitize k) = Some (sanitize v))) \<and>
    (valid_utf8 (ID m) \<and> valid_utf8 (Topic m) \<and>
       (\<forall>h k v. Headers m = Some h \<and> h k = Some v \<longrightarrow> valid_utf8 k \<and> valid_utf8 v) \<longrightarrow>
     same_content m' m \<and> Topic m' = Topic m)"
proof -
  from json_roundtrip_general [OF assms(1,2)] obtain data where
    d: "MarshalJSON ord m = Inr data" "UnmarshalJSON data zero_message = (None, decoded ord m)" by blast
  have k: "slice_bytes (Key (decoded ord m)) = slice_bytes (Key m)"
    by (cases "Key m") (simp_all add: decoded_def)
  have nil: "ord h = [] \<longleftrightarrow> h = Map.empty" if "Headers m = Some h" for h
    using assms(3) that by (metis dom_eq_empty_conv iteration_of_def set_empty)
  have h: "case Headers m of
       None \<Rightarrow> Headers (decoded ord m) = None
     | Some h \<Rightarrow>
         if h = Map.empty then Headers (decoded ord m) = None
         else \<exists>h'. Headers (decoded ord m) = Some h' \<and> dom h' = sanitize ` dom h \<and>
           (\<forall>k v. h k = Some v \<and> (\<forall>k' \<in> dom h. sanitize k' = sanitize k \<longrightarrow> k' \<le> k) \<longrightarrow>
              h' (sanitize k) = Some (sanitize v))"
    using assms(3) nil sanitized_dom sanitized_greatest by (auto simp: decoded_def split: option.split)
  have "GetHeader (decoded ord m) = GetHeader m"
    if v: "\<forall>h k v. Headers m = Some h \<and> h k = Some v \<longrightarrow> valid_utf8 k \<and> valid_utf8 v"
  proof (cases "Headers m")
    case (Some h)
    with v assms(3) have s: "sanitized h (ord h) = h"
      using sanitized_valid [of h "ord h"] by auto
    with Some nil show ?thesis by (cases "ord h = []") (auto simp: decoded_def GetHeader_def)
  qed (simp add: decoded_def GetHeader_def fun_eq_iff)
  with d k h show ?thesis
    by (intro exI [of _ data] exI [of _ "decoded ord m"]) (auto simp: decoded_def same_content_def)
qed
definition json_demo :: message where
  "json_demo = SetHeader ''trace'' ''a<b'' (NewMessage ''m-1'' 1700000000000000000 ''events'' (Some [208, 151, 0]))"

theorem message_json_roundtrip_witness:
  "\<exists>data m'. MarshalJSON (\<lambda>h. filter (\<lambda>k. h k \<noteq> None) [''trace'']) json_demo = Inr data \<and>
     UnmarshalJSON data zero_message = (None, m') \<and> Value m' = Some [208, 151, 0] \<and> GetHeader m' ''trace'' = ''a<b''"
proof -
  let ?ord = "\<lambda>h :: string \<rightharpoonup> string. filter (\<lambda>k. h k \<noteq> None) [''trace'']"
  have h: "Headers json_demo = Some [''trace'' \<mapsto> ''a<b'']" "Value json_demo = Some [208, 151, 0]"
    "ID json_demo = ''m-1''" "Topic json_demo = ''events''"
    by (simp_all add: json_demo_def NewMessage_def SetHeader_def)
  have "year_of (Timestamp json_demo) = 2023" unfolding json_demo_def by code_simp
  moreover have "\<forall>h. Headers json_demo = Some h \<longrightarrow> iteration_of h (?ord h)"
    by (simp add: h iteration_of_def)
  moreover have "valid_utf8 ''m-1''" "valid_utf8 ''events''" "valid_utf8 ''trace''" "valid_utf8 ''a<b''"
    unfolding valid_utf8_def by code_simp+
  moreover have "GetHeader json_demo ''trace'' = ''a<b''" by (simp add: GetHeader_def h)
  ultimately obtain data m' where "MarshalJSON ?ord json_demo = Inr data" "UnmarshalJSON data zero_message = (None, m')"
      "Value m' = Some [208, 151, 0]" "same_content m' json_demo"
    using message_json_roundtrip [of json_demo ?ord] by (auto simp: h split: if_splits)
  with \<open>GetHeader json_demo ''trace'' = ''a<b''\<close> show ?thesis by (auto simp: same_content_def)
qed

end
