(* ===== verification/SyncProducer.thy ===== *)
theory SyncProducer
  imports Codecs Broker_Interface
begin

text \<open>
  \<open>SyncProducer\<close> of \<open>pkg/producer/producer.go\<close>, over any broker that keeps the contract
  of \<open>publishing\<close> and any compressor that keeps the contract of \<open>compressor\<close>.

  \<open>Send\<close> changes the message it is given: the message it leaves behind is part of its
  result. The clock reading that \<open>context.WithTimeout\<close> takes is an argument.
\<close>

record 'v SyncProducer =
  sp_serializer :: "'v Serializer option"
  sp_compressor :: "Compressor option"
  sp_timeout :: int64
  sp_sent :: int64
  sp_failed :: int64

definition NewSyncProducer :: "int64 \<Rightarrow> 'v SyncProducer" where
  "NewSyncProducer timeout =
     \<lparr>sp_serializer = None, sp_compressor = None,
      sp_timeout = (if sint timeout \<le> 0 then 30 * 1000000000 else timeout), sp_sent = 0, sp_failed = 0\<rparr>"

definition sp_SetSerializer :: "'v Serializer option \<Rightarrow> 'v SyncProducer \<Rightarrow> 'v SyncProducer" where
  "sp_SetSerializer s sp = sp\<lparr>sp_serializer := s\<rparr>"

definition sp_SetCompressor :: "Compressor option \<Rightarrow> 'v SyncProducer \<Rightarrow> 'v SyncProducer" where
  "sp_SetCompressor c sp = sp\<lparr>sp_compressor := c\<rparr>"

text \<open>The two header and value steps of \<open>Send\<close>: the content type, then the compression.\<close>

definition mark_content_type :: "'v SyncProducer \<Rightarrow> message \<Rightarrow> message" where
  "mark_content_type sp msg =
     (case sp_serializer sp of
        None \<Rightarrow> msg
      | Some s \<Rightarrow> if Value msg \<noteq> None then SetHeader ''content-type'' (ContentType s) msg else msg)"

definition compress_value :: "translator \<Rightarrow> 'v SyncProducer \<Rightarrow> message \<Rightarrow> go_error + message" where
  "compress_value tn sp msg =
     (case sp_compressor sp of
        None \<Rightarrow> Inr msg
      | Some c \<Rightarrow>
          if Value msg = None then Inr msg
          else (case Compress c (Value msg) of
                  (_, Some err) \<Rightarrow> Inl (Errorf_w tn ''compression failed'' err)
                | (compressed, None) \<Rightarrow>
                    Inr (SetHeader ''content-encoding'' (Algorithm c) (msg\<lparr>Value := compressed\<rparr>))))"

definition sp_Send ::
  "(go_context \<Rightarrow> string \<Rightarrow> message \<Rightarrow> 'w \<Rightarrow> go_error option \<times> 'w) \<Rightarrow> translator \<Rightarrow> time \<Rightarrow> go_context \<Rightarrow>
   string \<Rightarrow> message \<Rightarrow> 'v SyncProducer \<Rightarrow> 'w \<Rightarrow> go_error option \<times> message \<times> 'v SyncProducer \<times> 'w" where
  "sp_Send publish tn now ctx topic msg sp w =
     (let ctx' = WithTimeout now ctx (sp_timeout sp);
          msg1 = mark_content_type sp msg
      in case compress_value tn sp msg1 of
           Inl err \<Rightarrow> (Some err, msg1, sp\<lparr>sp_failed := sp_failed sp + 1\<rparr>, w)
         | Inr msg2 \<Rightarrow>
             (case publish ctx' topic msg2 w of
                (Some err, w') \<Rightarrow> (Some err, msg2, sp\<lparr>sp_failed := sp_failed sp + 1\<rparr>, w')
              | (None, w') \<Rightarrow> (None, msg2, sp\<lparr>sp_sent := sp_sent sp + 1\<rparr>, w')))"

definition SendValue ::
  "(go_context \<Rightarrow> string \<Rightarrow> message \<Rightarrow> 'w \<Rightarrow> go_error option \<times> 'w) \<Rightarrow> translator \<Rightarrow> 'v json_pkg \<Rightarrow>
   string \<Rightarrow> time \<Rightarrow> time \<Rightarrow> go_context \<Rightarrow> string \<Rightarrow> 'v \<Rightarrow> 'v SyncProducer \<Rightarrow> 'w \<Rightarrow>
   go_error option \<times> 'v SyncProducer \<times> 'w" where
  "SendValue publish tn json uid created now ctx topic value sp w =
     (let s = (case sp_serializer sp of None \<Rightarrow> JSONSerializer json | Some s \<Rightarrow> s)
      in case Serialize s value of
           (_, Some err) \<Rightarrow>
             (Some (Errorf_w tn ''serialization failed'' err), sp\<lparr>sp_failed := sp_failed sp + 1\<rparr>, w)
         | (data, None) \<Rightarrow>
             (let msg = SetHeader ''content-type'' (ContentType s) (NewMessage uid created topic data);
                  (err, _, sp', w') = sp_Send publish tn now ctx topic msg sp w
              in (err, sp', w')))"

definition sp_SentCount :: "'v SyncProducer \<Rightarrow> int64" where
  "sp_SentCount sp = sp_sent sp"

definition sp_FailedCount :: "'v SyncProducer \<Rightarrow> int64" where
  "sp_FailedCount sp = sp_failed sp"

section \<open>Lemmas\<close>

lemma mark_content_type_simps [simp]:
  "Value (mark_content_type sp msg) = Value msg" "ID (mark_content_type sp msg) = ID msg"
  "Key (mark_content_type sp msg) = Key msg"
  by (simp_all add: mark_content_type_def split: option.split)

text \<open>What a receiver does with a message: undo the compression the header names.\<close>

definition payload_recoverable :: "Compressor \<Rightarrow> byte list \<Rightarrow> message \<Rightarrow> bool" where
  "payload_recoverable c bs m \<longleftrightarrow> GetHeader m ''content-encoding'' = Algorithm c \<and>
     (\<exists>d. Decompress c (Value m) = (d, None) \<and> slice_bytes d = bs)"

lemma compress_value_recoverable:
  assumes "compressor (Compress c) (Decompress c)" and "sp_compressor sp = Some c"
    and "Value msg = Some bs" and "compress_value tn sp msg = Inr msg'" and "same_content m msg'"
  shows "payload_recoverable c bs m \<and> ID m = ID msg"
proof -
  from assms(2-4) obtain z where z: "Compress c (Some bs) = (z, None)"
    and msg': "msg' = SetHeader ''content-encoding'' (Algorithm c) (msg\<lparr>Value := z\<rparr>)"
    by (auto simp: compress_value_def split: prod.splits option.splits)
  from assms(5) msg' have m: "slice_bytes (Value m) = slice_bytes z" "ID m = ID msg"
      "GetHeader m ''content-encoding'' = Algorithm c"
    by (simp_all add: same_content_def)
  from compressor.recovers [OF assms(1) z m(1)] m show ?thesis by (simp add: payload_recoverable_def)
qed

context publishing
begin

lemma Send_recoverable:
  assumes "inv w" and "compressor (Compress c) (Decompress c)" and "sp_compressor sp = Some c"
    and "Value msg = Some bs"
    and "sp_Send publish tn now ctx topic msg sp w = (None, msg', sp', w')"
  shows "\<exists>m. log_of w' = (log_of w)(topic := log_of w topic @ [m]) \<and>
    payload_recoverable c bs m \<and> ID m = ID msg \<and> sp_SentCount sp' = sp_SentCount sp + 1 \<and>
    sp_FailedCount sp' = sp_FailedCount sp"
proof -
  from assms(5) obtain msg2 where cv: "compress_value tn sp (mark_content_type sp msg) = Inr msg2"
    and pub: "publish (WithTimeout now ctx (sp_timeout sp)) topic msg2 w = (None, w')"
    and sp': "sp' = sp\<lparr>sp_sent := sp_sent sp + 1\<rparr>"
    by (auto simp: sp_Send_def Let_def split: sum.splits prod.splits option.splits)
  from publish_ok [OF assms(1) pub] obtain m where "same_content m msg2"
    and "log_of w' = (log_of w)(topic := log_of w topic @ [m])" by auto
  with compress_value_recoverable [OF assms(2,3) _ cv, of bs m] assms(4) sp' show ?thesis
    by (auto simp: sp_SentCount_def sp_FailedCount_def)
qed

text \<open>Every call counts once, as sent or as failed.\<close>

lemma Send_counts:
  assumes "inv w" and "sp_Send publish tn now ctx topic msg sp w = (e, msg', sp', w')"
  shows "inv w' \<and> sp_serializer sp' = sp_serializer sp \<and> sp_compressor sp' = sp_compressor sp \<and>
    (if e = None then sp_sent sp' = sp_sent sp + 1 \<and> sp_failed sp' = sp_failed sp \<and>
         length (log_of w' topic) = Suc (length (log_of w topic))
     else sp_sent sp' = sp_sent sp \<and> sp_failed sp' = sp_failed sp + 1 \<and> log_of w' = log_of w)"
proof (cases "compress_value tn sp (mark_content_type sp msg)")
  case (Inl err)
  with assms show ?thesis by (auto simp: sp_Send_def Let_def)
next
  case (Inr msg2)
  obtain r w1 where pub: "publish (WithTimeout now ctx (sp_timeout sp)) topic msg2 w = (r, w1)" by fastforce
  with publish_inv [OF assms(1), of "WithTimeout now ctx (sp_timeout sp)" topic msg2] have "inv w1" by simp
  from assms(1) pub show ?thesis
    by (cases rule: publish_cases) (use assms(2) Inr pub \<open>inv w1\<close> in \<open>auto simp: sp_Send_def Let_def\<close>)
qed

end

section \<open>A sequence of sends\<close>

fun send_all ::
  "(go_context \<Rightarrow> string \<Rightarrow> message \<Rightarrow> 'w \<Rightarrow> go_error option \<times> 'w) \<Rightarrow> translator \<Rightarrow> go_context \<Rightarrow> string \<Rightarrow>
   (time \<times> message) list \<Rightarrow> 'v SyncProducer \<Rightarrow> 'w \<Rightarrow> go_error option list \<times> 'v SyncProducer \<times> 'w" where
  "send_all publish tn ctx topic [] sp w = ([], sp, w)"
| "send_all publish tn ctx topic ((now, msg) # msgs) sp w =
     (let (e, _, sp1, w1) = sp_Send publish tn now ctx topic msg sp w;
          (es, sp2, w2) = send_all publish tn ctx topic msgs sp1 w1
      in (e # es, sp2, w2))"

context publishing
begin

lemma send_all_counts:
  assumes "inv w" and "send_all publish tn ctx topic msgs sp w = (es, sp', w')"
  shows "length es = length msgs \<and>
    sp_sent sp' = sp_sent sp + of_nat (length (filter (\<lambda>e. e = None) es)) \<and>
    sp_failed sp' = sp_failed sp + of_nat (length (filter (\<lambda>e. e \<noteq> None) es)) \<and>
    length (log_of w' topic) = length (log_of w topic) + length (filter (\<lambda>e. e = None) es)"
  using assms
proof (induction msgs arbitrary: sp w es)
  case (Cons x msgs)
  obtain now msg where x: "x = (now, msg)" by fastforce
  obtain e m1 sp1 w1 where s: "sp_Send publish tn now ctx topic msg sp w = (e, m1, sp1, w1)"
    by (metis prod_cases4)
  with Cons.prems(2) x obtain es1 where r: "send_all publish tn ctx topic msgs sp1 w1 = (es1, sp', w')"
    and es: "es = e # es1" by (auto split: prod.splits)
  note c = Send_counts [OF Cons.prems(1) s]
  with Cons.IH [OF _ r] have IH: "length es1 = length msgs"
    "sp_sent sp' = sp_sent sp1 + of_nat (length (filter (\<lambda>e. e = None) es1))"
    "sp_failed sp' = sp_failed sp1 + of_nat (length (filter (\<lambda>e. e \<noteq> None) es1))"
    "length (log_of w' topic) = length (log_of w1 topic) + length (filter (\<lambda>e. e = None) es1)" by blast+
  show ?case using c IH unfolding es by (cases e) simp_all
qed simp

end

section \<open>Properties\<close>

text \<open>
  C21: a message that \<open>Send\<close> publishes through a lossless compressor to a connected in-memory
  broker arrives once, with the header that names the algorithm, and decompressing its value
  gives the bytes that were sent; the call is counted as sent.
\<close>

theorem sync_send_recoverable:
  assumes "im_ok rt w" and "IsConnected w" and "compressor (Compress c) (Decompress c)"
    and "sp_compressor sp = Some c" and "Value msg = Some bs" and "snd (Compress c (Some bs)) = None"
  shows "\<exists>msg' sp' w' m. sp_Send (im_publish rt) tn now ctx topic msg sp w = (None, msg', sp', w') \<and>
    (\<forall>t. queue_of w' t = queue_of w t @ (if t = topic then [m] else [])) \<and>
    payload_recoverable c bs m \<and> ID m = ID msg \<and> sp_SentCount sp' = sp_SentCount sp + 1 \<and>
    sp_FailedCount sp' = sp_FailedCount sp"
proof -
  obtain msg2 where cv: "compress_value tn sp (mark_content_type sp msg) = Inr msg2"
    using assms(4-6) by (cases "Compress c (Some bs)") (simp add: compress_value_def)
  let ?ctx = "WithTimeout now ctx (sp_timeout sp)"
  have "fst (im_publish rt ?ctx topic msg2 w) = None"
    using impub.publish_ready [OF assms(1,2)] .
  then obtain w' where pub: "im_publish rt ?ctx topic msg2 w = (None, w')" by (metis fst_conv surj_pair)
  have s: "sp_Send (im_publish rt) tn now ctx topic msg sp w =
      (None, msg2, sp\<lparr>sp_sent := sp_sent sp + 1\<rparr>, w')"
    by (simp add: sp_Send_def cv pub)
  from impub.Send_recoverable [OF assms(1,3-5) s] obtain m where
    q: "queue_of w' = (queue_of w)(topic := queue_of w topic @ [m])" and m: "payload_recoverable c bs m" "ID m = ID msg"
    by blast
  from q have "\<forall>t. queue_of w' t = queue_of w t @ (if t = topic then [m] else [])" by (simp add: fun_eq_iff)
  with s m show ?thesis by (auto simp: sp_SentCount_def sp_FailedCount_def)
qed

theorem sync_send_recoverable_witness:
  "\<exists>msg' sp' w' m. sp_Send (im_publish rt_example) NoopTranslator 0 \<lparr>ctx_deadline = None, ctx_err = None\<rparr> ''t''
       (NewMessage ''m'' 0 ''t'' (Some [7, 8])) (sp_SetCompressor (Some (GzipCompressor gzip_framing NoopTranslator 0 None))
         (NewSyncProducer 0 :: bool SyncProducer)) example_world = (None, msg', sp', w') \<and>
     payload_recoverable (GzipCompressor gzip_framing NoopTranslator 0 None) [7, 8] m \<and> queue_of w' ''t'' = [m]"
proof -
  let ?c = "GzipCompressor gzip_framing NoopTranslator 0 None"
  let ?sp = "sp_SetCompressor (Some ?c) (NewSyncProducer 0 :: bool SyncProducer)"
  have "snd (Compress ?c (Some [7, 8])) = None"
    by (simp add: GzipCompressor_def gzip_Compress_def gzip_framing_def DefaultCompression_def)
  with sync_send_recoverable [of rt_example example_world ?c ?sp "NewMessage ''m'' 0 ''t'' (Some [7, 8])" "[7, 8]"
      NoopTranslator 0 "\<lparr>ctx_deadline = None, ctx_err = None\<rparr>" "''t''"]
    gzip_compressor [OF gzip_framing_lossless]
  show ?thesis
    by (fastforce simp: im_ok_def im_inv_example IsConnected_def sp_SetCompressor_def NewSyncProducer_def NewMessage_def)
qed

text \<open>
  Over any sequence of \<open>Send\<close> calls to a topic of the in-memory broker, whether it is
  connected or not, \<open>SentCount\<close> is the number of calls that returned nil, which is the number
  of messages the topic received, and \<open>FailedCount\<close> the number of the others.
\<close>

lemma sync_counters_exact:
  assumes "im_ok rt w" and "send_all (im_publish rt) tn ctx topic msgs (NewSyncProducer timeout) w = (es, sp, w')"
  shows "sp_SentCount sp = of_nat (length (filter (\<lambda>e. e = None) es)) \<and>
    sp_FailedCount sp = of_nat (length msgs - length (filter (\<lambda>e. e = None) es)) \<and>
    length (queue_of w' topic) = length (queue_of w topic) + length (filter (\<lambda>e. e = None) es)"
proof -
  note c = impub.send_all_counts [OF assms]
  moreover have "length (filter (\<lambda>e. e \<noteq> None) es) = length es - length (filter (\<lambda>e. e = None) es)"
    using sum_length_filter_compl [of "\<lambda>e. e = None" es] by simp
  ultimately show ?thesis by (simp add: sp_SentCount_def sp_FailedCount_def NewSyncProducer_def)
qed

lemma compress_value_marked:
  assumes "sp_compressor sp = Some c" and "Value m = Some x" and "Compress c (Some x) = (Some y, None)"
  shows "compress_value tn sp (mark_content_type sp m) =
    Inr (SetHeader ''content-encoding'' (Algorithm c) ((mark_content_type sp m)\<lparr>Value := Some y\<rparr>))"
  using assms by (simp add: compress_value_def)

text \<open>
  C37: sending a message again compresses it again. \<open>Send\<close> replaces the value of the caller's
  message by the compressed bytes, whether the publish succeeds or fails, and whatever the broker.
  So a second \<open>Send\<close> of the same message, to any broker in any state, publishes the compression of
  the compressed bytes under a header that names the compressor once; a receiver that decompresses it with a
  lossless compressor gets the compressed bytes, which are not those the caller had unless the compressor passes
  them through.
\<close>

theorem resend_compresses_twice:
  assumes "sp_compressor sp = Some c" and "Value msg = Some bs"
    and "Compress c (Some bs) = (Some z, None)" and "Compress c (Some z) = (Some zz, None)"
    and "compressor (Compress c) (Decompress c)"
    and "sp_Send publish tn now ctx topic msg sp w = (e, msg', sp', w')"
  shows "Value msg' = Some z \<and>
    (\<exists>msg2 d. sp_Send publish tn now2 ctx2 topic2 msg' sp' v =
        (case publish (WithTimeout now2 ctx2 (sp_timeout sp)) topic2 msg2 v of
           (None, v') \<Rightarrow> (None, msg2, sp'\<lparr>sp_sent := sp_sent sp' + 1\<rparr>, v')
         | (Some err, v') \<Rightarrow> (Some err, msg2, sp'\<lparr>sp_failed := sp_failed sp' + 1\<rparr>, v')) \<and>
       Value msg2 = Some zz \<and> GetHeader msg2 ''content-encoding'' = Algorithm c \<and>
       Decompress c (Value msg2) = (d, None) \<and> slice_bytes d = z)"
proof -
  note cv = compress_value_marked
  from assms(6) cv [OF assms(1-3)] have first: "Value msg' = Some z" "sp_compressor sp' = Some c" "sp_timeout sp' = sp_timeout sp"
    using assms(1) by (auto simp: sp_Send_def Let_def split: prod.splits option.splits)
  define msg2 where "msg2 = SetHeader ''content-encoding'' (Algorithm c) ((mark_content_type sp' msg')\<lparr>Value := Some zz\<rparr>)"
  have "sp_Send publish tn now2 ctx2 topic2 msg' sp' v =
      (case publish (WithTimeout now2 ctx2 (sp_timeout sp)) topic2 msg2 v of
         (None, v') \<Rightarrow> (None, msg2, sp'\<lparr>sp_sent := sp_sent sp' + 1\<rparr>, v')
       | (Some err, v') \<Rightarrow> (Some err, msg2, sp'\<lparr>sp_failed := sp_failed sp' + 1\<rparr>, v'))"
    using cv [OF first(2,1) assms(4)] first(3) by (simp add: sp_Send_def Let_def msg2_def split: prod.split option.split)
  moreover have m2: "Value msg2 = Some zz" "GetHeader msg2 ''content-encoding'' = Algorithm c" by (simp_all add: msg2_def)
  moreover obtain d where "Decompress c (Value msg2) = (d, None)" "slice_bytes d = z"
    using compressor.recovers [OF assms(5,4), of "Value msg2"] m2(1) by auto
  ultimately show ?thesis using first(1) by blast
qed

theorem resend_compresses_twice_witness:
  "\<exists>sp msg sp' msg' w'. sp_Send (im_publish rt_example) NoopTranslator 0 \<lparr>ctx_deadline = None, ctx_err = None\<rparr> ''t''
       msg (sp :: bool SyncProducer) example_world = (None, msg', sp', w') \<and> Value msg = Some [7, 8] \<and> Value msg' = Some [31, 7, 8] \<and>
     (\<exists>msg2 sp2 w2. sp_Send (im_publish rt_example) NoopTranslator 0 \<lparr>ctx_deadline = None, ctx_err = None\<rparr> ''t'' msg' sp' w' =
        (None, msg2, sp2, w2) \<and> Value msg2 = Some [31, 31, 7, 8])"
proof -
  let ?c = "GzipCompressor gzip_framing NoopTranslator 0 None" and ?ctx = "\<lparr>ctx_deadline = None, ctx_err = None\<rparr>"
  let ?sp = "sp_SetCompressor (Some ?c) (NewSyncProducer 0 :: bool SyncProducer)" and ?msg = "NewMessage ''m'' 0 ''t'' (Some [7, 8])"
  have c: "Compress ?c (Some [7, 8]) = (Some [31, 7, 8], None)" "Compress ?c (Some [31, 7, 8]) = (Some [31, 31, 7, 8], None)"
    by (simp_all add: GzipCompressor_def gzip_Compress_def gzip_framing_def DefaultCompression_def)
  have sp: "sp_compressor ?sp = Some ?c" "Value ?msg = Some [7, 8]" by (simp_all add: sp_SetCompressor_def NewMessage_def)
  obtain msg' sp' w' where s: "sp_Send (im_publish rt_example) NoopTranslator 0 ?ctx ''t'' ?msg ?sp example_world = (None, msg', sp', w')"
    "connected (im w')"
    using c(1) sp by (simp add: sp_Send_def compress_value_def im_publish_def Publish_connected Let_def)
  from resend_compresses_twice [OF sp c gzip_compressor [OF gzip_framing_lossless] s(1), of 0 ?ctx "''t''" w']
  obtain msg2 where v: "Value msg' = Some [31, 7, 8]" "Value msg2 = Some [31, 31, 7, 8]" and
    r: "sp_Send (im_publish rt_example) NoopTranslator 0 ?ctx ''t'' msg' sp' w' =
      (case im_publish rt_example (WithTimeout 0 ?ctx (sp_timeout ?sp)) ''t'' msg2 w' of
         (None, v') \<Rightarrow> (None, msg2, sp'\<lparr>sp_sent := sp_sent sp' + 1\<rparr>, v')
       | (Some err, v') \<Rightarrow> (Some err, msg2, sp'\<lparr>sp_failed := sp_failed sp' + 1\<rparr>, v'))" by blast
  obtain w2 where "im_publish rt_example (WithTimeout 0 ?ctx (sp_timeout ?sp)) ''t'' msg2 w' = (None, w2)"
    using s(2) by (simp add: im_publish_def Publish_connected)
  with r have "sp_Send (im_publish rt_example) NoopTranslator 0 ?ctx ''t'' msg' sp' w' =
      (None, msg2, sp'\<lparr>sp_sent := sp_sent sp' + 1\<rparr>, w2)" by simp
  with s(1) sp(2) v show ?thesis by blast
qed

text \<open>
  C27: \<open>SendValue\<close> end to end. The value is serialized with the producer's serializer, JSON
  when there is none, and compressed; the message that arrives names both codings in its headers,
  and a receiver that decompresses and deserializes it, into any target, gets the value back.
\<close>

theorem send_value_roundtrip:
  assumes "im_ok rt w" and "IsConnected w" and "sp_compressor sp = Some c"
    and "compressor (Compress c) (Decompress c)"
    and "s = (case sp_serializer sp of None \<Rightarrow> JSONSerializer json | Some s \<Rightarrow> s)"
    and "Serialize s v = (Some bs, None)" and "snd (Compress c (Some bs)) = None"
    and "\<forall>d v0. slice_bytes d = bs \<longrightarrow> Deserialize s d v0 = (None, v)"
  shows "\<exists>sp' w' m d. SendValue (im_publish rt) tn json uid created now ctx topic v sp w = (None, sp', w') \<and>
    queue_of w' topic = queue_of w topic @ [m] \<and>
    GetHeader m ''content-type'' = ContentType s \<and> GetHeader m ''content-encoding'' = Algorithm c \<and>
    Decompress c (Value m) = (d, None) \<and> Deserialize s d v0 = (None, v)"
proof -
  define msg where "msg = SetHeader ''content-type'' (ContentType s) (NewMessage uid created topic (Some bs))"
  have val: "Value msg = Some bs" by (simp add: msg_def NewMessage_def)
  obtain z where z: "Compress c (Some bs) = (z, None)" using assms(7) by (metis prod.collapse)
  define msg2 where "msg2 = SetHeader ''content-encoding'' (Algorithm c) ((mark_content_type sp msg)\<lparr>Value := z\<rparr>)"
  have cv: "compress_value tn sp (mark_content_type sp msg) = Inr msg2"
    using assms(3) z val by (simp add: compress_value_def msg2_def)
  have "GetHeader (mark_content_type sp msg) ''content-type'' = ContentType s"
    using assms(5) by (simp add: mark_content_type_def msg_def split: option.splits)
  then have ct: "GetHeader msg2 ''content-type'' = ContentType s" by (simp add: msg2_def)
  let ?ctx = "WithTimeout now ctx (sp_timeout sp)"
  have "fst (im_publish rt ?ctx topic msg2 w) = None"
    using impub.publish_ready [OF assms(1,2)] .
  then obtain w' where pub: "im_publish rt ?ctx topic msg2 w = (None, w')" by (metis fst_conv surj_pair)
  have s: "sp_Send (im_publish rt) tn now ctx topic msg sp w =
      (None, msg2, sp\<lparr>sp_sent := sp_sent sp + 1\<rparr>, w')"
    by (simp add: sp_Send_def cv pub)
  have sv: "SendValue (im_publish rt) tn json uid created now ctx topic v sp w =
      (None, sp\<lparr>sp_sent := sp_sent sp + 1\<rparr>, w')"
    unfolding SendValue_def Let_def assms(5) [symmetric] using assms(6) s by (simp add: msg_def)
  from impub.publish_ok [OF assms(1) pub] obtain m where m: "same_content m msg2"
    and q: "queue_of w' = (queue_of w)(topic := queue_of w topic @ [m])" by blast
  from compress_value_recoverable [OF assms(4,3) _ cv m] val obtain d where
    "GetHeader m ''content-encoding'' = Algorithm c" "Decompress c (Value m) = (d, None)" "slice_bytes d = bs"
    by (auto simp: payload_recoverable_def)
  with sv q ct m assms(8) show ?thesis by (auto simp: same_content_def fun_upd_def)
qed

definition json_bool :: "bool json_pkg" where
  "json_bool =
     \<lparr>json_Marshal = (\<lambda>b. (Some (string_bytes (if b then ''true'' else ''false'')), None)),
      json_Unmarshal = (\<lambda>d v. if slice_bytes d = string_bytes ''true'' then (None, True)
         else if slice_bytes d = string_bytes ''false'' then (None, False)
         else (Some (ErrorString ''invalid character''), v))\<rparr>"

theorem send_value_roundtrip_witness:
  "\<exists>sp' w' m d. SendValue (im_publish rt_example) NoopTranslator json_bool ''u'' 0 0
       \<lparr>ctx_deadline = None, ctx_err = None\<rparr> ''t'' True
       (sp_SetCompressor (Some (SnappyCompressor None None)) (NewSyncProducer 0)) example_world = (None, sp', w') \<and>
     queue_of w' ''t'' = [m] \<and> Decompress (SnappyCompressor None None) (Value m) = (d, None) \<and>
     json_Unmarshal json_bool d False = (None, True)"
proof -
  let ?sp = "sp_SetCompressor (Some (SnappyCompressor None None)) (NewSyncProducer 0) :: bool SyncProducer"
  have ok: "im_ok rt_example example_world" "IsConnected example_world"
    by (simp_all add: im_ok_def im_inv_example IsConnected_def)
  have sp: "sp_compressor ?sp = Some (SnappyCompressor None None)"
    "JSONSerializer json_bool = (case sp_serializer ?sp of None \<Rightarrow> JSONSerializer json_bool | Some s \<Rightarrow> s)"
    by (simp_all add: sp_SetCompressor_def NewSyncProducer_def)
  have json: "Serialize (JSONSerializer json_bool) True = (Some (string_bytes ''true''), None)"
    "\<forall>d v0. slice_bytes d = string_bytes ''true'' \<longrightarrow> Deserialize (JSONSerializer json_bool) d v0 = (None, True)"
    by (simp_all add: JSONSerializer_def json_bool_def)
  have "snd (Compress (SnappyCompressor None None) (Some (string_bytes ''true''))) = None"
    by (simp add: SnappyCompressor_def pass_through_def)
  from send_value_roundtrip [OF ok sp(1) snappy.compressor_axioms sp(2) json(1) this json(2)]
  show ?thesis by (simp add: JSONSerializer_def) blast
qed

end
