(* ===== verification/RunnerMain.thy ===== *)
theory RunnerMain
  imports Runner MessageJson SyncProducer ConsumerGroup
begin

text \<open>
  The program \<open>main\<close> of \<open>challenges/runner/main.go\<close>, which drives the in-memory broker, the
  consumer group, retry with dead letters and the synchronous producer, and counts its checks.

  The handlers that \<open>main\<close> subscribes are the constructors of \<open>runner_handler\<close>; the variables
  they share with \<open>main\<close> are fields of the state. The goroutines that \<open>Publish\<close> spawns run while
  \<open>main\<close> polls or sleeps. What the program cannot control is its \<open>environment\<close>: the file, the
  clock and the UUIDs, which pending goroutines run in which order in each round of waiting, how
  many rounds a sleep and how many sleeps a polling loop lasts, the order in which maps are
  visited, and the timers of the retry loop. A line that is printed is kept as the check it
  reports, without its wording.
\<close>

section \<open>Fixtures\<close>

record fixturePayload =
  Locale :: string
  fTopic :: string
  fKey :: string
  fValue :: string
  fHeaders :: "(string \<rightharpoonup> string) option"

definition zero_payload :: fixturePayload where
  "zero_payload = \<lparr>Locale = '''', fTopic = '''', fKey = '''', fValue = '''', fHeaders = None\<rparr>"

datatype payload_field = PLocale | PTopic | PKey | PValue | PHeaders

definition payload_field_of :: "string \<Rightarrow> payload_field option" where
  "payload_field_of name =
     (let n = fold_name name
      in if n = ''LOCALE'' then Some PLocale else if n = ''TOPIC'' then Some PTopic else if n = ''KEY'' then Some PKey
         else if n = ''VALUE'' then Some PValue else if n = ''HEADERS'' then Some PHeaders else None)"

fun decode_payload ::
  "(string \<times> json) list \<Rightarrow> fixturePayload \<Rightarrow> fixturePayload \<times> json_error option" where
  "decode_payload [] p = (p, None)"
| "decode_payload ((k, v) # es) p =
     (case unquote k of
        None \<Rightarrow> (p, Some SyntaxError)
      | Some name \<Rightarrow>
          let (p1, e) =
            (case payload_field_of name of
               None \<Rightarrow> (p, None)
             | Some PLocale \<Rightarrow> (let (s, e) = decode_string v (Locale p) in (p\<lparr>Locale := s\<rparr>, e))
             | Some PTopic \<Rightarrow> (let (s, e) = decode_string v (fTopic p) in (p\<lparr>fTopic := s\<rparr>, e))
             | Some PKey \<Rightarrow> (let (s, e) = decode_string v (fKey p) in (p\<lparr>fKey := s\<rparr>, e))
             | Some PValue \<Rightarrow> (let (s, e) = decode_string v (fValue p) in (p\<lparr>fValue := s\<rparr>, e))
             | Some PHeaders \<Rightarrow> (let (h, e) = decode_map v (fHeaders p) in (p\<lparr>fHeaders := h\<rparr>, e)));
              (p2, e') = decode_payload es p1
          in (p2, first_error e e'))"

fun decode_inputs :: "json list \<Rightarrow> fixturePayload list \<Rightarrow> fixturePayload list \<times> json_error option" where
  "decode_inputs [] old = ([], None)"
| "decode_inputs (v # vs) old =
     (let p = (case old of [] \<Rightarrow> zero_payload | x # _ \<Rightarrow> x);
          (q, e) = (case v of
             JObject es \<Rightarrow> decode_payload es p
           | JNull \<Rightarrow> (p, None)
           | _ \<Rightarrow> (p, Some TypeMismatch));
          (qs, e') = decode_inputs vs (tl old)
      in (q # qs, first_error e e'))"

fun decode_fixtures :: "(string \<times> json) list \<Rightarrow> fixturePayload list \<Rightarrow> fixturePayload list \<times> json_error option" where
  "decode_fixtures [] ps = (ps, None)"
| "decode_fixtures ((k, v) # es) ps =
     (case unquote k of
        None \<Rightarrow> (ps, Some SyntaxError)
      | Some name \<Rightarrow>
          let (ps1, e) =
            (if fold_name name \<noteq> ''INPUTS'' then (ps, None)
             else case v of
                    JArray vs \<Rightarrow> decode_inputs vs ps
                  | JNull \<Rightarrow> ([], None)
                  | _ \<Rightarrow> (ps, Some TypeMismatch));
              (ps2, e') = decode_fixtures es ps1
          in (ps2, first_error e e'))"

definition fixtureFile :: "string \<Rightarrow> json_error + fixturePayload list" where
  "fixtureFile data =
     (case json_parse data of
        None \<Rightarrow> Inl SyntaxError
      | Some (JObject es) \<Rightarrow> (case decode_fixtures es [] of (ps, None) \<Rightarrow> Inr ps | (ps, Some e) \<Rightarrow> Inl e)
      | Some JNull \<Rightarrow> Inr []
      | Some _ \<Rightarrow> Inl TypeMismatch)"

section \<open>State\<close>

datatype runner_handler =
    OnPubsub nat | OnBatch | OnGroup string | OnDLQ | OnRetry | OnSync

datatype check =
    LifecycleConnect | LifecycleIsConnected | LifecycleHealthCheck | LifecycleType
  | PubsubSubscribe string | PubsubPublish string | PubsubCount string nat | PubsubValue string
  | PubsubKey string | PubsubTopic string | PubsubHeader string string | PubsubRoundTrip string
  | JsonMarshal string | JsonUnmarshal string | JsonValue string
  | BatchSubscribe | BatchPublish | BatchCount nat | BatchMultiset | BatchInOrder | BatchBestEffort
  | GroupID | GroupStart | GroupCount string | GroupNoCrossTalk | GroupStop
  | RetryDLQSubscribe | RetrySubscribe | RetryInvoked | RetryDLQDelivery | RetryDLQPayload
  | SyncSubscribe | SyncSendValue | SyncCount nat | SyncDecode | SyncText
  | Contract | Shutdown

type_synonym retry_world = "nat \<times> int64 list \<times> runner_handler im_world"

record runner =
  b :: "runner_handler im_world"
  totalPass :: int
  totalFail :: int
  printed :: "(bool \<times> check) list"
  pubReceived :: "nat \<Rightarrow> message list"
  batchReceived :: "string list"
  cgCounts :: "string \<rightharpoonup> int64"
  dlqReceived :: "message list"
  attempts :: nat
  delays :: "int64 list"
  dlq :: "retry_world DeadLetterHandler"
  spReceived :: "message list"
  waits :: nat
  crashed :: bool

record environment =
  env_file :: "string option"
  env_rt :: runtime
  env_schedule :: "nat \<Rightarrow> nat \<Rightarrow> nat list"
  env_sleep :: "nat \<Rightarrow> nat"
  env_polls :: "nat \<Rightarrow> nat"
  env_order :: "nat \<Rightarrow> string set \<Rightarrow> string list"
  env_pow :: "float64 \<Rightarrow> float64 \<Rightarrow> float64"
  env_conv :: "float64 \<Rightarrow> int64"
  env_wait :: "go_context \<Rightarrow> int64 \<Rightarrow> retry_world \<Rightarrow> go_error option \<times> retry_world"
  env_start :: time

definition new_runner :: "environment \<Rightarrow> runner" where
  "new_runner env =
     \<lparr>b = new_world (env_rt env), totalPass = 0, totalFail = 0, printed = [], pubReceived = (\<lambda>_. []),
      batchReceived = [], cgCounts = Map.empty, dlqReceived = [], attempts = 0, delays = [],
      dlq = NewDeadLetterHandler ''dlq-round-250'', spReceived = [], waits = 0, crashed = False\<rparr>"

definition pass :: "check \<Rightarrow> runner \<Rightarrow> runner" where
  "pass c st = st\<lparr>totalPass := totalPass st + 1, printed := printed st @ [(True, c)]\<rparr>"

definition fail :: "check \<Rightarrow> runner \<Rightarrow> runner" where
  "fail c st = st\<lparr>totalFail := totalFail st + 1, printed := printed st @ [(False, c)]\<rparr>"

definition runner_ctx :: "environment \<Rightarrow> go_context" where
  "runner_ctx env = WithTimeout (env_start env) context_Background (30 * 1000000000)"

section \<open>Handlers, goroutines and waiting\<close>

definition runner_policy :: RetryPolicy where
  "runner_policy = \<lparr>MaxRetries = 2, BackoffBase = 10 * 1000000, BackoffMax = 50 * 1000000, BackoffMultiplier = Fin 2\<rparr>"

definition failingHandler :: "retry_world handler" where
  "failingHandler ctx m = (\<lambda>(n, ds, w).
     (Some (ErrorString ''downstream failure injected by runner''), m, (Suc n, ds, w)))"

definition run_wrapped :: "environment \<Rightarrow> message \<Rightarrow> runner \<Rightarrow> runner" where
  "run_wrapped env m st =
     (case wrapped (env_pow env) (env_conv env) (env_wait env) (beside (im_publish (env_rt env))) NoopTranslator
         (time_Now (env_rt env) (ticks (b st))) failingHandler (Some runner_policy) (dlq st) (runner_ctx env) m
         (attempts st, delays st, b st) of
        Some (Inr (_, d, (n, ds, w))) \<Rightarrow> st\<lparr>dlq := d, attempts := n, delays := ds, b := w\<rparr>
      | _ \<Rightarrow> st\<lparr>crashed := True\<rparr>)"

fun run_handler :: "environment \<Rightarrow> runner_handler \<times> message \<Rightarrow> runner \<Rightarrow> runner" where
  "run_handler env (OnPubsub i, m) st = st\<lparr>pubReceived := (pubReceived st)(i := pubReceived st i @ [m])\<rparr>"
| "run_handler env (OnBatch, m) st =
     st\<lparr>batchReceived := batchReceived st @ [bytes_string (slice_bytes (Value m))]\<rparr>"
| "run_handler env (OnGroup t, m) st =
     (case cgCounts st t of
        None \<Rightarrow> st\<lparr>crashed := True\<rparr>
      | Some n \<Rightarrow> st\<lparr>cgCounts := (cgCounts st)(t \<mapsto> n + 1)\<rparr>)"
| "run_handler env (OnDLQ, m) st = st\<lparr>dlqReceived := dlqReceived st @ [m]\<rparr>"
| "run_handler env (OnRetry, m) st = run_wrapped env m st"
| "run_handler env (OnSync, m) st = st\<lparr>spReceived := spReceived st @ [m]\<rparr>"

text \<open>One round of waiting: the goroutines the scheduler picks run, in its order.\<close>

definition run_round :: "environment \<Rightarrow> runner \<Rightarrow> runner" where
  "run_round env st =
     (let gs = goroutines (b st); n = length gs;
          picked = remdups (filter (\<lambda>i. i < n) (env_schedule env (waits st) n));
          rest = filter (\<lambda>i. i \<notin> set picked) [0..<n]
      in fold (run_handler env) (map ((!) gs) picked)
           (st\<lparr>b := (b st)\<lparr>goroutines := map ((!) gs) rest\<rparr>, waits := Suc (waits st)\<rparr>))"

definition sleep :: "environment \<Rightarrow> runner \<Rightarrow> runner" where
  "sleep env st = (run_round env ^^ env_sleep env (waits st)) st"

primrec poll_loop :: "environment \<Rightarrow> nat \<Rightarrow> (runner \<Rightarrow> nat) \<Rightarrow> nat \<Rightarrow> runner \<Rightarrow> runner" where
  "poll_loop env needed len 0 st = st"
| "poll_loop env needed len (Suc k) st =
     (if needed \<le> len st then st else poll_loop env needed len k (sleep env st))"

definition poll :: "environment \<Rightarrow> nat \<Rightarrow> (runner \<Rightarrow> nat) \<Rightarrow> runner \<Rightarrow> runner" where
  "poll env needed len st = poll_loop env needed len (env_polls env (waits st)) st"

text \<open>A constructor of messages reads the UUID generator and the clock.\<close>

definition new_message :: "environment \<Rightarrow> (string \<Rightarrow> time \<Rightarrow> message) \<Rightarrow> runner \<Rightarrow> message \<times> runner" where
  "new_message env constructor st =
     (let n = ticks (b st)
      in (constructor (uuid_New (env_rt env) n) (time_Now (env_rt env) n),
          st\<lparr>b := (b st)\<lparr>ticks := Suc n\<rparr>\<rparr>))"

definition call_Subscribe :: "environment \<Rightarrow> string \<Rightarrow> runner_handler \<Rightarrow> runner \<Rightarrow> (go_error + nat) \<times> runner" where
  "call_Subscribe env topic h st =
     (let (r, w) = Subscribe (env_rt env) topic h (b st) in (r, st\<lparr>b := w\<rparr>))"

definition call_Publish :: "environment \<Rightarrow> string \<Rightarrow> message \<Rightarrow> runner \<Rightarrow> go_error option \<times> runner" where
  "call_Publish env topic m st =
     (let (e, w) = Publish (env_rt env) topic m (b st) in (e, st\<lparr>b := w\<rparr>))"

definition call_Unsubscribe :: "nat \<Rightarrow> runner \<Rightarrow> runner" where
  "call_Unsubscribe sub st = st\<lparr>b := snd (inMemorySub_Unsubscribe sub (b st))\<rparr>"

section \<open>Section 1: lifecycle\<close>

definition lifecycle :: "environment \<Rightarrow> runner \<Rightarrow> int + runner" where
  "lifecycle env st =
     (case Connect (b st) of
        (Some err, w) \<Rightarrow> Inl 1
      | (None, w) \<Rightarrow>
          let st1 = pass LifecycleConnect (st\<lparr>b := w\<rparr>);
              st2 = (if \<not> IsConnected (b st1) then fail LifecycleIsConnected st1 else pass LifecycleIsConnected st1);
              st3 = (if HealthCheck (b st2) \<noteq> None then fail LifecycleHealthCheck st2 else pass LifecycleHealthCheck st2)
          in Inr (if Type (b st3) \<noteq> BrokerTypeInMemory then fail LifecycleType st3 else pass LifecycleType st3))"

section \<open>Section 2: publish, subscribe and JSON\<close>

definition set_headers :: "(string \<rightharpoonup> string) \<Rightarrow> string list \<Rightarrow> message \<Rightarrow> message" where
  "set_headers h ks m = fold (\<lambda>k m. case h k of None \<Rightarrow> m | Some v \<Rightarrow> SetHeader k v m) ks m"

definition check_headers :: "string \<Rightarrow> (string \<rightharpoonup> string) \<Rightarrow> string list \<Rightarrow> message \<Rightarrow> runner \<Rightarrow> runner" where
  "check_headers loc h ks got st =
     fold (\<lambda>k st. case h k of
             None \<Rightarrow> st
           | Some v \<Rightarrow> if GetHeader got k \<noteq> v then fail (PubsubHeader loc k) st else st) ks st"

definition headers_of :: "fixturePayload \<Rightarrow> (string \<rightharpoonup> string)" where
  "headers_of p = (case fHeaders p of None \<Rightarrow> Map.empty | Some h \<Rightarrow> h)"

definition json_check :: "environment \<Rightarrow> fixturePayload \<Rightarrow> message \<Rightarrow> runner \<Rightarrow> runner" where
  "json_check env p got st =
     (case MarshalJSON (\<lambda>h. env_order env (waits st) (dom h)) got of
        Inl err \<Rightarrow> fail (JsonMarshal (Locale p)) st
      | Inr raw \<Rightarrow>
          (case UnmarshalJSON raw zero_message of
             (Some err, _) \<Rightarrow> fail (JsonUnmarshal (Locale p)) st
           | (None, roundTripped) \<Rightarrow>
               if bytes_string (slice_bytes (Value roundTripped)) \<noteq> fValue p then fail (JsonValue (Locale p)) st
               else pass (JsonValue (Locale p)) st))"

definition pubsub_check :: "environment \<Rightarrow> nat \<Rightarrow> fixturePayload \<Rightarrow> runner \<Rightarrow> runner" where
  "pubsub_check env i p st =
     (if length (pubReceived st i) \<noteq> 1 then fail (PubsubCount (Locale p) (length (pubReceived st i))) st
      else
        let got = pubReceived st i ! 0
        in if bytes_string (slice_bytes (Value got)) \<noteq> fValue p then fail (PubsubValue (Locale p)) st
           else if bytes_string (slice_bytes (Key got)) \<noteq> fKey p then fail (PubsubKey (Locale p)) st
           else if Topic got \<noteq> fTopic p then fail (PubsubTopic (Locale p)) st
           else
             let st1 = check_headers (Locale p) (headers_of p) (env_order env (waits st) (dom (headers_of p))) got st
             in json_check env p got (pass (PubsubRoundTrip (Locale p)) st1))"

definition pubsub_one :: "environment \<Rightarrow> nat \<Rightarrow> fixturePayload \<Rightarrow> runner \<Rightarrow> runner" where
  "pubsub_one env i p st =
     (case call_Subscribe env (fTopic p) (OnPubsub i) (st\<lparr>pubReceived := (pubReceived st)(i := [])\<rparr>) of
        (Inl err, st1) \<Rightarrow> fail (PubsubSubscribe (Locale p)) st1
      | (Inr sub, st1) \<Rightarrow>
          let (msg0, st2) = new_message env (\<lambda>uid now. NewMessageWithKey uid now (fTopic p)
                (Some (string_bytes (fKey p))) (Some (string_bytes (fValue p)))) st1;
              msg = set_headers (headers_of p) (env_order env (waits st2) (dom (headers_of p))) msg0
          in (case call_Publish env (fTopic p) msg st2 of
                (Some err, st3) \<Rightarrow> call_Unsubscribe sub (fail (PubsubPublish (Locale p)) st3)
              | (None, st3) \<Rightarrow>
                  call_Unsubscribe sub
                    (pubsub_check env i p (poll env 1 (\<lambda>st. length (pubReceived st i)) st3))))"

definition pubsub_each :: "environment \<Rightarrow> fixturePayload list \<Rightarrow> runner \<Rightarrow> runner" where
  "pubsub_each env inputs st = fold (\<lambda>(i, p). pubsub_one env i p) (enumerate 0 inputs) st"

section \<open>Section 3: batches\<close>

fun new_batch :: "environment \<Rightarrow> fixturePayload list \<Rightarrow> runner \<Rightarrow> message list \<times> runner" where
  "new_batch env [] st = ([], st)"
| "new_batch env (p # ps) st =
     (let (m, st1) = new_message env (\<lambda>uid now. NewMessage uid now ''batch-events'' (Some (string_bytes (fValue p)))) st;
          (ms, st2) = new_batch env ps st1
      in (m # ms, st2))"

definition batch_check :: "fixturePayload list \<Rightarrow> runner \<Rightarrow> runner" where
  "batch_check inputs st =
     (let expected = map fValue inputs; got = batchReceived st
      in if length got \<noteq> length expected then fail (BatchCount (length got)) st
         else if \<not> equalAsMultiset got expected then fail BatchMultiset st
         else if equalSlices got expected then pass BatchInOrder st
         else pass BatchBestEffort st)"

definition batches :: "environment \<Rightarrow> fixturePayload list \<Rightarrow> runner \<Rightarrow> runner" where
  "batches env inputs st =
     (case call_Subscribe env ''batch-events'' OnBatch st of
        (Inl err, st1) \<Rightarrow> fail BatchSubscribe st1
      | (Inr sub, st1) \<Rightarrow>
          let (batch, st2) = new_batch env inputs st1;
              (e, w) = PublishBatch (env_rt env) ''batch-events'' batch (b st2);
              st3 = st2\<lparr>b := w\<rparr>
          in call_Unsubscribe sub
               (case e of
                  Some err \<Rightarrow> fail BatchPublish st3
                | None \<Rightarrow> batch_check inputs (poll env (length inputs) (\<lambda>st. length (batchReceived st)) st3)))"

section \<open>Section 4: the consumer group\<close>

definition cg_topic :: "fixturePayload \<Rightarrow> string" where
  "cg_topic p = ''cg-'' @ Locale p"

fun add_topics :: "fixturePayload list \<Rightarrow> (runner_handler, nat) ConsumerGroup \<Rightarrow> runner \<Rightarrow>
    (runner_handler, nat) ConsumerGroup \<times> runner" where
  "add_topics [] cg st = (cg, st)"
| "add_topics (p # ps) cg st =
     add_topics ps (cg_Add (cg_topic p) (OnGroup (cg_topic p)) cg)
       (st\<lparr>cgCounts := (cgCounts st)(cg_topic p \<mapsto> 0)\<rparr>)"

fun publish_each :: "environment \<Rightarrow> fixturePayload list \<Rightarrow> runner \<Rightarrow> runner" where
  "publish_each env [] st = st"
| "publish_each env (p # ps) st =
     (let (m, st1) = new_message env (\<lambda>uid now. NewMessage uid now (cg_topic p) (Some (string_bytes (fValue p)))) st
      in publish_each env ps (snd (call_Publish env (cg_topic p) m st1)))"

definition count_check :: "string list \<Rightarrow> runner \<Rightarrow> bool \<times> runner" where
  "count_check ts st =
     fold (\<lambda>t (ok, st). if cgCounts st t \<noteq> Some 1 then (False, fail (GroupCount t) st) else (ok, st)) ts (True, st)"

definition group :: "environment \<Rightarrow> fixturePayload list \<Rightarrow> runner \<Rightarrow> runner" where
  "group env inputs st =
     (let cg0 = NewConsumerGroup '''' ''round-250-cg'';
          st1 = (if cg_ID cg0 = '''' then fail GroupID st else pass GroupID st);
          (cg, st2) = add_topics inputs cg0 st1;
          (e, cg', w) = Start (im_subscribe (env_rt env)) inMemorySub_Unsubscribe translatorProvider
            (env_order env (waits st2) (dom (cg_handlers cg))) (\<lambda>m. env_order env (waits st2) (dom m))
            (runner_ctx env) cg (b st2);
          st3 = st2\<lparr>b := w\<rparr>
      in case e of
           Some err \<Rightarrow> fail GroupStart st3
         | None \<Rightarrow>
             let st4 = sleep env (publish_each env inputs (pass GroupStart st3));
                 (allOk, st5) = count_check (env_order env (waits st4) (dom (cgCounts st4))) st4;
                 st6 = (if allOk then pass GroupNoCrossTalk st5 else st5);
                 (_, _, w') = Stop inMemorySub_Unsubscribe translatorProvider
                   (env_order env (waits st6) (dom (cg_subscriptions cg'))) cg' (b st6)
             in pass GroupStop (st6\<lparr>b := w'\<rparr>))"

section \<open>Section 5: retry with a dead-letter topic\<close>

definition retry_check :: "byte list \<Rightarrow> runner \<Rightarrow> runner" where
  "retry_check origBytes st =
     (let st1 = (if attempts st < 1 then fail RetryInvoked st else pass RetryInvoked st)
      in if length (dlqReceived st1) < 1 then fail RetryDLQDelivery st1
         else if \<not> list_ex (\<lambda>m. slice_bytes (Value m) = origBytes) (dlqReceived st1)
           then fail RetryDLQPayload st1
         else pass RetryDLQPayload st1)"

definition retry :: "environment \<Rightarrow> fixturePayload list \<Rightarrow> runner \<Rightarrow> runner" where
  "retry env inputs st =
     (case call_Subscribe env ''dlq-round-250'' OnDLQ st of
        (Inl err, st1) \<Rightarrow> fail RetryDLQSubscribe st1
      | (Inr dlqSub, st1) \<Rightarrow>
          (case call_Subscribe env ''retry-events'' OnRetry st1 of
             (Inl err, st2) \<Rightarrow> call_Unsubscribe dlqSub (fail RetrySubscribe st2)
           | (Inr retrySub, st2) \<Rightarrow>
               let origBytes = string_bytes (fValue (last inputs));
                   (m, st3) = new_message env (\<lambda>uid now. NewMessage uid now ''retry-events'' (Some origBytes)) st2;
                   (_, st4) = call_Publish env ''retry-events'' m st3
               in call_Unsubscribe dlqSub (call_Unsubscribe retrySub (retry_check origBytes (sleep env st4)))))"

section \<open>Section 6: the synchronous producer\<close>

definition json_error_value :: "json_error \<Rightarrow> go_error" where
  "json_error_value e = ErrorString ''json''"

text \<open>\<open>encoding/json\<close> at the type \<open>map[string]string\<close>; a nil map is \<^const>\<open>None\<close>.\<close>

definition json_strings :: "(string set \<Rightarrow> string list) \<Rightarrow> (string \<rightharpoonup> string) option json_pkg" where
  "json_strings ord =
     \<lparr>json_Marshal = (\<lambda>v. (Some (string_bytes (json_text
          (case v of None \<Rightarrow> JNull | Some h \<Rightarrow> map_json h (ord (dom h))))), None)),
      json_Unmarshal = (\<lambda>data v. case json_parse (bytes_string (slice_bytes data)) of
          None \<Rightarrow> (Some (json_error_value SyntaxError), v)
        | Some j \<Rightarrow> (let (v', e) = decode_map j v in (map_option json_error_value e, v')))\<rparr>"

definition greeting :: string where
  "greeting = [CHR 0xD0, CHR 0x97, CHR 0xD0, CHR 0xB4, CHR 0xD1, CHR 0x80, CHR 0xD0, CHR 0xB0, CHR 0xD0, CHR 0xB2,
     CHR 0xD0, CHR 0xBE, CHR '','', CHR '' '', CHR 0xD1, CHR 0x81, CHR 0xD0, CHR 0xB2, CHR 0xD0, CHR 0xB5,
     CHR 0xD1, CHR 0x82, CHR 0xD0, CHR 0xB5]"

definition sync_payload :: "string \<rightharpoonup> string" where
  "sync_payload = [''action'' \<mapsto> ''round-250'', ''locale'' \<mapsto> ''sr-Cyrl'', ''text'' \<mapsto> greeting]"

definition sync_check :: "environment \<Rightarrow> runner \<Rightarrow> runner" where
  "sync_check env st =
     (let gotN = length (spReceived st);
          gotBytes = (if gotN > 0 then Value (spReceived st ! 0) else None)
      in if gotN \<noteq> 1 then fail (SyncCount gotN) st
         else (case json_Unmarshal (json_strings (env_order env (waits st))) gotBytes None of
                 (Some err, _) \<Rightarrow> fail SyncDecode st
               | (None, dec) \<Rightarrow>
                   if (case dec of None \<Rightarrow> '''' | Some h \<Rightarrow> (case h ''text'' of None \<Rightarrow> '''' | Some s \<Rightarrow> s)) \<noteq> greeting
                   then fail SyncText st else pass SyncText st))"

definition sync_producer :: "environment \<Rightarrow> runner \<Rightarrow> runner" where
  "sync_producer env st =
     (case call_Subscribe env ''sync-producer-events'' OnSync st of
        (Inl err, st1) \<Rightarrow> fail SyncSubscribe st1
      | (Inr sub, st1) \<Rightarrow>
          let json = json_strings (env_order env (waits st1));
              sp = sp_SetSerializer (Some (JSONSerializer json)) (NewSyncProducer 0);
              n = ticks (b st1); rt = env_rt env;
              (e, _, w) = SendValue (im_publish rt) NoopTranslator json (uuid_New rt n) (time_Now rt n)
                (time_Now rt (Suc n)) (runner_ctx env) ''sync-producer-events'' (Some sync_payload) sp
                ((b st1)\<lparr>ticks := n + 2\<rparr>);
              st2 = st1\<lparr>b := w\<rparr>
          in call_Unsubscribe sub
               (case e of
                  Some err \<Rightarrow> fail SyncSendValue st2
                | None \<Rightarrow> sync_check env (poll env 1 (\<lambda>st. length (spReceived st)) st2)))"

section \<open>The program\<close>

definition shutdown :: "runner \<Rightarrow> runner" where
  "shutdown st =
     (case Close (b st) of
        Inl p \<Rightarrow> st\<lparr>crashed := True\<rparr>
      | Inr (Some err, w) \<Rightarrow> fail Shutdown (st\<lparr>b := w\<rparr>)
      | Inr (None, w) \<Rightarrow> pass Shutdown (st\<lparr>b := w\<rparr>))"

definition sections :: "environment \<Rightarrow> fixturePayload list \<Rightarrow> runner \<Rightarrow> runner" where
  "sections env inputs st =
     shutdown (pass Contract (sync_producer env (retry env inputs (group env inputs
       (batches env inputs (pubsub_each env inputs st))))))"

text \<open>The exit code, and the state at the exit if the fixtures were read. A panic exits with 2.\<close>

definition main :: "environment \<Rightarrow> int \<times> runner option" where
  "main env =
     (case env_file env of
        None \<Rightarrow> (2, None)
      | Some data \<Rightarrow>
          (case fixtureFile data of
             Inl err \<Rightarrow> (2, None)
           | Inr inputs \<Rightarrow>
               if length inputs < 3 then (2, None)
               else (case lifecycle env (new_runner env) of
                       Inl status \<Rightarrow> (status, None)
                     | Inr st0 \<Rightarrow>
                         let st = sections env inputs st0
                         in (if crashed st then 2 else if totalFail st > 0 then 1 else 0, Some st))))"

end
