(* ===== verification/RunnerCorrect.thy ===== *)
theory RunnerCorrect
  imports RunnerMain
begin

text \<open>
  Correctness of the challenge runner: in an environment that lets its goroutines run, every check
  of \<open>main\<close> passes. \<open>steady\<close> is the state between two steps of a section, with the number of checks
  that have passed; \<open>quiet\<close> is the state between two sections, with no subscription and no goroutine
  left. Each step of a section has a lemma that keeps \<open>steady\<close>, each section one that leads from
  \<open>quiet\<close> to \<open>quiet\<close>.
\<close>

section \<open>Waiting\<close>

text \<open>
  A prompt environment: every round of waiting runs all the goroutines that are pending, a sleep
  lasts two rounds and a polling loop one sleep at least. UUIDs differ, the clock shows a year of
  four digits, a map is visited once per key, and the timers of the retry loop fire.
\<close>

definition prompt :: "environment \<Rightarrow> bool" where
  "prompt env \<longleftrightarrow> (\<forall>t n. {..<n} \<subseteq> set (env_schedule env t n)) \<and> (\<forall>t. 2 \<le> env_sleep env t) \<and> (\<forall>t. 1 \<le> env_polls env t)"

definition sane :: "environment \<Rightarrow> bool" where
  "sane env \<longleftrightarrow> unique_uuids (env_rt env) \<and>
     (\<forall>n. 0 \<le> year_of (time_Now (env_rt env) n) \<and> year_of (time_Now (env_rt env) n) \<le> 9999) \<and>
     (\<forall>t D. finite D \<longrightarrow> distinct (env_order env t D) \<and> set (env_order env t D) = D) \<and> env_wait env = recorded"

lemma run_round_prompt:
  assumes "prompt env"
  obtains gs where "mset gs = mset (goroutines (b st))"
    "run_round env st = fold (run_handler env) gs (st\<lparr>b := (b st)\<lparr>goroutines := []\<rparr>, waits := Suc (waits st)\<rparr>)"
proof -
  let ?gs = "goroutines (b st)"
  let ?p = "remdups (filter (\<lambda>i. i < length ?gs) (env_schedule env (waits st) (length ?gs)))"
  from assms have s: "set ?p = {..<length ?gs}" by (auto simp: prompt_def)
  then have "mset ?p = mset [0..<length ?gs]"
    by (intro set_eq_iff_mset_eq_distinct [THEN iffD1]) (auto simp: lessThan_atLeast0)
  then have "mset (map ((!) ?gs) ?p) = mset (map ((!) ?gs) [0..<length ?gs])" by (simp only: mset_map)
  then have "mset (map ((!) ?gs) ?p) = mset ?gs" by (simp only: map_nth)
  moreover have "filter (\<lambda>i. i \<notin> set ?p) [0..<length ?gs] = []" unfolding s by (simp add: filter_empty_conv)
  ultimately show ?thesis using that unfolding run_round_def Let_def by (metis list.map(1))
qed

lemma run_round_one:
  assumes "prompt env" and "goroutines (b st) = [(h, m)]"
  shows "run_round env st = run_handler env (h, m) (st\<lparr>b := (b st)\<lparr>goroutines := []\<rparr>, waits := Suc (waits st)\<rparr>)"
  using run_round_prompt [OF assms(1), of st] assms(2) by (metis fold_simps mset_single_iff_right mset.simps)

lemma rounds_idle:
  "goroutines (b st) = [] \<Longrightarrow> (run_round env ^^ k) st = st\<lparr>waits := waits st + k\<rparr>"
proof (induction k)
  case (Suc k)
  then have "(b st)\<lparr>goroutines := []\<rparr> = b st" by simp
  with Suc show ?case by (simp add: run_round_def)
qed simp

text \<open>The handlers that only record what they receive leave the broker alone.\<close>

definition records :: "runner_handler \<Rightarrow> bool" where
  "records h \<longleftrightarrow> h \<noteq> OnRetry"

lemma run_handler_records:
  assumes "records (fst g)"
  shows "b (run_handler env g st) = b st" and "waits (run_handler env g st) = waits st"
    and "run_handler env g (st\<lparr>waits := k\<rparr>) = (run_handler env g st)\<lparr>waits := k\<rparr>"
  using assms by (cases g; cases "fst g"; auto simp: records_def split: option.splits)+

lemma fold_run_handler_records:
  assumes "\<forall>g \<in> set gs. records (fst g)"
  shows "b (fold (run_handler env) gs st) = b st \<and>
    fold (run_handler env) gs (st\<lparr>waits := k\<rparr>) = (fold (run_handler env) gs st)\<lparr>waits := k\<rparr>"
  using assms by (induction gs arbitrary: st) (simp_all add: run_handler_records)

lemma sleep_records:
  assumes "prompt env" and "\<forall>g \<in> set (goroutines (b st)). records (fst g)"
  obtains gs k where "mset gs = mset (goroutines (b st))"
    "sleep env st = (fold (run_handler env) gs (st\<lparr>b := (b st)\<lparr>goroutines := []\<rparr>\<rparr>))\<lparr>waits := k\<rparr>"
proof -
  obtain gs where gs: "mset gs = mset (goroutines (b st))"
    and r: "run_round env st = fold (run_handler env) gs (st\<lparr>b := (b st)\<lparr>goroutines := []\<rparr>, waits := Suc (waits st)\<rparr>)"
    using run_round_prompt [OF assms(1)] .
  have rec: "\<forall>g \<in> set gs. records (fst g)" using assms(2) gs by (metis set_mset_mset)
  let ?st = "st\<lparr>b := (b st)\<lparr>goroutines := []\<rparr>\<rparr>"
  from r have r': "run_round env st = (fold (run_handler env) gs ?st)\<lparr>waits := Suc (waits st)\<rparr>"
    using fold_run_handler_records [OF rec, of env ?st] by simp
  then have idle: "goroutines (b (run_round env st)) = []"
    using fold_run_handler_records [OF rec, of env ?st] by simp
  from assms(1) obtain k where "env_sleep env (waits st) = Suc k"
    unfolding prompt_def by (metis Suc_le_D numeral_2_eq_2)
  then have "sleep env st = (run_round env ^^ k) (run_round env st)"
    by (simp add: sleep_def funpow_Suc_right del: funpow.simps)
  with rounds_idle [OF idle] r' have "sleep env st = (fold (run_handler env) gs ?st)\<lparr>waits := Suc (waits st) + k\<rparr>"
    by simp
  with gs show ?thesis by (rule that)
qed

lemma sleep_one:
  assumes "prompt env" and "goroutines (b st) = [(h, m)]" and "records h"
  obtains k where "sleep env st = (run_handler env (h, m) (st\<lparr>b := (b st)\<lparr>goroutines := []\<rparr>\<rparr>))\<lparr>waits := k\<rparr>"
proof -
  from assms(2,3) have "\<forall>g \<in> set (goroutines (b st)). records (fst g)" by simp
  then obtain gs k where "mset gs = mset (goroutines (b st))"
    "sleep env st = (fold (run_handler env) gs (st\<lparr>b := (b st)\<lparr>goroutines := []\<rparr>\<rparr>))\<lparr>waits := k\<rparr>"
    using sleep_records [OF assms(1)] by blast
  with assms(2) show ?thesis using that [of k] by simp
qed

lemma poll_once:
  assumes "prompt env" and "len st < needed" and "sleep env st = st'" and "needed \<le> len st'"
  shows "poll env needed len st = st'"
proof -
  from assms(1) obtain k where "env_polls env (waits st) = Suc k"
    unfolding prompt_def by (metis Suc_le_D One_nat_def)
  then show ?thesis using assms(2-) by (cases k) (simp_all add: poll_def)
qed

section \<open>The steps of a section\<close>

definition steady :: "environment \<Rightarrow> int \<Rightarrow> runner \<Rightarrow> bool" where
  "steady env n st \<longleftrightarrow> im_ok (env_rt env) (b st) \<and> connected (im (b st)) \<and> stopCh (im (b st)) = ChanOpen \<and>
     \<not> crashed st \<and> totalFail st = 0 \<and> totalPass st = n"

definition quiet :: "environment \<Rightarrow> int \<Rightarrow> runner \<Rightarrow> bool" where
  "quiet env n st \<longleftrightarrow> steady env n st \<and> active_subs (b st) = {} \<and> goroutines (b st) = []"

lemma steady_simps [simp]:
  "steady env n (st\<lparr>waits := k\<rparr>) = steady env n st" "steady env n (st\<lparr>pubReceived := f\<rparr>) = steady env n st"
  "steady env n (st\<lparr>batchReceived := ss\<rparr>) = steady env n st" "steady env n (st\<lparr>cgCounts := c\<rparr>) = steady env n st"
  "steady env n (st\<lparr>dlqReceived := ms\<rparr>) = steady env n st" "steady env n (st\<lparr>spReceived := ms\<rparr>) = steady env n st"
  "steady env n (st\<lparr>attempts := i\<rparr>) = steady env n st" "steady env n (st\<lparr>delays := ds\<rparr>) = steady env n st"
  "steady env n (st\<lparr>dlq := d\<rparr>) = steady env n st"
  "steady env n (st\<lparr>b := w\<lparr>goroutines := gs\<rparr>\<rparr>) = steady env n (st\<lparr>b := w\<rparr>)"
  by (simp_all add: steady_def)

lemma steady_pass: "steady env n st \<Longrightarrow> steady env (n + 1) (pass c st)"
  by (simp add: steady_def pass_def)

lemma pass_simps [simp]:
  "b (pass c st) = b st" "pubReceived (pass c st) = pubReceived st" "batchReceived (pass c st) = batchReceived st"
  "cgCounts (pass c st) = cgCounts st" "dlqReceived (pass c st) = dlqReceived st" "attempts (pass c st) = attempts st"
  "delays (pass c st) = delays st" "dlq (pass c st) = dlq st" "spReceived (pass c st) = spReceived st"
  "waits (pass c st) = waits st"
  by (simp_all add: pass_def)

lemma quiet_pass: "quiet env n st \<Longrightarrow> quiet env (n + 1) (pass c st)"
  by (simp add: quiet_def steady_pass)

lemma subscribe_steady:
  assumes "steady env n st"
  obtains a w where "call_Subscribe env t h st = (Inr a, st\<lparr>b := w\<rparr>)" "steady env n (st\<lparr>b := w\<rparr>)"
    "a \<notin> fst ` active_subs (b st)" "active_subs w = insert (a, t, h) (active_subs (b st))"
    "goroutines w = goroutines (b st)"
proof -
  let ?rt = "env_rt env"
  from assms have ok: "im_ok ?rt (b st)" "connected (im (b st))" by (simp_all add: steady_def)
  obtain w where w: "Subscribe ?rt t h (b st) = (Inr (length (sub_heap (b st))), w)"
    using Subscribe_connected [OF ok(2)] by blast
  then have s: "im_subscribe ?rt undefined t h (b st) = (Inr (length (sub_heap (b st))), w)"
    by (simp add: im_subscribe_def)
  note imsub.subscribe_ok [OF ok(1) s] imsub.subscribe_inv [OF ok(1), of undefined t h]
  moreover have "connected (im w)" "stopCh (im w) = stopCh (im (b st))" "goroutines w = goroutines (b st)"
    using w ok(2) by (auto simp: Subscribe_connected)
  ultimately show ?thesis
    using that [of "length (sub_heap (b st))" w] w s assms by (simp add: call_Subscribe_def steady_def)
qed

lemma new_message_steady:
  assumes "steady env n st"
  obtains uid now w where "new_message env c st = (c uid now, st\<lparr>b := w\<rparr>)" "steady env n (st\<lparr>b := w\<rparr>)"
    "active_subs w = active_subs (b st)" "goroutines w = goroutines (b st)"
proof (rule that)
  let ?k = "ticks (b st)" and ?rt = "env_rt env"
  let ?w = "(b st)\<lparr>ticks := Suc ?k\<rparr>"
  show "new_message env c st = (c (uuid_New ?rt ?k) (time_Now ?rt ?k), st\<lparr>b := ?w\<rparr>)"
    by (simp add: new_message_def Let_def)
  show "steady env n (st\<lparr>b := ?w\<rparr>)"
    using assms im_ok_ticks [of ?rt "b st" "Suc ?k"] by (simp add: steady_def)
qed simp_all

lemma publish_steady:
  assumes "steady env n st" and "sole (b st) t h"
  obtains k w where "call_Publish env t m st = (None, st\<lparr>b := w\<rparr>)" "steady env n (st\<lparr>b := w\<rparr>)"
    "active_subs w = active_subs (b st)"
    "goroutines w = goroutines (b st) @ [(h, a_stamp t (time_Now (env_rt env) k) m)]"
proof -
  obtain e w where w: "Publish (env_rt env) t m (b st) = (e, w)" by fastforce
  from assms(1) have ok: "im_ok (env_rt env) (b st)" "connected (im (b st))" by (simp_all add: steady_def)
  note p = publish_sole [OF ok assms(2) w]
  with w assms(1) show ?thesis using that [of w] by (simp add: call_Publish_def steady_def)
qed

lemma unsubscribe_steady:
  assumes "steady env n st"
  obtains w where "call_Unsubscribe a st = st\<lparr>b := w\<rparr>" "steady env n (st\<lparr>b := w\<rparr>)"
    "active_subs w = {x \<in> active_subs (b st). fst x \<noteq> a}" "goroutines w = goroutines (b st)"
proof -
  obtain e w where w: "inMemorySub_Unsubscribe a (b st) = (e, w)" by fastforce
  from assms(1) have ok: "im_ok (env_rt env) (b st)" by (simp add: steady_def)
  note active_subs_cancel [OF ok, of a] imsub.cancel_inv [OF ok, of a]
  moreover have "connected (im w) = connected (im (b st))" "stopCh (im w) = stopCh (im (b st))"
    "goroutines w = goroutines (b st)"
    using w by (auto simp: inMemorySub_Unsubscribe_def Let_def split: option.splits if_splits)
  ultimately show ?thesis using assms w that [of w] by (simp add: call_Unsubscribe_def steady_def)
qed

lemma unsubscribe_quiet:
  assumes "steady env n st" and "active_subs (b st) = {(a, t, h)}" and "goroutines (b st) = []"
  shows "\<exists>w. call_Unsubscribe a st = st\<lparr>b := w\<rparr> \<and> quiet env n (st\<lparr>b := w\<rparr>)"
proof -
  obtain w where "call_Unsubscribe a st = st\<lparr>b := w\<rparr>" "steady env n (st\<lparr>b := w\<rparr>)"
    "active_subs w = {x \<in> active_subs (b st). fst x \<noteq> a}" "goroutines w = goroutines (b st)"
    using unsubscribe_steady [OF assms(1)] .
  with assms(2,3) show ?thesis by (intro exI [of _ w]) (auto simp: quiet_def)
qed

lemma pass_and_unsubscribe:
  assumes "steady env n st" and "active_subs (b st) = {(a, t, h)}" and "goroutines (b st) = []"
  shows "\<exists>w. call_Unsubscribe a (pass c st) = (pass c st)\<lparr>b := w\<rparr> \<and> quiet env (n + 1) ((pass c st)\<lparr>b := w\<rparr>)"
  using unsubscribe_quiet [OF steady_pass [OF assms(1)]] assms(2,3) by simp

lemma subscribe_quiet:
  assumes "quiet env n st"
  obtains a w where "call_Subscribe env t h st = (Inr a, st\<lparr>b := w\<rparr>)" "steady env n (st\<lparr>b := w\<rparr>)"
    "active_subs w = {(a, t, h)}" "goroutines w = []"
proof -
  from assms have q: "steady env n st" "active_subs (b st) = {}" "goroutines (b st) = []" by (simp_all add: quiet_def)
  show ?thesis using subscribe_steady [OF q(1), of t h] that unfolding q(2,3) by metis
qed

lemma sole_single: "active_subs w = {(a, t, h)} \<Longrightarrow> sole w t h"
  by (auto simp: sole_def)

text \<open>A message published to the only subscriber of its topic is recorded by one sleep.\<close>

lemma deliver_one:
  assumes "prompt env" and "steady env n st" and "active_subs (b st) = {(a, t, h)}" and "goroutines (b st) = []"
    and "records h"
  obtains k j w where "call_Publish env t m st = (None, st\<lparr>b := w\<rparr>)"
    "steady env n (st\<lparr>b := w\<lparr>goroutines := []\<rparr>\<rparr>)" "active_subs (w\<lparr>goroutines := []\<rparr>) = {(a, t, h)}"
    "sleep env (st\<lparr>b := w\<rparr>) =
       (run_handler env (h, a_stamp t (time_Now (env_rt env) k) m) (st\<lparr>b := w\<lparr>goroutines := []\<rparr>\<rparr>))\<lparr>waits := j\<rparr>"
proof -
  obtain k w where p: "call_Publish env t m st = (None, st\<lparr>b := w\<rparr>)" "steady env n (st\<lparr>b := w\<rparr>)"
    "active_subs w = active_subs (b st)" "goroutines w = goroutines (b st) @ [(h, a_stamp t (time_Now (env_rt env) k) m)]"
    using publish_steady [OF assms(2) sole_single [OF assms(3)]] .
  with assms(4) have g: "goroutines (b (st\<lparr>b := w\<rparr>)) = [(h, a_stamp t (time_Now (env_rt env) k) m)]" by simp
  from sleep_one [OF assms(1) g assms(5)] p assms(3) show ?thesis using that [of w _ k] by auto
qed

section \<open>The sections\<close>

lemma lifecycle_passes:
  assumes "unique_uuids (env_rt env)"
  shows "\<exists>st. lifecycle env (new_runner env) = Inr st \<and> quiet env 4 st \<and> batchReceived st = [] \<and> cgCounts st = Map.empty \<and>
    dlqReceived st = [] \<and> attempts st = 0 \<and> delays st = [] \<and> dlq st = NewDeadLetterHandler ''dlq-round-250'' \<and>
    spReceived st = []"
proof -
  let ?w = "snd (Connect (new_world (env_rt env))) :: runner_handler im_world"
  have "im_ok (env_rt env) ?w" using assms by (simp add: im_ok_def im_inv_Connect im_inv_new)
  moreover have "active_subs ?w = {}" "connected (im ?w)" "stopCh (im ?w) = ChanOpen" "goroutines ?w = []"
    by (simp_all add: active_subs_def sub_at_def Connect_def new_world_def NewInMemoryBroker_def)
  ultimately show ?thesis
    by (simp add: lifecycle_def new_runner_def Connect_def IsConnected_def HealthCheck_def Type_def pass_def
        quiet_def steady_def Let_def)
qed

lemma set_headers_simps [simp]:
  "Value (set_headers h ks m) = Value m" "Key (set_headers h ks m) = Key m"
  by (induction ks arbitrary: m) (auto simp: set_headers_def split: option.splits)

lemma GetHeader_set_headers:
  "h k = Some v \<Longrightarrow> k \<in> set ks \<or> GetHeader m k = v \<Longrightarrow> GetHeader (set_headers h ks m) k = v"
proof (induction ks arbitrary: m)
  case (Cons a ks)
  have "k \<in> set ks \<or> GetHeader (case h a of None \<Rightarrow> m | Some x \<Rightarrow> SetHeader a x m) k = v"
    using Cons.prems by (cases "a = k") (auto split: option.splits)
  with Cons.IH [OF Cons.prems(1)] show ?case by (simp add: set_headers_def)
qed (simp add: set_headers_def)

lemma check_headers_ok:
  "\<forall>k v. h k = Some v \<longrightarrow> GetHeader got k = v \<Longrightarrow> check_headers loc h ks got st = st"
  by (induction ks arbitrary: st) (auto simp: check_headers_def split: option.splits)

lemma json_check_passes:
  assumes "0 \<le> year_of (Timestamp got)" "year_of (Timestamp got) \<le> 9999"
    and "bytes_string (slice_bytes (Value got)) = fValue p"
  shows "json_check env p got st = pass (JsonValue (Locale p)) st"
proof -
  let ?ord = "\<lambda>h. env_order env (waits st) (dom h)"
  obtain data where "MarshalJSON ?ord got = Inr data" "UnmarshalJSON data zero_message = (None, decoded ?ord got)"
    using json_roundtrip_general [OF assms(1,2)] by blast
  then show ?thesis using assms(3) by (simp add: json_check_def decoded_def)
qed

lemma pubsub_check_passes:
  assumes "sane env" and "pubReceived st i = [a_stamp (fTopic p) (time_Now (env_rt env) k)
      (set_headers (headers_of p) ks (NewMessageWithKey uid now (fTopic p) (Some (string_bytes (fKey p))) (Some (string_bytes (fValue p)))))]"
    and "dom (headers_of p) \<subseteq> set ks"
  shows "pubsub_check env i p st = pass (JsonValue (Locale p)) (pass (PubsubRoundTrip (Locale p)) st)"
proof -
  let ?m = "NewMessageWithKey uid now (fTopic p) (Some (string_bytes (fKey p))) (Some (string_bytes (fValue p)))"
  let ?got = "a_stamp (fTopic p) (time_Now (env_rt env) k) (set_headers (headers_of p) ks ?m)"
  have "\<forall>h v. headers_of p h = Some v \<longrightarrow> GetHeader ?got h = v"
    using assms(3) by (auto intro!: GetHeader_set_headers)
  moreover have "Value ?m = Some (string_bytes (fValue p))" "Key ?m = Some (string_bytes (fKey p))"
    by (simp_all add: NewMessageWithKey_def NewMessage_def)
  moreover from assms(1) have "0 \<le> year_of (Timestamp ?got)" "year_of (Timestamp ?got) \<le> 9999"
    by (simp_all add: sane_def)
  ultimately show ?thesis
    using assms(2) by (simp add: pubsub_check_def check_headers_ok json_check_passes)
qed

definition untouched :: "runner \<Rightarrow> runner \<Rightarrow> bool" where
  "untouched st st' \<longleftrightarrow> batchReceived st' = batchReceived st \<and> cgCounts st' = cgCounts st \<and>
     dlqReceived st' = dlqReceived st \<and> attempts st' = attempts st \<and> delays st' = delays st \<and> dlq st' = dlq st \<and>
     spReceived st' = spReceived st"

lemma pubsub_one_passes:
  assumes "prompt env" and "sane env" and "quiet env n st" and "finite (dom (headers_of p))"
  shows "quiet env (n + 2) (pubsub_one env i p st) \<and> untouched st (pubsub_one env i p st)"
proof -
  let ?st = "st\<lparr>pubReceived := (pubReceived st)(i := [])\<rparr>"
  from assms(3) have q: "quiet env n ?st" by (simp add: quiet_def)
  obtain a w1 where s1: "call_Subscribe env (fTopic p) (OnPubsub i) ?st = (Inr a, ?st\<lparr>b := w1\<rparr>)" "steady env n (?st\<lparr>b := w1\<rparr>)"
    "active_subs w1 = {(a, fTopic p, OnPubsub i)}" "goroutines w1 = []"
    using subscribe_quiet [OF q] .
  let ?c = "\<lambda>uid now. NewMessageWithKey uid now (fTopic p) (Some (string_bytes (fKey p))) (Some (string_bytes (fValue p)))"
  obtain uid now w2 where n2: "new_message env ?c (?st\<lparr>b := w1\<rparr>) = (?c uid now, ?st\<lparr>b := w1, b := w2\<rparr>)"
    "steady env n (?st\<lparr>b := w1, b := w2\<rparr>)" "active_subs w2 = active_subs (b (?st\<lparr>b := w1\<rparr>))"
    "goroutines w2 = goroutines (b (?st\<lparr>b := w1\<rparr>))"
    using new_message_steady [OF s1(2), of ?c] .
  then have s2: "new_message env ?c (?st\<lparr>b := w1\<rparr>) = (?c uid now, ?st\<lparr>b := w2\<rparr>)"
    "steady env n (?st\<lparr>b := w2\<rparr>)" "active_subs w2 = active_subs w1" "goroutines w2 = goroutines w1"
    by simp_all
  define ks where "ks = env_order env (waits (?st\<lparr>b := w2\<rparr>)) (dom (headers_of p))"
  have ks: "dom (headers_of p) \<subseteq> set ks" using assms(2,4) by (simp add: ks_def sane_def)
  define msg where "msg = set_headers (headers_of p) ks (?c uid now)"
  let ?st2 = "?st\<lparr>b := w2\<rparr>"
  have pre: "active_subs (b ?st2) = {(a, fTopic p, OnPubsub i)}" "goroutines (b ?st2) = []" "records (OnPubsub i)"
    using s1 s2 by (simp_all add: records_def)
  obtain k j w3 where s3: "call_Publish env (fTopic p) msg ?st2 = (None, ?st2\<lparr>b := w3\<rparr>)"
    "steady env n (?st2\<lparr>b := w3\<lparr>goroutines := []\<rparr>\<rparr>)" "active_subs (w3\<lparr>goroutines := []\<rparr>) = {(a, fTopic p, OnPubsub i)}"
    "sleep env (?st2\<lparr>b := w3\<rparr>) = (run_handler env (OnPubsub i, a_stamp (fTopic p) (time_Now (env_rt env) k) msg)
       (?st2\<lparr>b := w3\<lparr>goroutines := []\<rparr>\<rparr>))\<lparr>waits := j\<rparr>"
    using deliver_one [OF assms(1) s2(2) pre, of msg] .
  define st3 where "st3 = sleep env (?st2\<lparr>b := w3\<rparr>)"
  have r: "pubReceived st3 i = [a_stamp (fTopic p) (time_Now (env_rt env) k) msg]"
    and u3: "untouched st st3" and steady3: "steady env n st3"
    and b3: "active_subs (b st3) = {(a, fTopic p, OnPubsub i)}" "goroutines (b st3) = []"
    unfolding st3_def s3(4) using s3(2,3) by (simp_all add: untouched_def steady_def)
  have poll: "poll env 1 (\<lambda>st. length (pubReceived st i)) (?st2\<lparr>b := w3\<rparr>) = st3"
    by (rule poll_once [OF assms(1) _ st3_def [symmetric]]) (simp_all add: r)
  let ?st4 = "pass (JsonValue (Locale p)) (pass (PubsubRoundTrip (Locale p)) st3)"
  have c: "pubsub_check env i p st3 = ?st4"
    using pubsub_check_passes [OF assms(2) r [unfolded msg_def] ks] .
  have "steady env (n + 1) (pass (PubsubRoundTrip (Locale p)) st3)" using steady3 by (rule steady_pass)
  from pass_and_unsubscribe [OF this, of a "fTopic p" "OnPubsub i" "JsonValue (Locale p)"] b3 obtain w4 where
    u: "call_Unsubscribe a ?st4 = ?st4\<lparr>b := w4\<rparr>" "quiet env (n + 2) (?st4\<lparr>b := w4\<rparr>)" by (auto simp: add.assoc)
  have "pubsub_one env i p st = call_Unsubscribe a (pubsub_check env i p (poll env 1 (\<lambda>st. length (pubReceived st i)) (?st2\<lparr>b := w3\<rparr>)))"
    unfolding pubsub_one_def s1(1) using s3(1)
    by (simp only: sum.case prod.case s2(1) Let_def runner.simps ks_def [symmetric] msg_def [symmetric] option.case)
  then have "pubsub_one env i p st = ?st4\<lparr>b := w4\<rparr>" by (simp only: poll c u(1))
  with u(2) u3 show ?thesis by (simp add: untouched_def)
qed

lemma pubsub_passes:
  assumes "prompt env" and "sane env" and "quiet env n st" and "\<forall>p \<in> set inputs. finite (dom (headers_of p))"
  shows "quiet env (n + 2 * int (length inputs)) (pubsub_each env inputs st) \<and> untouched st (pubsub_each env inputs st)"
proof -
  have "quiet env (n + 2 * int (length inputs)) (fold (\<lambda>(i, p). pubsub_one env i p) (enumerate k inputs) st) \<and>
      untouched st (fold (\<lambda>(i, p). pubsub_one env i p) (enumerate k inputs) st)" for k
    using assms(3,4)
  proof (induction inputs arbitrary: k n st)
    case (Cons p ps)
    from Cons.prems pubsub_one_passes [OF assms(1,2) Cons.prems(1), of p k]
    have "quiet env (n + 2) (pubsub_one env k p st)" "untouched st (pubsub_one env k p st)" by simp_all
    with Cons.IH [OF this(1), of "Suc k"] Cons.prems(2) show ?case by (simp add: untouched_def algebra_simps)
  qed (simp add: untouched_def)
  then show ?thesis by (simp add: pubsub_each_def)
qed

lemma PublishBatch_sole:
  assumes "im_ok rt w" and "connected (im w)" and "sole w t h" and "PublishBatch rt t ms w = (e, w')"
  shows "e = None \<and> im_ok rt w' \<and> connected (im w') \<and> active_subs w' = active_subs w \<and> stopCh (im w') = stopCh (im w) \<and>
    (\<exists>cs. goroutines w' = goroutines w @ map (Pair h) cs \<and>
       map (\<lambda>c. slice_bytes (Value c)) cs = map (\<lambda>m. slice_bytes (Value m)) ms)"
  using assms
proof (induction ms arbitrary: w)
  case (Cons m ms)
  obtain e1 w1 where p: "Publish rt t m w = (e1, w1)" by fastforce
  note s = publish_sole [OF Cons.prems(1-3) p]
  from Cons.prems(3) s(5) have "sole w1 t h" by (simp add: sole_def)
  moreover from Cons.prems(4) p s(1) have "PublishBatch rt t ms w1 = (e, w')" by simp
  ultimately obtain cs where IH: "e = None" "im_ok rt w'" "connected (im w')" "active_subs w' = active_subs w1"
    "stopCh (im w') = stopCh (im w1)" "goroutines w' = goroutines w1 @ map (Pair h) cs"
    "map (\<lambda>c. slice_bytes (Value c)) cs = map (\<lambda>m. slice_bytes (Value m)) ms"
    using Cons.IH [OF s(3,4)] by blast
  with s show ?case by (intro conjI exI [of _ "a_stamp t (time_Now rt (ticks w)) m # cs"]) simp_all
qed simp

lemma new_batch_steady:
  assumes "steady env n st"
  shows "\<exists>ms w. new_batch env ps st = (ms, st\<lparr>b := w\<rparr>) \<and> steady env n (st\<lparr>b := w\<rparr>) \<and> active_subs w = active_subs (b st) \<and>
    goroutines w = goroutines (b st) \<and> map (\<lambda>m. bytes_string (slice_bytes (Value m))) ms = map fValue ps"
  using assms
proof (induction ps arbitrary: st)
  case Nil
  then show ?case by (intro exI [of _ "[]"] exI [of _ "b st"]) simp
next
  case (Cons p ps)
  let ?c = "\<lambda>uid now. NewMessage uid now ''batch-events'' (Some (string_bytes (fValue p)))"
  obtain uid now w1 where n1: "new_message env ?c st = (?c uid now, st\<lparr>b := w1\<rparr>)" "steady env n (st\<lparr>b := w1\<rparr>)"
    "active_subs w1 = active_subs (b st)" "goroutines w1 = goroutines (b st)"
    using new_message_steady [OF Cons.prems, of ?c] .
  from Cons.IH [OF n1(2)] obtain ms w where "new_batch env ps (st\<lparr>b := w1\<rparr>) = (ms, st\<lparr>b := w\<rparr>)" "steady env n (st\<lparr>b := w\<rparr>)"
    "active_subs w = active_subs w1" "goroutines w = goroutines w1"
    "map (\<lambda>m. bytes_string (slice_bytes (Value m))) ms = map fValue ps" by auto
  with n1 show ?case by (intro exI [of _ "?c uid now # ms"] exI [of _ w]) (simp add: NewMessage_def)
qed

lemma run_batch_handlers:
  "\<forall>g \<in> set gs. fst g = OnBatch \<Longrightarrow> fold (run_handler env) gs st =
     st\<lparr>batchReceived := batchReceived st @ map (\<lambda>g. bytes_string (slice_bytes (Value (snd g)))) gs\<rparr>"
proof (induction gs arbitrary: st)
  case (Cons g gs)
  then obtain m where "g = (OnBatch, m)" by (cases g) auto
  with Cons show ?case by simp
qed simp

lemma batch_check_passes:
  assumes "mset (batchReceived st) = mset (map fValue inputs)"
  shows "\<exists>c. batch_check inputs st = pass c st"
proof -
  have "length (batchReceived st) = length inputs" using mset_eq_length [OF assms] by simp
  with assms show ?thesis by (auto simp: batch_check_def Let_def equalAsMultiset_iff simp del: mset_map)
qed

lemma batch_sleep:
  assumes "prompt env" and "goroutines (b st) = map (Pair OnBatch) cs" and "batchReceived st = []"
  obtains ss k where "sleep env st = st\<lparr>b := (b st)\<lparr>goroutines := []\<rparr>, waits := k, batchReceived := ss\<rparr>"
    "mset ss = mset (map (\<lambda>c. bytes_string (slice_bytes (Value c))) cs)"
proof -
  have "\<forall>g \<in> set (goroutines (b st)). records (fst g)" using assms(2) by (auto simp: records_def)
  then obtain gs k where gs: "mset gs = mset (goroutines (b st))"
    "sleep env st = (fold (run_handler env) gs (st\<lparr>b := (b st)\<lparr>goroutines := []\<rparr>\<rparr>))\<lparr>waits := k\<rparr>"
    using sleep_records [OF assms(1)] by blast
  let ?ss = "map (\<lambda>g. bytes_string (slice_bytes (Value (snd g)))) gs"
  have "set gs = Pair OnBatch ` set cs" using gs(1) assms(2) by (metis list.set_map set_mset_mset)
  then have "sleep env st = st\<lparr>b := (b st)\<lparr>goroutines := []\<rparr>, waits := k, batchReceived := ?ss\<rparr>"
    unfolding gs(2) using assms(3) by (subst run_batch_handlers) auto
  moreover have "mset ?ss = mset (map (\<lambda>c. bytes_string (slice_bytes (Value c))) cs)"
    using gs(1) assms(2) by (simp add: comp_def image_mset.compositionality)
  ultimately show ?thesis by (rule that)
qed

lemma batch_publish:
  assumes "steady env n st" and "active_subs (b st) = {(a, t, OnBatch)}" and "goroutines (b st) = []"
    and "PublishBatch (env_rt env) t ms (b st) = (e, w)"
  obtains cs where "e = None" "steady env n (st\<lparr>b := w\<rparr>)" "active_subs w = {(a, t, OnBatch)}"
    "goroutines w = map (Pair OnBatch) cs" "map (\<lambda>c. slice_bytes (Value c)) cs = map (\<lambda>m. slice_bytes (Value m)) ms"
proof -
  from assms(1) have "im_ok (env_rt env) (b st)" "connected (im (b st))" by (simp_all add: steady_def)
  from PublishBatch_sole [OF this sole_single [OF assms(2)] assms(4)] obtain cs where
    "e = None" "im_ok (env_rt env) w" "connected (im w)" "active_subs w = active_subs (b st)" "stopCh (im w) = stopCh (im (b st))"
    "goroutines w = goroutines (b st) @ map (Pair OnBatch) cs"
    "map (\<lambda>c. slice_bytes (Value c)) cs = map (\<lambda>m. slice_bytes (Value m)) ms" by blast
  with assms(1-3) show ?thesis by (intro that [of cs]) (simp_all add: steady_def)
qed

lemma batches_passes:
  assumes "prompt env" and "quiet env n st" and "inputs \<noteq> []" and "batchReceived st = []"
  shows "quiet env (n + 1) (batches env inputs st) \<and>
    untouched st ((batches env inputs st)\<lparr>batchReceived := []\<rparr>)"
proof -
  let ?t = "''batch-events''" and ?len = "\<lambda>st. length (batchReceived st)"
  obtain a w1 where s1: "call_Subscribe env ?t OnBatch st = (Inr a, st\<lparr>b := w1\<rparr>)" "steady env n (st\<lparr>b := w1\<rparr>)"
    "active_subs w1 = {(a, ?t, OnBatch)}" "goroutines w1 = []"
    using subscribe_quiet [OF assms(2)] .
  from new_batch_steady [OF s1(2), of inputs] s1(3,4) obtain ms w2 where
    s2: "new_batch env inputs (st\<lparr>b := w1\<rparr>) = (ms, st\<lparr>b := w2\<rparr>)" "steady env n (st\<lparr>b := w2\<rparr>)"
      "active_subs (b (st\<lparr>b := w2\<rparr>)) = {(a, ?t, OnBatch)}" "goroutines (b (st\<lparr>b := w2\<rparr>)) = []"
      "map (\<lambda>m. bytes_string (slice_bytes (Value m))) ms = map fValue inputs" by auto
  obtain e w3 where p: "PublishBatch (env_rt env) ?t ms (b (st\<lparr>b := w2\<rparr>)) = (e, w3)" by fastforce
  obtain cs where s3: "e = None" "steady env n (st\<lparr>b := w2, b := w3\<rparr>)" "active_subs w3 = {(a, ?t, OnBatch)}"
    "goroutines w3 = map (Pair OnBatch) cs" "map (\<lambda>c. slice_bytes (Value c)) cs = map (\<lambda>m. slice_bytes (Value m)) ms"
    using batch_publish [OF s2(2-4) p] .
  define st2 where "st2 = st\<lparr>b := w3\<rparr>"
  have st2: "b st2 = w3" "batchReceived st2 = []" "goroutines (b st2) = map (Pair OnBatch) cs" "steady env n st2" "untouched st st2"
    using s3 assms(4) by (simp_all add: st2_def untouched_def)
  obtain ss k where slept: "sleep env st2 = st2\<lparr>b := (b st2)\<lparr>goroutines := []\<rparr>, waits := k, batchReceived := ss\<rparr>"
    "mset ss = mset (map (\<lambda>c. bytes_string (slice_bytes (Value c))) cs)"
    using batch_sleep [OF assms(1) st2(3,2)] .
  define st3 where "st3 = sleep env st2"
  have "mset ss = mset (map bytes_string (map (\<lambda>c. slice_bytes (Value c)) cs))" using slept(2) by (simp add: comp_def)
  also have "\<dots> = mset (map fValue inputs)" unfolding s3(5) s2(5) [symmetric] by (simp add: comp_def)
  finally have got: "mset (batchReceived st3) = mset (map fValue inputs)" by (simp add: st3_def slept(1))
  then have "?len st3 = length inputs" using mset_eq_length by fastforce
  then have poll: "poll env (length inputs) ?len st2 = st3"
    using assms(3) st2(2) by (intro poll_once [OF assms(1) _ st3_def [symmetric]]) simp_all
  from batch_check_passes [OF got] obtain c where c: "batch_check inputs st3 = pass c st3" by blast
  have "steady env n st3" "active_subs (b st3) = {(a, ?t, OnBatch)}" "goroutines (b st3) = []"
    using st2(1,4) s3(3) by (simp_all add: st3_def slept(1) steady_def)
  from pass_and_unsubscribe [OF this] obtain w4 where u: "call_Unsubscribe a (pass c st3) = (pass c st3)\<lparr>b := w4\<rparr>"
    "quiet env (n + 1) ((pass c st3)\<lparr>b := w4\<rparr>)" by blast
  have "batches env inputs st = call_Unsubscribe a (batch_check inputs (poll env (length inputs) ?len st2))"
    unfolding batches_def s1(1) using p by (simp add: s2(1) s3(1) st2_def)
  then have "batches env inputs st = (pass c st3)\<lparr>b := w4\<rparr>" by (simp only: poll c u(1))
  with u(2) st2(2,5) assms(4) show ?thesis by (simp add: untouched_def st3_def slept(1))
qed

subsection \<open>The consumer group\<close>

lemma add_topics_eq:
  "add_topics ps cg st =
     (cg\<lparr>cg_handlers := \<lambda>t. if t \<in> cg_topic ` set ps then Some (OnGroup t) else cg_handlers cg t\<rparr>,
      st\<lparr>cgCounts := \<lambda>t. if t \<in> cg_topic ` set ps then Some 0 else cgCounts st t\<rparr>)"
proof (induction ps arbitrary: cg st)
  case (Cons p ps)
  show ?case unfolding add_topics.simps Cons.IH by (auto simp: cg_Add_def fun_eq_iff)
qed simp

lemma publish_each_steady:
  assumes "steady env n st" and "\<forall>p \<in> set ps. sole (b st) (cg_topic p) (OnGroup (cg_topic p))"
  shows "\<exists>w gs. publish_each env ps st = st\<lparr>b := w\<rparr> \<and> steady env n (st\<lparr>b := w\<rparr>) \<and> active_subs w = active_subs (b st) \<and>
    goroutines w = goroutines (b st) @ gs \<and> map fst gs = map (\<lambda>p. OnGroup (cg_topic p)) ps"
  using assms
proof (induction ps arbitrary: st)
  case Nil
  then show ?case by (intro exI [of _ "b st"] exI [of _ "[]"]) simp
next
  case (Cons p ps)
  let ?c = "\<lambda>uid now. NewMessage uid now (cg_topic p) (Some (string_bytes (fValue p)))"
  obtain uid now w1 where n1: "new_message env ?c st = (?c uid now, st\<lparr>b := w1\<rparr>)" "steady env n (st\<lparr>b := w1\<rparr>)"
    "active_subs w1 = active_subs (b st)" "goroutines w1 = goroutines (b st)"
    using new_message_steady [OF Cons.prems(1), of ?c] .
  let ?st = "st\<lparr>b := w1\<rparr>" and ?h = "OnGroup (cg_topic p)"
  have sole: "sole (b ?st) (cg_topic p) ?h" using Cons.prems(2) n1(3) by (simp add: sole_def)
  obtain k w2 where "call_Publish env (cg_topic p) (?c uid now) ?st = (None, ?st\<lparr>b := w2\<rparr>)" "steady env n (?st\<lparr>b := w2\<rparr>)"
      "active_subs w2 = active_subs (b ?st)"
      "goroutines w2 = goroutines (b ?st) @ [(?h, a_stamp (cg_topic p) (time_Now (env_rt env) k) (?c uid now))]"
    using publish_steady [OF n1(2) sole, of "?c uid now"] .
  with n1(3,4) have p: "call_Publish env (cg_topic p) (?c uid now) ?st = (None, st\<lparr>b := w2\<rparr>)" "steady env n (st\<lparr>b := w2\<rparr>)"
      "active_subs w2 = active_subs (b st)"
      "goroutines w2 = goroutines (b st) @ [(?h, a_stamp (cg_topic p) (time_Now (env_rt env) k) (?c uid now))]"
    by simp_all
  have "\<forall>p \<in> set ps. sole (b (st\<lparr>b := w2\<rparr>)) (cg_topic p) (OnGroup (cg_topic p))"
    using Cons.prems(2) p(3) by (simp add: sole_def)
  from Cons.IH [OF p(2) this] obtain w gs where
    "publish_each env ps (st\<lparr>b := w2\<rparr>) = st\<lparr>b := w\<rparr>" "steady env n (st\<lparr>b := w\<rparr>)" "active_subs w = active_subs (b st)"
    "goroutines w = goroutines w2 @ gs" "map fst gs = map (\<lambda>p. OnGroup (cg_topic p)) ps"
    using p(3) by auto
  with n1(1) p(1,4) show ?case by (intro exI [of _ w] exI) (auto simp: Let_def)
qed

lemma run_group_handlers:
  assumes "distinct (map fst gs)" and "\<forall>g \<in> set gs. \<exists>t. fst g = OnGroup t \<and> cgCounts st t = Some 0"
  shows "fold (run_handler env) gs st =
    st\<lparr>cgCounts := \<lambda>t. if OnGroup t \<in> fst ` set gs then Some 1 else cgCounts st t\<rparr>"
  using assms
proof (induction gs arbitrary: st)
  case (Cons g gs)
  then obtain t m where g: "g = (OnGroup t, m)" "cgCounts st t = Some 0" by (cases g) auto
  let ?st = "st\<lparr>cgCounts := (cgCounts st)(t \<mapsto> 1)\<rparr>"
  have "\<forall>g \<in> set gs. \<exists>t. fst g = OnGroup t \<and> cgCounts ?st t = Some 0"
    using Cons.prems g by (fastforce simp: image_iff)
  with Cons g have "fold (run_handler env) (g # gs) st =
      ?st\<lparr>cgCounts := \<lambda>t. if OnGroup t \<in> fst ` set gs then Some 1 else cgCounts ?st t\<rparr>" by simp
  also have "(\<lambda>t. if OnGroup t \<in> fst ` set gs then Some 1 else cgCounts ?st t) =
      (\<lambda>t. if OnGroup t \<in> fst ` set (g # gs) then Some 1 else cgCounts st t)"
    using g by (auto simp: fun_eq_iff)
  finally show ?case by simp
qed simp

lemma count_check_passes: "\<forall>t \<in> set ts. cgCounts st t = Some 1 \<Longrightarrow> count_check ts st = (True, st)"
  by (induction ts) (auto simp: count_check_def)

text \<open>Starting the group over a broker without subscriptions makes each handler the only one of its topic.\<close>

lemma group_start:
  assumes "steady env n st" and "active_subs (b st) = {}" and "\<not> cg_running cg" and "cg_subscriptions cg = Map.empty"
    and "iteration_of (cg_handlers cg) hord"
  obtains cg' w where
    "Start (im_subscribe (env_rt env)) inMemorySub_Unsubscribe tp hord ord ctx cg (b st) = (None, cg', w)"
    "steady env n (st\<lparr>b := w\<rparr>)" "goroutines w = goroutines (b st)" "cg_running cg'"
    "dom (cg_subscriptions cg') = dom (cg_handlers cg)" "fst ` active_subs w \<subseteq> ran (cg_subscriptions cg')"
    "\<forall>t h. cg_handlers cg t = Some h \<longrightarrow> sole w t h"
proof -
  let ?rt = "env_rt env"
  let ?start = "Start_locked (im_subscribe ?rt) inMemorySub_Unsubscribe tp hord ord ctx cg (b st)"
  from assms(1) have ok: "im_ok ?rt (b st)" "connected (im (b st))" by (simp_all add: steady_def)
  have "fst ?start = None" using im_start_loop_succeeds [OF ok(2)] by (simp add: Start_locked_def)
  then obtain cg' w where st: "?start = (None, cg', w)" by (metis fst_conv prod.exhaust)
  note r = imsub.start_success [OF ok(1) assms(4,5) st]
  have act: "(a, t, h) \<in> active_subs w \<longleftrightarrow> cg_subscriptions cg' t = Some a \<and> cg_handlers cg t = Some h" for a t h
    using r assms(2) by (simp add: imsub.added_def)
  have sole: "sole w t h" if h: "cg_handlers cg t = Some h" for t h
  proof -
    from r h obtain a where "cg_subscriptions cg' t = Some a" by blast
    with h act show ?thesis by (auto simp: sole_def)
  qed
  have "fst ` active_subs w \<subseteq> ran (cg_subscriptions cg')" using act by (fastforce simp: ran_def)
  moreover have "steady env n (st\<lparr>b := w\<rparr>)" "goroutines w = goroutines (b st)"
    using start_loop_frame [OF st [unfolded Start_locked_def]] r assms(1) by (simp_all add: steady_def)
  moreover have "Start (im_subscribe ?rt) inMemorySub_Unsubscribe tp hord ord ctx cg (b st) = (None, cg', w)"
    using st assms(3) by (simp add: Start_def Start_check_def)
  ultimately show ?thesis using that [of cg' w] r sole by blast
qed

lemma group_stop:
  assumes "steady env n st" and "goroutines (b st) = []" and "cg_running cg" and "fst ` active_subs (b st) \<subseteq> ran (cg_subscriptions cg)"
    and "iteration_of (cg_subscriptions cg) sord"
  obtains e cg' w where "Stop inMemorySub_Unsubscribe tp sord cg (b st) = (e, cg', w)" "quiet env n (st\<lparr>b := w\<rparr>)"
proof -
  obtain e cg' w where s: "Stop inMemorySub_Unsubscribe tp sord cg (b st) = (e, cg', w)" by (metis prod_cases3)
  from assms(1) have ok: "im_ok (env_rt env) (b st)" by (simp add: steady_def)
  from imsub.stop_removes [OF ok assms(3,5) s] assms(4) have w: "im_ok (env_rt env) w" "active_subs w = {}" by auto
  have "w = cancel_all inMemorySub_Unsubscribe (cg_subscriptions cg) sord (b st)"
    using s Stop_running [OF assms(3), of tp sord "b st"] imsub.stop_loop_world [OF ok] by simp
  with w assms(1,2) have "quiet env n (st\<lparr>b := w\<rparr>)" by (simp add: quiet_def steady_def cancel_all_frame)
  with s show ?thesis by (rule that)
qed

lemma env_order_iteration: "sane env \<Longrightarrow> finite (dom m) \<Longrightarrow> iteration_of m (env_order env k (dom m))"
  by (simp add: iteration_of_def sane_def)

text \<open>One message per topic, one sleep: every counter is one.\<close>

definition counts :: "int64 \<Rightarrow> fixturePayload list \<Rightarrow> string \<rightharpoonup> int64" where
  "counts n ps = (\<lambda>t. if t \<in> cg_topic ` set ps then Some n else None)"

lemma group_round:
  assumes "prompt env" and "steady env n st" and "goroutines (b st) = []" and "cgCounts st = counts 0 ps"
    and "distinct (map Locale ps)" and "\<forall>p \<in> set ps. sole (b st) (cg_topic p) (OnGroup (cg_topic p))"
  obtains w k where "sleep env (publish_each env ps st) = st\<lparr>b := w, waits := k, cgCounts := counts 1 ps\<rparr>"
    "steady env n (st\<lparr>b := w\<rparr>)" "active_subs w = active_subs (b st)" "goroutines w = []"
proof -
  let ?T = "cg_topic ` set ps" and ?hs = "map (\<lambda>p. OnGroup (cg_topic p)) ps"
  from publish_each_steady [OF assms(2,6)] assms(3) obtain w gs where
    pub: "publish_each env ps st = st\<lparr>b := w\<rparr>" "steady env n (st\<lparr>b := w\<rparr>)" "active_subs w = active_subs (b st)"
      "goroutines w = gs" "map fst gs = ?hs" by auto
  let ?st = "st\<lparr>b := w\<lparr>goroutines := []\<rparr>\<rparr>"
  have hs: "fst ` set gs = OnGroup ` ?T" using arg_cong [OF pub(5), of set] by (simp add: image_image)
  have "records (fst g)" if "g \<in> set gs" for g
    using imageI [OF that, of fst] unfolding hs by (auto simp: records_def)
  then have "\<forall>g \<in> set (goroutines (b (st\<lparr>b := w\<rparr>))). records (fst g)" using pub(4) by simp
  then obtain gs' k where slept: "mset gs' = mset gs" "sleep env (st\<lparr>b := w\<rparr>) = (fold (run_handler env) gs' ?st)\<lparr>waits := k\<rparr>"
    using sleep_records [OF assms(1), of "st\<lparr>b := w\<rparr>"] pub(4) by auto
  from slept(1) hs have hs': "fst ` set gs' = OnGroup ` ?T" by (metis set_mset_mset)
  have "mset (map fst gs') = mset ?hs" using slept(1) pub(5) by (metis mset_map)
  moreover have "distinct ?hs" using assms(5) by (auto simp: distinct_map inj_on_def cg_topic_def)
  ultimately have d: "distinct (map fst gs')" by (metis mset_eq_imp_distinct_iff)
  have zero: "\<forall>g \<in> set gs'. \<exists>t. fst g = OnGroup t \<and> cgCounts ?st t = Some 0"
  proof
    fix g assume "g \<in> set gs'"
    then have "fst g \<in> OnGroup ` ?T" using hs' by blast
    then show "\<exists>t. fst g = OnGroup t \<and> cgCounts ?st t = Some 0" by (auto simp: assms(4) counts_def)
  qed
  have "OnGroup t \<in> fst ` set gs' \<longleftrightarrow> t \<in> ?T" for t unfolding hs' by auto
  then have "sleep env (publish_each env ps st) = st\<lparr>b := w\<lparr>goroutines := []\<rparr>, waits := k, cgCounts := counts 1 ps\<rparr>"
    unfolding pub(1) slept(2) run_group_handlers [OF d zero] by (simp add: assms(4) counts_def cong: if_cong)
  with pub(2,3) show ?thesis using that [of k "w\<lparr>goroutines := []\<rparr>"] by simp
qed

lemma group_built:
  assumes "cgCounts st = Map.empty"
  obtains cg where "add_topics ps (NewConsumerGroup '''' ''round-250-cg'') st = (cg, st\<lparr>cgCounts := counts 0 ps\<rparr>)"
    "\<not> cg_running cg" "cg_subscriptions cg = Map.empty" "finite (dom (cg_handlers cg))"
    "\<forall>p \<in> set ps. cg_handlers cg (cg_topic p) = Some (OnGroup (cg_topic p))"
proof (rule that)
  let ?cg = "NewConsumerGroup '''' ''round-250-cg'' :: (runner_handler, nat) ConsumerGroup"
  let ?h = "\<lambda>t. if t \<in> cg_topic ` set ps then Some (OnGroup t) else None"
  show "add_topics ps ?cg st = (?cg\<lparr>cg_handlers := ?h\<rparr>, st\<lparr>cgCounts := counts 0 ps\<rparr>)"
    using assms unfolding add_topics_eq by (simp add: NewConsumerGroup_def counts_def cong: if_cong)
  have "dom ?h = cg_topic ` set ps" by (auto split: if_splits)
  then show "finite (dom (cg_handlers (?cg\<lparr>cg_handlers := ?h\<rparr>)))" by simp
qed (simp_all add: NewConsumerGroup_def)

lemma group_counted:
  assumes "sane env" and "cgCounts st = counts 1 ps"
  shows "count_check (env_order env k (dom (cgCounts st))) st = (True, st)"
proof -
  have "dom (cgCounts st) = cg_topic ` set ps" by (auto simp: assms(2) counts_def split: if_splits)
  then have "set (env_order env k (dom (cgCounts st))) = cg_topic ` set ps" using assms(1) by (simp add: sane_def)
  then show ?thesis by (intro count_check_passes) (simp add: assms(2) counts_def)
qed

lemma group_passes:
  assumes "prompt env" and "sane env" and "quiet env n st" and "cgCounts st = Map.empty" and "distinct (map Locale inputs)"
  shows "quiet env (n + 4) (group env inputs st) \<and>
    untouched st ((group env inputs st)\<lparr>cgCounts := Map.empty\<rparr>)"
proof -
  have "cgCounts (pass GroupID st) = Map.empty" using assms(4) by simp
  then obtain cg where cg:
    "add_topics inputs (NewConsumerGroup '''' ''round-250-cg'') (pass GroupID st) = (cg, (pass GroupID st)\<lparr>cgCounts := counts 0 inputs\<rparr>)"
    "\<not> cg_running cg" "cg_subscriptions cg = Map.empty" "finite (dom (cg_handlers cg))"
    "\<forall>p \<in> set inputs. cg_handlers cg (cg_topic p) = Some (OnGroup (cg_topic p))"
    using group_built by blast
  define st1 where "st1 = (pass GroupID st)\<lparr>cgCounts := counts 0 inputs\<rparr>"
  have q: "steady env (n + 1) st1" "active_subs (b st1) = {}" "goroutines (b st1) = []"
    using assms(3) steady_pass by (simp_all add: st1_def quiet_def)
  obtain cg' w where started:
    "Start (im_subscribe (env_rt env)) inMemorySub_Unsubscribe translatorProvider
       (env_order env (waits st1) (dom (cg_handlers cg))) (\<lambda>m. env_order env (waits st1) (dom m)) (runner_ctx env) cg (b st1) = (None, cg', w)"
    "steady env (n + 1) (st1\<lparr>b := w\<rparr>)" "goroutines w = goroutines (b st1)" "cg_running cg'"
    "dom (cg_subscriptions cg') = dom (cg_handlers cg)" "fst ` active_subs w \<subseteq> ran (cg_subscriptions cg')"
    "\<forall>t h. cg_handlers cg t = Some h \<longrightarrow> sole w t h"
    using group_start [OF q(1,2) cg(2,3) env_order_iteration [OF assms(2) cg(4)]] .
  define st2 where "st2 = pass GroupStart (st1\<lparr>b := w\<rparr>)"
  have st2: "steady env (n + 2) st2" "goroutines (b st2) = []" "cgCounts st2 = counts 0 inputs"
    "\<forall>p \<in> set inputs. sole (b st2) (cg_topic p) (OnGroup (cg_topic p))"
    using steady_pass [OF started(2)] started(3,7) q(3) cg(5) by (simp_all add: st2_def st1_def add.commute)
  obtain w3 k where slept: "sleep env (publish_each env inputs st2) = st2\<lparr>b := w3, waits := k, cgCounts := counts 1 inputs\<rparr>"
    "steady env (n + 2) (st2\<lparr>b := w3\<rparr>)" "active_subs w3 = active_subs (b st2)" "goroutines w3 = []"
    using group_round [OF assms(1) st2(1-3) assms(5) st2(4)] .
  define st3 where "st3 = st2\<lparr>b := w3, waits := k, cgCounts := counts 1 inputs\<rparr>"
  have check: "count_check (env_order env (waits st3) (dom (cgCounts st3))) st3 = (True, st3)"
    using assms(2) by (rule group_counted [where ps = inputs]) (simp add: st3_def)
  define st4 where "st4 = pass GroupNoCrossTalk st3"
  have "steady env (n + 2) st3" using slept(2) by (simp add: st3_def steady_def)
  from steady_pass [OF this, of GroupNoCrossTalk] have st4: "steady env (n + 3) st4" "goroutines (b st4) = []"
    "fst ` active_subs (b st4) \<subseteq> ran (cg_subscriptions cg')"
    using started(6) slept(3,4) by (simp_all add: st4_def st3_def st2_def add.commute)
  have fin: "finite (dom (cg_subscriptions cg'))" using started(5) cg(4) by simp
  obtain e cg2 w5 where stopped:
    "Stop inMemorySub_Unsubscribe translatorProvider (env_order env (waits st4) (dom (cg_subscriptions cg'))) cg' (b st4) = (e, cg2, w5)"
    "quiet env (n + 3) (st4\<lparr>b := w5\<rparr>)"
    using group_stop [OF st4(1,2) started(4) st4(3) env_order_iteration [OF assms(2) fin]] .
  have "cg_ID (NewConsumerGroup '''' ''round-250-cg'' :: (runner_handler, nat) ConsumerGroup) \<noteq> ''''"
    by (simp add: cg_ID_def NewConsumerGroup_def)
  then have "group env inputs st = pass GroupStop (st4\<lparr>b := w5\<rparr>)"
    unfolding group_def Let_def
    by (simp only: if_False prod.case cg(1) st1_def [symmetric] started(1) option.case st2_def [symmetric] slept(1)
        st3_def [symmetric] check if_True st4_def [symmetric] stopped(1))
  then show ?thesis
    using quiet_pass [OF stopped(2), of GroupStop] assms(4)
    by (simp add: untouched_def st4_def st3_def st2_def st1_def add.commute)
qed

subsection \<open>Retry and dead letter\<close>

lemma failingHandler_scripted:
  "failingHandler = scripted (\<lambda>i. Some (ErrorString ''downstream failure injected by runner''))"
  by (simp add: failingHandler_def scripted_def fun_eq_iff)

lemma runner_policy_calls:
  "0 \<le> sint (MaxRetries runner_policy)" "sint (MaxRetries runner_policy) < 2 ^ 63 - 1"
  "2 = (if IsRetryableError (Some (ErrorString ''downstream failure injected by runner''))
        then nat (sint (MaxRetries runner_policy)) + 1 else max 1 (nat (sint (MaxRetries runner_policy))))"
proof -
  have "\<not> IsRetryableError (Some (ErrorString ''downstream failure injected by runner''))" by code_simp
  then show "2 = (if IsRetryableError (Some (ErrorString ''downstream failure injected by runner''))
        then nat (sint (MaxRetries runner_policy)) + 1 else max 1 (nat (sint (MaxRetries runner_policy))))"
    by (simp add: runner_policy_def)
qed (simp_all add: runner_policy_def)

lemma run_wrapped_dead_letters:
  assumes "sane env" and "steady env n st" and "goroutines (b st) = []" and "sole (b st) ''dlq-round-250'' OnDLQ"
    and "attempts st = 0" and "delays st = []" and "dlq st = NewDeadLetterHandler ''dlq-round-250''"
  obtains d ds w c where "run_wrapped env m st = st\<lparr>dlq := d, attempts := 2, delays := ds, b := w\<rparr>"
    "steady env n (st\<lparr>b := w\<rparr>)" "active_subs w = active_subs (b st)" "goroutines w = [(OnDLQ, c)]"
    "slice_bytes (Value c) = slice_bytes (Value m)"
proof -
  let ?e = "ErrorString ''downstream failure injected by runner''" and ?rt = "env_rt env"
  let ?ds = "map (\<lambda>j. Delay (env_pow env) (env_conv env) runner_policy (of_nat j)) [0..<2 - 1]"
  define now where "now = time_Now ?rt (ticks (b st))"
  define d where "d = SetHeader ''x-dlq-timestamp'' (format_rfc3339 now)
    (SetHeader ''x-dlq-original-topic'' (Topic m) (SetHeader ''x-dlq-reason'' ''downstream failure injected by runner'' (Clone m)))"
  obtain e w where w: "Publish ?rt ''dlq-round-250'' d (b st) = (e, w)" by fastforce
  from assms(2) have ok: "im_ok ?rt (b st)" "connected (im (b st))" by (simp_all add: steady_def)
  note p = publish_sole [OF ok assms(4) w]
  have "WithRetry (env_pow env) (env_conv env) (env_wait env) failingHandler (Some runner_policy) (runner_ctx env) m (0, [], b st) =
      Some (Some ?e, m, (2, ?ds, b st))"
    using assms(1) retry_constant_error [OF runner_policy_calls] by (simp add: failingHandler_scripted sane_def)
  moreover have "Handle (beside (im_publish ?rt)) NoopTranslator now (runner_ctx env) m (Some ?e) (NewDeadLetterHandler ''dlq-round-250'') (2, ?ds, b st) =
      Inr (None, (NewDeadLetterHandler ''dlq-round-250'')\<lparr>dlq_count := 1\<rparr>, (2, ?ds, w))"
    using w p(1) by (simp add: Handle_def NewDeadLetterHandler_def beside_def im_publish_def d_def Let_def)
  ultimately have "run_wrapped env m st = st\<lparr>dlq := (NewDeadLetterHandler ''dlq-round-250'')\<lparr>dlq_count := 1\<rparr>, attempts := 2, delays := ?ds, b := w\<rparr>"
    using assms(5-7) by (simp add: run_wrapped_def wrapped_def now_def)
  moreover have "slice_bytes (Value d) = slice_bytes (Value m)" by (simp add: d_def)
  ultimately show ?thesis using that p assms(2,3) by (simp add: steady_def)
qed

lemma retry_check_passes:
  "attempts st = 2 \<Longrightarrow> dlqReceived st = [c] \<Longrightarrow> slice_bytes (Value c) = bs \<Longrightarrow>
   retry_check bs st = pass RetryDLQPayload (pass RetryInvoked st)"
  by (simp add: retry_check_def)

lemma sleep_two_rounds:
  assumes "prompt env" and "goroutines (b (run_round env (run_round env st))) = []"
  obtains k where "sleep env st = (run_round env (run_round env st))\<lparr>waits := k\<rparr>"
proof -
  from assms(1) obtain k where "env_sleep env (waits st) = Suc (Suc k)"
    unfolding prompt_def by (metis Suc_le_D Suc_le_mono numeral_2_eq_2)
  then have "sleep env st = (run_round env ^^ k) (run_round env (run_round env st))"
    by (simp add: sleep_def funpow_Suc_right del: funpow.simps)
  with rounds_idle [OF assms(2)] show ?thesis by (auto intro: that)
qed

lemma retry_sleep:
  assumes "prompt env" and "sane env" and "steady env n st" and "goroutines (b st) = [(OnRetry, m)]"
    and "sole (b st) ''dlq-round-250'' OnDLQ" and "attempts st = 0" and "delays st = []"
    and "dlq st = NewDeadLetterHandler ''dlq-round-250''" and "dlqReceived st = []"
  obtains c where "dlqReceived (sleep env st) = [c]" "slice_bytes (Value c) = slice_bytes (Value m)"
    "attempts (sleep env st) = 2" "steady env n (sleep env st)" "active_subs (b (sleep env st)) = active_subs (b st)"
    "goroutines (b (sleep env st)) = []" "spReceived (sleep env st) = spReceived st"
proof -
  define st1 where "st1 = st\<lparr>b := (b st)\<lparr>goroutines := []\<rparr>, waits := Suc (waits st)\<rparr>"
  have st1: "steady env n st1" "goroutines (b st1) = []" "sole (b st1) ''dlq-round-250'' OnDLQ" "attempts st1 = 0"
    "delays st1 = []" "dlq st1 = NewDeadLetterHandler ''dlq-round-250''"
    using assms(3,5-8) by (simp_all add: st1_def steady_def sole_def)
  obtain d ds w c where h: "run_wrapped env m st1 = st1\<lparr>dlq := d, attempts := 2, delays := ds, b := w\<rparr>"
    "steady env n (st1\<lparr>b := w\<rparr>)" "active_subs w = active_subs (b st1)" "goroutines w = [(OnDLQ, c)]"
    "slice_bytes (Value c) = slice_bytes (Value m)"
    using run_wrapped_dead_letters [OF assms(2) st1] .
  define st2 where "st2 = run_round env st"
  have st2: "st2 = st1\<lparr>dlq := d, attempts := 2, delays := ds, b := w\<rparr>"
    using run_round_one [OF assms(1,4)] h(1) by (simp add: st2_def st1_def)
  then have r2: "run_round env st2 = st2\<lparr>b := w\<lparr>goroutines := []\<rparr>, waits := Suc (waits st2), dlqReceived := [c]\<rparr>"
    using run_round_one [OF assms(1), of st2 OnDLQ c] h(4) assms(9) by (simp add: st1_def)
  have "goroutines (b (run_round env (run_round env st))) = []"
    unfolding st2_def [symmetric] r2 by simp
  then obtain k where "sleep env st = (run_round env (run_round env st))\<lparr>waits := k\<rparr>"
    using sleep_two_rounds [OF assms(1)] by blast
  then have "sleep env st = st2\<lparr>b := w\<lparr>goroutines := []\<rparr>, waits := k, dlqReceived := [c]\<rparr>"
    unfolding st2_def [symmetric] r2 by simp
  with h show ?thesis using that [of c] by (simp add: st2 st1_def steady_def)
qed

lemma retry_passes:
  assumes "prompt env" and "sane env" and "quiet env n st" and "attempts st = 0" and "delays st = []"
    and "dlq st = NewDeadLetterHandler ''dlq-round-250''" and "dlqReceived st = []"
  shows "quiet env (n + 2) (retry env inputs st) \<and> spReceived (retry env inputs st) = spReceived st"
proof -
  let ?orig = "string_bytes (fValue (last inputs))"
  let ?D = "''dlq-round-250''" and ?R = "''retry-events''"
  obtain a1 w1 where s1: "call_Subscribe env ?D OnDLQ st = (Inr a1, st\<lparr>b := w1\<rparr>)" "steady env n (st\<lparr>b := w1\<rparr>)"
    "active_subs w1 = {(a1, ?D, OnDLQ)}" "goroutines w1 = []"
    using subscribe_quiet [OF assms(3)] .
  let ?st1 = "st\<lparr>b := w1\<rparr>"
  obtain a2 w2 where s2: "call_Subscribe env ?R OnRetry ?st1 = (Inr a2, ?st1\<lparr>b := w2\<rparr>)" "steady env n (?st1\<lparr>b := w2\<rparr>)"
    "a2 \<notin> fst ` active_subs (b ?st1)" "active_subs w2 = insert (a2, ?R, OnRetry) (active_subs (b ?st1))"
    "goroutines w2 = goroutines (b ?st1)"
    using subscribe_steady [OF s1(2), of ?R OnRetry] .
  let ?st2 = "?st1\<lparr>b := w2\<rparr>" and ?c = "\<lambda>uid now. NewMessage uid now ?R (Some ?orig)"
  obtain uid now w3 where s3: "new_message env ?c ?st2 = (?c uid now, ?st2\<lparr>b := w3\<rparr>)" "steady env n (?st2\<lparr>b := w3\<rparr>)"
    "active_subs w3 = active_subs (b ?st2)" "goroutines w3 = goroutines (b ?st2)"
    using new_message_steady [OF s2(2), of ?c] .
  let ?st3 = "?st2\<lparr>b := w3\<rparr>"
  have act: "active_subs w3 = {(a2, ?R, OnRetry), (a1, ?D, OnDLQ)}" "a2 \<noteq> a1" using s1(3) s2(3,4) s3(3) by auto
  have sole: "sole (b ?st3) ?R OnRetry" by (auto simp: sole_def act(1))
  obtain k w4 where s4: "call_Publish env ?R (?c uid now) ?st3 = (None, ?st3\<lparr>b := w4\<rparr>)" "steady env n (?st3\<lparr>b := w4\<rparr>)"
    "active_subs w4 = active_subs (b ?st3)"
    "goroutines w4 = goroutines (b ?st3) @ [(OnRetry, a_stamp ?R (time_Now (env_rt env) k) (?c uid now))]"
    using publish_steady [OF s3(2) sole, of "?c uid now"] .
  define st4 where "st4 = ?st3\<lparr>b := w4\<rparr>"
  have st4: "steady env n st4" "goroutines (b st4) = [(OnRetry, a_stamp ?R (time_Now (env_rt env) k) (?c uid now))]"
    "sole (b st4) ?D OnDLQ" "attempts st4 = 0" "delays st4 = []" "dlq st4 = NewDeadLetterHandler ?D" "dlqReceived st4 = []"
    using s4 s3(4) s2(5) s1(4) assms(4-7) by (auto simp: st4_def sole_def act)
  obtain c where r: "dlqReceived (sleep env st4) = [c]" "slice_bytes (Value c) = slice_bytes (Value (a_stamp ?R (time_Now (env_rt env) k) (?c uid now)))"
    "attempts (sleep env st4) = 2" "steady env n (sleep env st4)" "active_subs (b (sleep env st4)) = active_subs (b st4)"
    "goroutines (b (sleep env st4)) = []" "spReceived (sleep env st4) = spReceived st4"
    using retry_sleep [OF assms(1,2) st4] .
  define st5 where "st5 = pass RetryDLQPayload (pass RetryInvoked (sleep env st4))"
  have check: "retry_check ?orig (sleep env st4) = st5"
    unfolding st5_def using r(1-3) by (intro retry_check_passes) (simp_all add: NewMessage_def)
  have st5: "steady env (n + 2) st5" "spReceived st5 = spReceived st" "goroutines (b st5) = []"
    "active_subs (b st5) = {(a2, ?R, OnRetry), (a1, ?D, OnDLQ)}"
    using steady_pass [OF steady_pass [OF r(4)]] r(5-7) s4(3) act by (simp_all add: st5_def st4_def add.commute)
  obtain w5 where s5: "call_Unsubscribe a2 st5 = st5\<lparr>b := w5\<rparr>" "steady env (n + 2) (st5\<lparr>b := w5\<rparr>)"
    "active_subs w5 = {x \<in> active_subs (b st5). fst x \<noteq> a2}" "goroutines w5 = goroutines (b st5)"
    using unsubscribe_steady [OF st5(1)] .
  have "active_subs w5 = {(a1, ?D, OnDLQ)}" unfolding s5(3) st5(4) using act(2) by auto
  then have "active_subs (b (st5\<lparr>b := w5\<rparr>)) = {(a1, ?D, OnDLQ)}" "goroutines (b (st5\<lparr>b := w5\<rparr>)) = []"
    using s5(4) st5(3) by simp_all
  from unsubscribe_quiet [OF s5(2) this] obtain w6 where u: "call_Unsubscribe a1 (st5\<lparr>b := w5\<rparr>) = st5\<lparr>b := w5, b := w6\<rparr>"
    "quiet env (n + 2) (st5\<lparr>b := w5, b := w6\<rparr>)" by blast
  have "retry env inputs st = call_Unsubscribe a1 (call_Unsubscribe a2 (retry_check ?orig (sleep env st4)))"
    unfolding retry_def Let_def s1(1) by (simp only: prod.case sum.case s2(1) s3(1) s4(1) st4_def)
  then have "retry env inputs st = st5\<lparr>b := w5, b := w6\<rparr>" by (simp only: check s5(1) u(1))
  with u(2) st5(2) show ?thesis by simp
qed

subsection \<open>The synchronous producer\<close>

lemma sync_payload_utf8: "sync_payload k = Some v \<Longrightarrow> valid_utf8 k \<and> valid_utf8 v"
proof -
  have "valid_utf8 greeting" "valid_utf8 ''action''" "valid_utf8 ''round-250''" "valid_utf8 ''locale''"
    "valid_utf8 ''sr-Cyrl''" "valid_utf8 ''text''"
    unfolding greeting_def valid_utf8_def by code_simp+
  then show "sync_payload k = Some v \<Longrightarrow> valid_utf8 k \<and> valid_utf8 v"
    by (auto simp: sync_payload_def split: if_splits)
qed

lemma json_strings_roundtrip:
  assumes "iteration_of h (ord (dom h))" and "\<And>k v. h k = Some v \<Longrightarrow> valid_utf8 k \<and> valid_utf8 v"
    and "json_Marshal (json_strings ord) (Some h) = (data, e)" and "slice_bytes d = slice_bytes data"
  shows "e = None \<and> data \<noteq> None \<and> json_Unmarshal (json_strings ord') d None = (None, Some h)"
proof -
  let ?j = "map_json h (ord (dom h))"
  have "json_parse (json_text ?j) = Some ?j" by (intro json_parse_text) simp
  moreover have "sanitized h (ord (dom h)) = h" using assms(1,2) by (intro sanitized_valid) blast+
  ultimately show ?thesis using assms(3,4) by (auto simp: json_strings_def)
qed

lemma send_value_publishes:
  assumes "sp_compressor sp = None" and "sp_serializer sp = Some s" and "Serialize s v = (Some data, None)"
    and "im_ok rt w" and "connected (im w)" and "sole w t h"
  obtains sp' w' k m where "SendValue (im_publish rt) tn json uid created now ctx t v sp w = (None, sp', w')"
    "goroutines w' = goroutines w @ [(h, a_stamp t (time_Now rt k) m)]" "slice_bytes (Value m) = data" "im_ok rt w'"
    "connected (im w')" "active_subs w' = active_subs w" "stopCh (im w') = stopCh (im w)"
proof -
  define m where "m = mark_content_type sp (SetHeader ''content-type'' (ContentType s) (NewMessage uid created t (Some data)))"
  obtain e w' where p: "Publish rt t m w = (e, w')" by fastforce
  note s = publish_sole [OF assms(4-6) p]
  have "SendValue (im_publish rt) tn json uid created now ctx t v sp w = (None, sp\<lparr>sp_sent := sp_sent sp + 1\<rparr>, w')"
    using assms(1-3) p s(1) by (simp add: SendValue_def sp_Send_def compress_value_def im_publish_def m_def Let_def)
  moreover have "slice_bytes (Value m) = data" by (simp add: m_def NewMessage_def)
  ultimately show ?thesis using s that by blast
qed

lemma sync_check_passes:
  assumes "spReceived st = [m]" and "json_Unmarshal (json_strings (env_order env (waits st))) (Value m) None = (None, Some sync_payload)"
  shows "sync_check env st = pass SyncText st"
  using assms by (simp add: sync_check_def sync_payload_def)

lemma sync_producer_passes:
  assumes "prompt env" and "sane env" and "quiet env n st" and "spReceived st = []"
  shows "quiet env (n + 1) (sync_producer env st)"
proof -
  let ?t = "''sync-producer-events''" and ?rt = "env_rt env"
  obtain a w1 where s1: "call_Subscribe env ?t OnSync st = (Inr a, st\<lparr>b := w1\<rparr>)" "steady env n (st\<lparr>b := w1\<rparr>)"
    "active_subs w1 = {(a, ?t, OnSync)}" "goroutines w1 = []"
    using subscribe_quiet [OF assms(3)] .
  let ?json = "json_strings (env_order env (waits st))" and ?w = "w1\<lparr>ticks := ticks w1 + 2\<rparr>"
  let ?sp = "sp_SetSerializer (Some (JSONSerializer ?json)) (NewSyncProducer 0)"
  have ok: "im_ok ?rt ?w" "connected (im ?w)" "sole ?w ?t OnSync"
    using s1 im_ok_ticks [of ?rt w1] sole_single [of ?w a] by (simp_all add: steady_def)
  obtain data where data: "json_Marshal ?json (Some sync_payload) = (Some data, None)" by (simp add: json_strings_def)
  have "iteration_of sync_payload (env_order env (waits st) (dom sync_payload))"
    by (rule env_order_iteration [OF assms(2)]) (simp add: sync_payload_def)
  then have decodes: "json_Unmarshal (json_strings ord') d None = (None, Some sync_payload)" if "slice_bytes d = data" for d ord'
    using json_strings_roundtrip [of sync_payload "env_order env (waits st)" "Some data" None d] sync_payload_utf8 data that by simp
  have sp: "sp_compressor ?sp = None" "sp_serializer ?sp = Some (JSONSerializer ?json)"
      "Serialize (JSONSerializer ?json) (Some sync_payload) = (Some data, None)"
    using data by (simp_all add: sp_SetSerializer_def NewSyncProducer_def JSONSerializer_def)
  obtain sp' w2 k m where s2: "SendValue (im_publish ?rt) NoopTranslator ?json (uuid_New ?rt (ticks w1)) (time_Now ?rt (ticks w1))
      (time_Now ?rt (Suc (ticks w1))) (runner_ctx env) ?t (Some sync_payload) ?sp ?w = (None, sp', w2)"
    "goroutines w2 = goroutines ?w @ [(OnSync, a_stamp ?t (time_Now ?rt k) m)]" "slice_bytes (Value m) = data" "im_ok ?rt w2"
    "connected (im w2)" "active_subs w2 = active_subs ?w" "stopCh (im w2) = stopCh (im ?w)"
    using send_value_publishes [OF sp ok] .
  define st2 where "st2 = st\<lparr>b := w2\<rparr>"
  have st2: "goroutines (b st2) = [(OnSync, a_stamp ?t (time_Now ?rt k) m)]" "steady env n st2"
    using s1 s2 by (simp_all add: st2_def steady_def)
  obtain j where slept: "sleep env st2 = (run_handler env (OnSync, a_stamp ?t (time_Now ?rt k) m) (st2\<lparr>b := (b st2)\<lparr>goroutines := []\<rparr>\<rparr>))\<lparr>waits := j\<rparr>"
    using sleep_one [OF assms(1) st2(1)] by (auto simp: records_def)
  define st3 where "st3 = sleep env st2"
  have st3: "st3 = st2\<lparr>b := (b st2)\<lparr>goroutines := []\<rparr>, spReceived := [a_stamp ?t (time_Now ?rt k) m], waits := j\<rparr>"
    using slept assms(4) by (simp add: st3_def st2_def)
  have poll: "poll env 1 (\<lambda>st. length (spReceived st)) st2 = st3"
    using assms(4) by (intro poll_once [OF assms(1) _ st3_def [symmetric]]) (simp_all add: st3, simp add: st2_def)
  have check: "sync_check env st3 = pass SyncText st3"
    by (rule sync_check_passes [OF _ decodes]) (simp add: st3, simp add: s2(3))
  have "steady env n st3" using st2(2) by (simp add: st3 steady_def)
  then have "steady env n st3" "active_subs (b st3) = {(a, ?t, OnSync)}" "goroutines (b st3) = []"
    using s1(3) s2(6) by (simp_all add: st3 st2_def)
  from pass_and_unsubscribe [OF this] obtain w4 where u: "call_Unsubscribe a (pass SyncText st3) = (pass SyncText st3)\<lparr>b := w4\<rparr>"
    "quiet env (n + 1) ((pass SyncText st3)\<lparr>b := w4\<rparr>)" by blast
  have "sync_producer env st = call_Unsubscribe a (sync_check env (poll env 1 (\<lambda>st. length (spReceived st)) st2))"
    unfolding sync_producer_def s1(1) using s2(1) by (simp add: st2_def Let_def)
  with u show ?thesis by (simp only: poll check)
qed

section \<open>The whole program\<close>

lemma finite_decode_entries: "finite (dom h) \<Longrightarrow> finite (dom (fst (decode_entries es h)))"
proof (induction es arbitrary: h)
  case (Cons kv es)
  have "finite (dom (fst (decode_entries es (h(k \<mapsto> s)))))" for k s
    using Cons.prems by (intro Cons.IH) (simp only: dom_fun_upd option.distinct if_False finite_insert)
  with Cons.prems show ?case by (cases kv) (simp add: case_prod_unfold Let_def split: option.split)
qed simp

lemma finite_decode_map:
  assumes "\<forall>h. old = Some h \<longrightarrow> finite (dom h)"
  shows "\<forall>h. fst (decode_map v old) = Some h \<longrightarrow> finite (dom h)"
  using assms finite_decode_entries [of Map.empty] finite_decode_entries
  by (cases old) (simp_all add: decode_map_def case_prod_unfold Let_def split: json.split)

definition finite_headers :: "fixturePayload \<Rightarrow> bool" where
  "finite_headers p \<longleftrightarrow> (\<forall>h. fHeaders p = Some h \<longrightarrow> finite (dom h))"

lemma finite_headers_simps [simp]:
  "finite_headers zero_payload" "finite_headers (p\<lparr>Locale := s\<rparr>) = finite_headers p"
  "finite_headers (p\<lparr>fTopic := s\<rparr>) = finite_headers p" "finite_headers (p\<lparr>fKey := s\<rparr>) = finite_headers p"
  "finite_headers (p\<lparr>fValue := s\<rparr>) = finite_headers p"
  by (simp_all add: finite_headers_def zero_payload_def)

lemma finite_headers_decode: "finite_headers p \<Longrightarrow> finite_headers (p\<lparr>fHeaders := fst (decode_map v (fHeaders p))\<rparr>)"
  unfolding finite_headers_def by (simp add: finite_decode_map)

lemma finite_headers_payload: "finite_headers p \<Longrightarrow> finite_headers (fst (decode_payload es p))"
proof (induction es arbitrary: p)
  case (Cons kv es)
  obtain k v where kv: "kv = (k, v)" by fastforce
  show ?case
  proof (cases "unquote k")
    case (Some name)
    then show ?thesis
      using Cons finite_headers_decode [OF Cons.prems, of v]
      by (auto simp: kv case_prod_unfold Let_def split: option.splits payload_field.splits)
  qed (use Cons.prems in \<open>simp add: kv\<close>)
qed simp

lemma finite_headers_inputs:
  "\<forall>p \<in> set old. finite_headers p \<Longrightarrow> \<forall>p \<in> set (fst (decode_inputs vs old)). finite_headers p"
proof (induction vs arbitrary: old)
  case (Cons v vs)
  have "finite_headers (case old of [] \<Rightarrow> zero_payload | x # _ \<Rightarrow> x)" "\<forall>p \<in> set (List.tl old). finite_headers p"
    using Cons.prems by (cases old; simp)+
  with Cons.IH [of "List.tl old"] finite_headers_payload show ?case
    by (auto simp: case_prod_unfold Let_def split: json.splits)
qed simp

lemma finite_headers_fixtures:
  "\<forall>p \<in> set ps. finite_headers p \<Longrightarrow> \<forall>p \<in> set (fst (decode_fixtures es ps)). finite_headers p"
proof (induction es arbitrary: ps)
  case (Cons kv es)
  obtain k v where kv: "kv = (k, v)" by fastforce
  show ?case
  proof (cases "unquote k")
    case (Some name)
    then show ?thesis
      using Cons.IH [OF finite_headers_inputs [OF Cons.prems]] Cons.IH [of "[]"] Cons.IH [OF Cons.prems]
      by (simp add: kv case_prod_unfold Let_def split: json.split)
  qed (use Cons.prems in \<open>simp add: kv\<close>)
qed simp

lemma fixtureFile_finite:
  assumes "fixtureFile data = Inr inputs" and "p \<in> set inputs"
  shows "finite (dom (headers_of p))"
proof -
  have "finite_headers p"
    using assms finite_headers_fixtures [of "[]"]
    by (auto simp: fixtureFile_def split: option.splits json.splits prod.splits dest: arg_cong [where f = fst]) 
       (metis fst_conv)
  then show ?thesis by (auto simp: headers_of_def finite_headers_def split: option.splits)
qed

lemma shutdown_passes:
  assumes "quiet env n st"
  shows "\<exists>w. shutdown st = pass Shutdown (st\<lparr>b := w\<rparr>) \<and> \<not> IsConnected w"
  using assms by (auto simp: quiet_def steady_def shutdown_def Close_def IsConnected_def)

lemma sections_pass:
  assumes "prompt env" and "sane env" and "quiet env n st" and "inputs \<noteq> []" and "distinct (map Locale inputs)"
    and "\<forall>p \<in> set inputs. finite (dom (headers_of p))" and "batchReceived st = []" and "cgCounts st = Map.empty"
    and "dlqReceived st = []" and "attempts st = 0" and "delays st = []"
    and "dlq st = NewDeadLetterHandler ''dlq-round-250''" and "spReceived st = []"
  shows "\<exists>w st'. sections env inputs st = pass Shutdown (st'\<lparr>b := w\<rparr>) \<and> \<not> IsConnected w \<and>
    quiet env (n + 2 * int (length inputs) + 9) st'"
proof -
  let ?n = "n + 2 * int (length inputs)"
  define st1 where "st1 = pubsub_each env inputs st"
  have st1: "quiet env ?n st1" "untouched st st1"
    using pubsub_passes [OF assms(1-3,6)] by (simp_all add: st1_def)
  define st2 where "st2 = batches env inputs st1"
  have st2: "quiet env (?n + 1) st2" "untouched st1 (st2\<lparr>batchReceived := []\<rparr>)"
    using batches_passes [OF assms(1) st1(1) assms(4)] st1(2) assms(7) by (simp_all add: st2_def untouched_def)
  define st3 where "st3 = group env inputs st2"
  have st3: "quiet env (?n + 1 + 4) st3" "untouched st2 (st3\<lparr>cgCounts := Map.empty\<rparr>)"
    using group_passes [OF assms(1,2) st2(1) _ assms(5)] st1(2) st2(2) assms(8) by (simp_all add: st3_def untouched_def)
  define st4 where "st4 = retry env inputs st3"
  have st4: "quiet env (?n + 1 + 4 + 2) st4" "spReceived st4 = []"
    using retry_passes [OF assms(1,2) st3(1)] st1(2) st2(2) st3(2) assms(9-13) by (simp_all add: st4_def untouched_def)
  define st5 where "st5 = pass Contract (sync_producer env st4)"
  have st5: "quiet env (?n + 9) st5"
    using quiet_pass [OF sync_producer_passes [OF assms(1,2) st4]] by (simp add: st5_def add.commute)
  then show ?thesis
    using shutdown_passes [OF st5] by (auto simp: sections_def st5_def st4_def st3_def st2_def st1_def)
qed

section \<open>Properties\<close>

text \<open>
  C5: the challenge runner passes. In a prompt environment, with a fixture file of at least three
  payloads and no locale twice, \<open>main\<close> exits with 0: every check of every section passes, two
  per payload and fourteen others, none fails, nothing panics, and the broker is closed.
\<close>

theorem runner_passes:
  assumes "prompt env" and "sane env" and "env_file env = Some data" and "fixtureFile data = Inr inputs"
    and "3 \<le> length inputs" and "distinct (map Locale inputs)"
  shows "\<exists>st. main env = (0, Some st) \<and> totalFail st = 0 \<and> totalPass st = 14 + 2 * int (length inputs) \<and>
    \<not> crashed st \<and> \<not> IsConnected (b st)"
proof -
  obtain st0 where st0: "lifecycle env (new_runner env) = Inr st0" "quiet env 4 st0" "batchReceived st0 = []"
    "cgCounts st0 = Map.empty" "dlqReceived st0 = []" "attempts st0 = 0" "delays st0 = []"
    "dlq st0 = NewDeadLetterHandler ''dlq-round-250''" "spReceived st0 = []"
    using lifecycle_passes [of env] assms(2) unfolding sane_def by blast
  have "inputs \<noteq> []" using assms(5) by auto
  from sections_pass [OF assms(1,2) st0(2) this assms(6) _ st0(3-)] fixtureFile_finite [OF assms(4)]
  obtain w st where s: "sections env inputs st0 = pass Shutdown (st\<lparr>b := w\<rparr>)" "\<not> IsConnected w"
    "quiet env (4 + 2 * int (length inputs) + 9) st" by blast
  then have "crashed (sections env inputs st0) = False" "totalFail (sections env inputs st0) = 0"
    "totalPass (sections env inputs st0) = 14 + 2 * int (length inputs)"
    by (simp_all add: quiet_def steady_def pass_def)
  with s assms(3-5) st0(1) show ?thesis by (simp add: main_def Let_def)
qed

definition demo_payload :: "string \<Rightarrow> json" where
  "demo_payload loc = JObject [(''locale'', JString loc), (''topic'', JString ''events''), (''key'', JString ''k''),
     (''value'', JString greeting), (''headers'', JObject [(''x'', JString ''1'')])]"

definition demo_fixtures :: json where
  "demo_fixtures = JObject [(''inputs'', JArray (map demo_payload [''en'', ''sr'', ''ja'']))]"

definition demo_environment :: environment where
  "demo_environment =
     \<lparr>env_file = Some (json_text demo_fixtures), env_rt = rt_example\<lparr>time_Now := \<lambda>n. 0\<rparr>,
      env_schedule = (\<lambda>t n. rev [0..<n]), env_sleep = (\<lambda>t. 2), env_polls = (\<lambda>t. 1),
      env_order = (\<lambda>t. sorted_list_of_set), env_pow = (\<lambda>x y. NaN), env_conv = (\<lambda>f. 0), env_wait = recorded, env_start = 0\<rparr>"

lemma payload_names:
  "payload_field_of ''locale'' = Some PLocale" "payload_field_of ''topic'' = Some PTopic" "payload_field_of ''key'' = Some PKey"
  "payload_field_of ''value'' = Some PValue" "payload_field_of ''headers'' = Some PHeaders" "fold_name ''inputs'' = ''INPUTS''"
  by code_simp+

lemma demo_unquote: "list_all (\<lambda>s. unquote s = Some s) [greeting, ''inputs'', ''locale'', ''topic'', ''key'', ''value'', ''headers'', ''events'',
    ''k'', ''x'', ''1'', ''en'', ''sr'', ''ja'']"
  by code_simp

lemma demo_fixtures_decode:
  "fixtureFile (json_text demo_fixtures) =
     Inr (map (\<lambda>loc. \<lparr>Locale = loc, fTopic = ''events'', fKey = ''k'', fValue = greeting, fHeaders = Some [''x'' \<mapsto> ''1'']\<rparr>)
            [''en'', ''sr'', ''ja''])"
proof -
  have "list_all plain_char greeting" by code_simp
  then have "scannable greeting" by (rule scannable_plain)
  then have "json_parse (json_text demo_fixtures) = Some demo_fixtures"
    by (intro json_parse_text) (simp add: demo_fixtures_def demo_payload_def scannable_ascii ascii_plain_def plain_char_def)
  moreover have "decode_fixtures [(''inputs'', JArray (map demo_payload [''en'', ''sr'', ''ja'']))] [] =
      (map (\<lambda>loc. \<lparr>Locale = loc, fTopic = ''events'', fKey = ''k'', fValue = greeting, fHeaders = Some [''x'' \<mapsto> ''1'']\<rparr>)
            [''en'', ''sr'', ''ja''], None)"
    by (simp add: demo_payload_def payload_names demo_unquote [simplified] decode_string_def decode_map_def first_error_def zero_payload_def)
  ultimately show ?thesis by (simp add: fixtureFile_def demo_fixtures_def)
qed

theorem runner_passes_witness:
  "\<exists>st. main demo_environment = (0, Some st) \<and> totalFail st = 0 \<and> totalPass st = 20"
proof -
  have "prompt demo_environment" by (auto simp: prompt_def demo_environment_def)
  moreover have "year_of 0 = 1970" by code_simp
  then have "sane demo_environment"
    using unique_uuids_example by (simp add: sane_def demo_environment_def unique_uuids_def)
  moreover have "env_file demo_environment = Some (json_text demo_fixtures)" by (simp add: demo_environment_def)
  ultimately show ?thesis using runner_passes [OF _ _ _ demo_fixtures_decode, of demo_environment] by force
qed

end
