(* ===== verification/RunnerSafe.thy ===== *)
theory RunnerSafe
  imports RunnerCorrect
begin

text \<open>
  Safety of the challenge runner in every environment: whatever the scheduler does with the
  goroutines, however long the sleeps are and in whichever order maps are visited, \<open>main\<close> does
  not panic, its tally is the list of lines it printed, and its exit code says what they say.

  \<open>preserving_publish\<close> is the interface this rests on, beside \<open>keeping\<close> of the consumer
  group: a property of the world that every call of a broker keeps is kept by the components that
  use the broker (the dead letter handler, the retried handler, the synchronous producer).
\<close>

section \<open>What every broker call keeps, its clients keep\<close>

locale preserving_publish =
  fixes publish :: "go_context \<Rightarrow> string \<Rightarrow> message \<Rightarrow> 'w \<Rightarrow> go_error option \<times> 'w"
    and good :: "'w \<Rightarrow> bool"
  assumes good_publish: "good w \<Longrightarrow> good (snd (publish ctx t m w))"
begin

lemma good_Send: "good w \<Longrightarrow> good (snd (snd (snd (sp_Send publish tn now ctx topic msg sp w))))"
proof (cases "compress_value tn sp (mark_content_type sp msg)")
  case (Inr m)
  assume "good w"
  then have "good (snd (publish (WithTimeout now ctx (sp_timeout sp)) topic m w))" by (rule good_publish)
  with Inr show ?thesis
    by (cases "publish (WithTimeout now ctx (sp_timeout sp)) topic m w"; cases "fst (publish (WithTimeout now ctx (sp_timeout sp)) topic m w)")
       (simp_all add: sp_Send_def Let_def)
qed (simp add: sp_Send_def Let_def)

lemma good_SendValue:
  assumes "good w"
  shows "good (snd (snd (SendValue publish tn json uid created now ctx topic value sp w)))"
  using assms good_Send [OF assms] by (auto simp: SendValue_def Let_def split_beta split: prod.splits option.splits)

lemma good_Handle:
  assumes "good w" and "onFailure dlh = None" and "Error tn oerr = Inr reason"
  shows "\<exists>e dlh' w'. Handle publish tn now ctx msg (Some oerr) dlh w = Inr (e, dlh', w') \<and> onFailure dlh' = None \<and> good w'"
  using assms good_publish [OF assms(1)]
  by (simp add: Handle_def Let_def split: prod.splits option.splits) (metis snd_conv)

end

text \<open>The retry loop, with a handler and a wait that keep a property.\<close>

definition steps_keep ::
  "('w \<Rightarrow> bool) \<Rightarrow> (go_error \<Rightarrow> bool) \<Rightarrow> (int64 \<Rightarrow> 'w \<Rightarrow> go_error option \<times> 'w) \<Rightarrow>
   (message \<Rightarrow> 'w \<Rightarrow> go_error option \<times> message \<times> 'w) \<Rightarrow> bool" where
  "steps_keep good ok wait handler \<longleftrightarrow>
     (\<forall>d w. good w \<longrightarrow> good (snd (wait d w)) \<and> pred_option ok (fst (wait d w))) \<and>
     (\<forall>m w. good w \<longrightarrow> good (snd (snd (handler m w))) \<and> pred_option ok (fst (handler m w)))"

lemma retry_loop_keeps:
  assumes "retry_loop delay wait handler policy ctx attempt lastErr msg w = Some y"
  shows "steps_keep good ok (wait ctx) (handler ctx) \<longrightarrow> good w \<longrightarrow> pred_option ok lastErr \<longrightarrow>
    good (snd (snd y)) \<and> pred_option ok (fst y)"
  using assms
proof (rule retry_loop.raw_induct [rotated], goal_cases)
  case (1 f delay wait handler policy ctx attempt lastErr msg w y)
  show ?case
  proof (intro impI)
    assume k: "steps_keep good ok (wait ctx) (handler ctx)" and w: "good w" and l: "pred_option ok lastErr"
    obtain e w1 where w1: "(if 0 < sint attempt then wait ctx (delay (attempt - 1)) w else (None, w)) = (e, w1)"
      by fastforce
    with k w have g1: "good w1" "pred_option ok e"
      by (auto simp: steps_keep_def split: if_splits dest!: spec [of _ "delay (attempt - 1)"] spec [of _ w])
    obtain err m2 w2 where h: "handler ctx msg w1 = (err, m2, w2)" by (metis prod_cases3)
    with k g1 have g2: "good w2" "pred_option ok err"
      by (auto simp: steps_keep_def dest!: spec [of _ msg] spec [of _ w1])
    show "good (snd (snd y)) \<and> pred_option ok (fst y)"
      using 1(2) [unfolded w1 prod.case h] g1 g2 w l k 1(1) [of delay wait handler policy ctx "attempt + 1" err m2 w2 y]
      by (cases e; cases err) (auto split: if_splits)
  qed
qed

section \<open>Worlds in which no handler is dangerous\<close>

text \<open>
  The handler of a consumer group topic dereferences the counter of its topic, and \<open>Close\<close>
  closes \<open>stopCh\<close>: those are the places where the runner could panic.
\<close>

definition handlers_in :: "'h im_world \<Rightarrow> 'h set" where
  "handlers_in w = {f. \<exists>t. f \<in> sub_handler ` set (subs_of w t)} \<union> fst ` set (goroutines w)"

definition counted_handlers :: "string set \<Rightarrow> runner_handler set" where
  "counted_handlers D = {f. \<forall>t. f = OnGroup t \<longrightarrow> t \<in> D}"

definition harmless :: "string set \<Rightarrow> runner_handler im_world \<Rightarrow> bool" where
  "harmless D w \<longleftrightarrow> stopCh (im w) = ChanOpen \<and> handlers_in w \<subseteq> counted_handlers D"

lemma harmless_mono: "harmless D w \<Longrightarrow> D \<subseteq> D' \<Longrightarrow> harmless D' w"
  by (auto simp: harmless_def counted_handlers_def)

lemma spawned_handlers: "fst ` set (spawn_deliveries subs c) \<subseteq> sub_handler ` set subs"
  by (induction subs) auto

lemma handlers_Publish: "handlers_in (snd (Publish rt t m w)) \<subseteq> handlers_in w"
proof (cases "InMemory.connected (im w)")
  case True
  let ?c = "(Clone m)\<lparr>Topic := t, Timestamp := time_Now rt (ticks w)\<rparr>"
  have "handlers_in (snd (Publish rt t m w)) = handlers_in w \<union> fst ` set (spawn_deliveries (subs_of w t) ?c)"
    unfolding Publish_connected [OF True] by (simp add: handlers_in_def image_Un Un_assoc)
  moreover have "sub_handler ` set (subs_of w t) \<subseteq> handlers_in w" by (auto simp: handlers_in_def)
  ultimately show ?thesis using spawned_handlers [of "subs_of w t" ?c] by auto
qed (simp add: Publish_not_connected)

lemma handlers_Subscribe: "handlers_in (snd (Subscribe rt t f w)) \<subseteq> insert f (handlers_in w)"
  by (auto simp: Subscribe_def handlers_in_def Let_def split: if_splits)

lemma handlers_cancel: "handlers_in (snd (inMemorySub_Unsubscribe a w)) = handlers_in w"
proof -
  have "map sub_handler (subs_of (snd (inMemorySub_Unsubscribe a w)) t) = map sub_handler (subs_of w t)" for t
    by (simp add: inMemorySub_Unsubscribe_def Let_def map_update_first split: option.split)
  then have "sub_handler ` set (subs_of (snd (inMemorySub_Unsubscribe a w)) t) = sub_handler ` set (subs_of w t)" for t
    by (metis image_set)
  moreover have "goroutines (snd (inMemorySub_Unsubscribe a w)) = goroutines w"
    by (simp add: inMemorySub_Unsubscribe_def Let_def split: option.split)
  ultimately show ?thesis by (simp add: handlers_in_def)
qed

lemma stopCh_frame:
  "stopCh (im (snd (Publish rt t m w))) = stopCh (im w)" "stopCh (im (snd (Subscribe rt t f w))) = stopCh (im w)"
  "stopCh (im (snd (inMemorySub_Unsubscribe a w))) = stopCh (im w)"
  by (auto simp: Publish_def Subscribe_def inMemorySub_Unsubscribe_def Let_def split: option.splits)

interpretation runner_broker: preserving_publish "im_publish rt" "harmless D" for rt D
proof (unfold_locales, goal_cases)
  case (1 w ctx t m)
  then show ?case using handlers_Publish [of rt t m w] by (auto simp: harmless_def im_publish_def stopCh_frame)
qed

interpretation runner_subs: keeping "im_subscribe rt" inMemorySub_Unsubscribe "harmless D" "counted_handlers D" for rt D
proof (unfold_locales, goal_cases)
  case (1 w f ctx t)
  then show ?case using handlers_Subscribe [of rt t f w] by (auto simp: harmless_def im_subscribe_def stopCh_frame)
next
  case (2 w s)
  then show ?case by (simp add: harmless_def handlers_cancel stopCh_frame)
qed

interpretation retry_broker: preserving_publish "beside (im_publish rt)" "\<lambda>v. harmless D (snd (snd v))" for rt D
  using runner_broker.good_publish by unfold_locales (force simp: beside_def split_beta)

section \<open>The state of the runner\<close>

text \<open>
  What is assumed of the environment: waiting for the timer or the end of the context leaves the
  broker harmless, and the error of the context can be rendered.
\<close>

definition renderable :: "go_error \<Rightarrow> bool" where
  "renderable err \<longleftrightarrow> (\<exists>s. Error NoopTranslator err = Inr s)"

definition benign :: "environment \<Rightarrow> bool" where
  "benign env \<longleftrightarrow> (\<forall>ctx d w D. harmless D (snd (snd w)) \<longrightarrow>
     harmless D (snd (snd (snd (env_wait env ctx d w)))) \<and> pred_option renderable (fst (env_wait env ctx d w)))"

definition tallied :: "runner \<Rightarrow> bool" where
  "tallied st \<longleftrightarrow> totalPass st = int (length (filter fst (printed st))) \<and>
     totalFail st = int (length (filter (\<lambda>x. \<not> fst x) (printed st)))"

definition safe :: "runner \<Rightarrow> bool" where
  "safe st \<longleftrightarrow> \<not> crashed st \<and> onFailure (dlq st) = None \<and> harmless (dom (cgCounts st)) (b st) \<and> tallied st"

lemma safe_verdict [simp]: "safe (pass c st) = safe st" "safe (fail c st) = safe st"
  by (auto simp: safe_def tallied_def pass_def fail_def)

lemma safe_updates [simp]:
  "safe (st\<lparr>pubReceived := x\<rparr>) = safe st" "safe (st\<lparr>batchReceived := y\<rparr>) = safe st"
  "safe (st\<lparr>dlqReceived := z\<rparr>) = safe st" "safe (st\<lparr>spReceived := z\<rparr>) = safe st"
  by (simp_all add: safe_def tallied_def)

lemma safe_broker: "safe st \<Longrightarrow> harmless (dom (cgCounts st)) w \<Longrightarrow> safe (st\<lparr>b := w\<rparr>)"
  by (simp add: safe_def tallied_def)

lemma counts_frame [simp]:
  "cgCounts (pass c st) = cgCounts st" "cgCounts (fail c st) = cgCounts st"
  by (simp_all add: pass_def fail_def)

text \<open>The handler of the retry section.\<close>

lemma failing_error: "renderable (ErrorString s)"
  by (simp add: renderable_def)

lemma wrapped_harmless:
  assumes "benign env" and "harmless D w" and "onFailure dlh = None"
  shows "\<exists>e d n' ds' w'. wrapped (env_pow env) (env_conv env) (env_wait env) (beside (im_publish (env_rt env))) NoopTranslator
      now failingHandler (Some runner_policy) dlh ctx m (n, ds, w) = Some (Inr (e, d, n', ds', w')) \<and>
    onFailure d = None \<and> harmless D w'"
proof -
  let ?loop = "retry_loop (Delay (env_pow env) (env_conv env) runner_policy) (env_wait env) failingHandler runner_policy ctx 0 None m (n, ds, w)"
  let ?good = "\<lambda>v :: retry_world. harmless D (snd (snd v))"
  have "sint (MaxRetries runner_policy) < 2 ^ 63 - 1" by (simp add: runner_policy_def)
  from retry_loop_returns [OF this] obtain y where y: "?loop = Some y" by metis
  have "steps_keep ?good renderable (env_wait env ctx) (failingHandler ctx)"
    using assms(1) by (auto simp: steps_keep_def benign_def failingHandler_def failing_error)
  with retry_loop_keeps [OF y, of ?good renderable] assms(2)
  have k: "harmless D (snd (snd (snd (snd y))))" "pred_option renderable (fst y)" by simp_all
  obtain e m' n' ds' w' where y': "y = (e, m', n', ds', w')" by (metis prod_cases5)
  show ?thesis
  proof (cases e)
    case None
    with y y' k assms(3) show ?thesis by (simp add: wrapped_def WithRetry_def)
  next
    case (Some err)
    with k y' obtain r where r: "Error NoopTranslator err = Inr r" by (auto simp: renderable_def)
    from retry_broker.good_Handle [of D "(n', ds', w')" dlh NoopTranslator err r "env_rt env" now ctx m'] k y' assms(3) r
    show ?thesis using Some y by (auto simp: wrapped_def WithRetry_def)
  qed
qed

lemma run_handler_safe:
  assumes "benign env" and "safe st" and "f \<in> counted_handlers (dom (cgCounts st))"
  shows "safe (run_handler env (f, m) st) \<and> dom (cgCounts (run_handler env (f, m) st)) = dom (cgCounts st)"
proof (cases f)
  case (OnGroup t)
  with assms obtain n where "cgCounts st t = Some n" by (auto simp: counted_handlers_def)
  then have "dom ((cgCounts st)(t \<mapsto> n + 1)) = dom (cgCounts st)" by auto
  with OnGroup assms(2) \<open>cgCounts st t = Some n\<close> show ?thesis by (simp add: safe_def tallied_def)
next
  case OnRetry
  from assms(2) have "harmless (dom (cgCounts st)) (b st)" "onFailure (dlq st) = None" by (simp_all add: safe_def)
  from wrapped_harmless [OF assms(1) this] obtain e d n' ds' w' where
    "wrapped (env_pow env) (env_conv env) (env_wait env) (beside (im_publish (env_rt env))) NoopTranslator
      (time_Now (env_rt env) (ticks (b st))) failingHandler (Some runner_policy) (dlq st) (runner_ctx env) m
      (attempts st, delays st, b st) = Some (Inr (e, d, n', ds', w'))"
    "onFailure d = None" "harmless (dom (cgCounts st)) w'" by blast
  with OnRetry assms(2) show ?thesis by (simp add: run_wrapped_def safe_def tallied_def)
qed (use assms(2) in simp_all)

lemma fold_handlers_safe:
  assumes "benign env" and "safe st" and "fst ` set gs \<subseteq> counted_handlers (dom (cgCounts st))"
  shows "safe (fold (run_handler env) gs st) \<and> dom (cgCounts (fold (run_handler env) gs st)) = dom (cgCounts st)"
  using assms(2,3)
proof (induction gs arbitrary: st)
  case (Cons g gs)
  with run_handler_safe [OF assms(1), of st "fst g" "snd g"] show ?case by (cases g) auto
qed simp

lemma run_round_safe:
  assumes "benign env" and "safe st"
  shows "safe (run_round env st) \<and> dom (cgCounts (run_round env st)) = dom (cgCounts st)"
proof -
  let ?gs = "goroutines (b st)"
  let ?p = "remdups (filter (\<lambda>i. i < length ?gs) (env_schedule env (waits st) (length ?gs)))"
  let ?r = "filter (\<lambda>i. i \<notin> set ?p) [0..<length ?gs]"
  let ?st = "st\<lparr>b := (b st)\<lparr>goroutines := map ((!) ?gs) ?r\<rparr>, waits := Suc (waits st)\<rparr>"
  have h: "harmless (dom (cgCounts st)) (b st)" using assms(2) by (simp add: safe_def)
  have r: "fst ` set (map ((!) ?gs) ?r) \<subseteq> fst ` set ?gs" by (rule image_mono) auto
  have p: "fst ` set (map ((!) ?gs) ?p) \<subseteq> fst ` set ?gs" by (rule image_mono) auto
  from h have gs: "fst ` set ?gs \<subseteq> counted_handlers (dom (cgCounts st))" by (simp add: harmless_def handlers_in_def)
  from h r gs have "harmless (dom (cgCounts st)) ((b st)\<lparr>goroutines := map ((!) ?gs) ?r\<rparr>)"
    unfolding harmless_def handlers_in_def by (simp del: set_map)
  then have "safe ?st" using assms(2) by (simp add: safe_def tallied_def)
  moreover have "fst ` set (map ((!) ?gs) ?p) \<subseteq> counted_handlers (dom (cgCounts ?st))" using p gs by simp
  ultimately have "safe (fold (run_handler env) (map ((!) ?gs) ?p) ?st) \<and>
      dom (cgCounts (fold (run_handler env) (map ((!) ?gs) ?p) ?st)) = dom (cgCounts ?st)"
    by (rule fold_handlers_safe [OF assms(1)])
  then show ?thesis by (simp add: run_round_def Let_def)
qed

lemma sleep_safe:
  assumes "benign env" and "safe st"
  shows "safe (sleep env st) \<and> dom (cgCounts (sleep env st)) = dom (cgCounts st)"
proof -
  have "safe ((run_round env ^^ k) st) \<and> dom (cgCounts ((run_round env ^^ k) st)) = dom (cgCounts st)" for k
    using assms(2) run_round_safe [OF assms(1)] by (induction k) auto
  then show ?thesis by (simp add: sleep_def)
qed

lemma poll_safe: "benign env \<Longrightarrow> safe st \<Longrightarrow> safe (poll env needed len st)"
proof -
  assume "benign env" and "safe st"
  then have "safe (poll_loop env needed len k st)" for k
    using sleep_safe by (induction k arbitrary: st) auto
  then show ?thesis by (simp add: poll_def)
qed

section \<open>The sections\<close>

lemma plain_handlers [simp]:
  "OnPubsub i \<in> counted_handlers D" "OnBatch \<in> counted_handlers D" "OnDLQ \<in> counted_handlers D"
  "OnRetry \<in> counted_handlers D" "OnSync \<in> counted_handlers D" "OnGroup t \<in> counted_handlers D \<longleftrightarrow> t \<in> D"
  by (simp_all add: counted_handlers_def)

lemma safe_harmless: "safe st \<Longrightarrow> harmless (dom (cgCounts st)) (b st)"
  by (simp add: safe_def)

lemma harmless_ticks [simp]: "harmless D (w\<lparr>ticks := n\<rparr>) = harmless D w"
  by (simp add: harmless_def handlers_in_def)

lemma subscribe_safe:
  assumes "safe st" and "f \<in> counted_handlers (dom (cgCounts st))" and "call_Subscribe env t f st = (r, st')"
  shows "safe st'"
  using runner_subs.good_subscribe [OF safe_harmless [OF assms(1)] assms(2), of "env_rt env" undefined t] assms(1,3)
  by (auto simp: call_Subscribe_def im_subscribe_def split_beta intro: safe_broker)

lemma publish_safe: "safe st \<Longrightarrow> call_Publish env t m st = (e, st') \<Longrightarrow> safe st' \<and> cgCounts st' = cgCounts st"
  using runner_broker.good_publish [OF safe_harmless, of st "env_rt env" undefined t m]
  by (auto simp: call_Publish_def im_publish_def split_beta intro: safe_broker)

lemma unsubscribe_safe [intro]: "safe st \<Longrightarrow> safe (call_Unsubscribe a st)"
  using runner_subs.good_cancel [OF safe_harmless, of st a] by (auto simp: call_Unsubscribe_def intro: safe_broker)

lemma new_message_safe: "safe st \<Longrightarrow> new_message env f st = (m, st') \<Longrightarrow> safe st' \<and> cgCounts st' = cgCounts st"
  using safe_harmless [of st] by (auto simp: new_message_def Let_def intro: safe_broker)

lemma lifecycle_safe: "\<exists>st. lifecycle env (new_runner env) = Inr st \<and> safe st"
proof -
  have "safe (new_runner env)"
    by (simp add: safe_def new_runner_def tallied_def NewDeadLetterHandler_def harmless_def handlers_in_def new_world_def
        NewInMemoryBroker_def)
  moreover have "handlers_in (snd (Connect w)) = handlers_in w" "stopCh (im (snd (Connect w))) = stopCh (im w)"
    for w :: "runner_handler im_world"
    by (simp_all add: Connect_def handlers_in_def)
  ultimately have "safe ((new_runner env)\<lparr>b := snd (Connect (b (new_runner env)))\<rparr>)"
    by (simp add: safe_def tallied_def harmless_def)
  moreover obtain w where w: "Connect (b (new_runner env)) = (None, w)" by (simp add: Connect_def)
  ultimately have "safe ((new_runner env)\<lparr>b := w\<rparr>)" by simp
  then show ?thesis unfolding lifecycle_def w by (auto simp: Let_def)
qed

lemma check_headers_safe: "safe st \<Longrightarrow> safe (check_headers loc h ks got st)"
  unfolding check_headers_def by (induction ks arbitrary: st) (auto split: option.splits)

lemma pubsub_check_safe: "safe st \<Longrightarrow> safe (pubsub_check env i p st)"
  by (auto simp: pubsub_check_def json_check_def Let_def check_headers_safe split: sum.splits prod.splits option.splits)

lemma pubsub_one_safe:
  assumes "benign env" and "safe st"
  shows "safe (pubsub_one env i p st)"
proof -
  let ?st = "st\<lparr>pubReceived := (pubReceived st)(i := [])\<rparr>"
  obtain r st1 where s: "call_Subscribe env (fTopic p) (OnPubsub i) ?st = (r, st1)" by fastforce
  from subscribe_safe [OF _ _ s] assms(2) have s1: "safe st1" by simp
  show ?thesis
  proof (cases r)
    case (Inl err)
    with s s1 show ?thesis by (auto simp: pubsub_one_def)
  next
    case (Inr sub)
    obtain msg0 st2 where m: "new_message env (\<lambda>uid now. NewMessageWithKey uid now (fTopic p)
        (Some (string_bytes (fKey p))) (Some (string_bytes (fValue p)))) st1 = (msg0, st2)" by fastforce
    obtain e st3 where e: "call_Publish env (fTopic p)
        (set_headers (headers_of p) (env_order env (waits st2) (dom (headers_of p))) msg0) st2 = (e, st3)" by fastforce
    from new_message_safe [OF s1 m] publish_safe [OF _ e] have "safe st3" by simp
    with s m e Inr show ?thesis
      by (cases e) (auto simp: pubsub_one_def Let_def intro: pubsub_check_safe poll_safe [OF assms(1)])
  qed
qed

lemma pubsub_safe: "benign env \<Longrightarrow> safe st \<Longrightarrow> safe (pubsub_each env inputs st)"
proof -
  assume a: "benign env" "safe st"
  have "safe (fold (\<lambda>(i, p). pubsub_one env i p) xs st)" for xs
    using a(2) by (induction xs arbitrary: st) (auto intro: pubsub_one_safe [OF a(1)])
  then show ?thesis by (simp add: pubsub_each_def)
qed

lemma new_batch_safe: "safe st \<Longrightarrow> new_batch env ps st = (ms, st') \<Longrightarrow> safe st'"
proof (induction ps arbitrary: st ms st')
  case (Cons p ps)
  obtain m st1 where m: "new_message env (\<lambda>uid now. NewMessage uid now ''batch-events'' (Some (string_bytes (fValue p)))) st =
    (m, st1)" by fastforce
  from new_message_safe [OF Cons.prems(1) m] have "safe st1" by simp
  with Cons m show ?case by (auto split: prod.splits)
qed simp

lemma PublishBatch_harmless: "harmless D w \<Longrightarrow> harmless D (snd (PublishBatch rt t ms w))"
proof (induction ms arbitrary: w)
  case (Cons m ms)
  from runner_broker.good_publish [OF Cons.prems, of rt undefined t m] Cons.IH show ?case
    by (auto simp: im_publish_def split: prod.splits option.splits)
qed simp

lemma batches_safe:
  assumes "benign env" and "safe st"
  shows "safe (batches env inputs st)"
proof -
  obtain r st1 where s: "call_Subscribe env ''batch-events'' OnBatch st = (r, st1)" by fastforce
  from subscribe_safe [OF assms(2) _ s] have s1: "safe st1" by simp
  obtain ms st2 where m: "new_batch env inputs st1 = (ms, st2)" by fastforce
  obtain e w where e: "PublishBatch (env_rt env) ''batch-events'' ms (b st2) = (e, w)" by fastforce
  have "safe (st2\<lparr>b := w\<rparr>)"
    using new_batch_safe [OF s1 m] PublishBatch_harmless [OF safe_harmless, of st2 "env_rt env" "''batch-events''" ms] e
    by (simp add: safe_broker)
  then have c: "safe (poll env (length inputs) (\<lambda>st. length (batchReceived st)) (st2\<lparr>b := w\<rparr>))" "safe (st2\<lparr>b := w\<rparr>)"
    by (simp_all add: poll_safe [OF assms(1)])
  have "safe (batch_check inputs st)" if "safe st" for st using that by (simp add: batch_check_def Let_def)
  note c' = this [OF c(1)]
  show ?thesis
  proof (cases r)
    case (Inl err)
    with s s1 show ?thesis by (simp add: batches_def)
  next
    case (Inr sub)
    with c(2) c' show ?thesis
      by (cases e) (simp_all add: batches_def s m e unsubscribe_safe)
  qed
qed

lemma add_topics_safe:
  assumes "safe st" and "ran (cg_handlers cg) \<subseteq> counted_handlers (dom (cgCounts st))"
    and "add_topics ps cg st = (cg', st')"
  shows "safe st' \<and> ran (cg_handlers cg') \<subseteq> counted_handlers (dom (cgCounts st'))"
  using assms
proof (induction ps arbitrary: cg st)
  case (Cons p ps)
  let ?st = "st\<lparr>cgCounts := (cgCounts st)(cg_topic p \<mapsto> 0)\<rparr>"
  from Cons.prems(1) have "safe ?st" by (auto simp: safe_def tallied_def intro: harmless_mono)
  moreover have "ran (cg_handlers (cg_Add (cg_topic p) (OnGroup (cg_topic p)) cg)) \<subseteq> counted_handlers (dom (cgCounts ?st))"
    using Cons.prems(2) by (auto simp: cg_Add_def ran_def counted_handlers_def split: if_splits)
  ultimately show ?case by (rule Cons.IH) (use Cons.prems(3) in simp)
qed simp

lemma publish_each_safe: "safe st \<Longrightarrow> safe (publish_each env ps st)"
proof (induction ps arbitrary: st)
  case (Cons p ps)
  obtain m st1 where m: "new_message env (\<lambda>uid now. NewMessage uid now (cg_topic p) (Some (string_bytes (fValue p)))) st = (m, st1)"
    by fastforce
  obtain e st2 where e: "call_Publish env (cg_topic p) m st1 = (e, st2)" by fastforce
  from new_message_safe [OF Cons.prems m] publish_safe [OF _ e] have "safe st2" by simp
  with Cons.IH m e show ?case by simp
qed simp

lemma count_check_safe: "safe st \<Longrightarrow> count_check ts st = (ok, st') \<Longrightarrow> safe st'"
proof -
  have "safe (snd (fold (\<lambda>t (ok, st). if cgCounts st t \<noteq> Some 1 then (False, fail (GroupCount t) st) else (ok, st)) ts (a, st)))"
    if "safe st" for a st
    using that by (induction ts arbitrary: a st) auto
  from this [of st True] show "safe st \<Longrightarrow> count_check ts st = (ok, st') \<Longrightarrow> safe st'" by (simp add: count_check_def)
qed

lemma group_safe:
  assumes "benign env" and "safe st"
  shows "safe (group env inputs st)"
proof -
  define st1 where "st1 = (if cg_ID (NewConsumerGroup '''' ''round-250-cg'' :: (runner_handler, nat) ConsumerGroup) = ''''
    then fail GroupID st else pass GroupID st)"
  have s1: "safe st1" using assms(2) by (simp add: st1_def)
  obtain cg st2 where a: "add_topics inputs (NewConsumerGroup '''' ''round-250-cg'') st1 = (cg, st2)" by fastforce
  have s2: "safe st2" "ran (cg_handlers cg) \<subseteq> counted_handlers (dom (cgCounts st2))"
    using add_topics_safe [OF s1 _ a] by (simp_all add: NewConsumerGroup_def)
  obtain e cg' w where S: "Start (im_subscribe (env_rt env)) inMemorySub_Unsubscribe translatorProvider
      (env_order env (waits st2) (dom (cg_handlers cg))) (\<lambda>m. env_order env (waits st2) (dom m)) (runner_ctx env) cg (b st2) = (e, cg', w)"
    by (metis prod_cases3)
  have s3: "safe (st2\<lparr>b := w\<rparr>)"
    using runner_subs.good_Start [OF safe_harmless [OF s2(1)] s2(2)] S safe_broker [OF s2(1)] by (metis snd_conv)
  define st4 where "st4 = sleep env (publish_each env inputs (pass GroupStart (st2\<lparr>b := w\<rparr>)))"
  have s4: "safe st4" unfolding st4_def using s3 by (simp add: sleep_safe [OF assms(1)] publish_each_safe)
  obtain ok st5 where c: "count_check (env_order env (waits st4) (dom (cgCounts st4))) st4 = (ok, st5)" by fastforce
  define st6 where "st6 = (if ok then pass GroupNoCrossTalk st5 else st5)"
  have s6: "safe st6" using count_check_safe [OF s4 c] by (simp add: st6_def)
  obtain e' cg'' w' where T: "Stop inMemorySub_Unsubscribe translatorProvider
      (env_order env (waits st6) (dom (cg_subscriptions cg'))) cg' (b st6) = (e', cg'', w')" by (metis prod_cases3)
  have "safe (st6\<lparr>b := w'\<rparr>)"
    using runner_subs.good_Stop [OF safe_harmless [OF s6]] T safe_broker [OF s6] by (metis snd_conv)
  with s3 show ?thesis
    unfolding group_def Let_def st1_def [symmetric] a prod.case S st4_def [symmetric] c st6_def [symmetric] T
    by (cases e) simp_all
qed

lemma retry_safe:
  assumes "benign env" and "safe st"
  shows "safe (retry env inputs st)"
proof -
  let ?bs = "string_bytes (fValue (last inputs))"
  obtain r1 st1 where s: "call_Subscribe env ''dlq-round-250'' OnDLQ st = (r1, st1)" by fastforce
  from subscribe_safe [OF assms(2) _ s] have s1: "safe st1" by simp
  obtain r2 st2 where s': "call_Subscribe env ''retry-events'' OnRetry st1 = (r2, st2)" by fastforce
  from subscribe_safe [OF s1 _ s'] have s2: "safe st2" by simp
  obtain m st3 where m: "new_message env (\<lambda>uid now. NewMessage uid now ''retry-events'' (Some ?bs)) st2 = (m, st3)" by fastforce
  obtain e st4 where e: "call_Publish env ''retry-events'' m st3 = (e, st4)" by fastforce
  from new_message_safe [OF s2 m] publish_safe [OF _ e] have "safe st4" by simp
  then have "safe (retry_check ?bs (sleep env st4))"
    using sleep_safe [OF assms(1)] by (simp add: retry_check_def Let_def)
  with s1 s2 s s' m e show ?thesis
    by (cases r1; cases r2) (simp_all add: retry_def unsubscribe_safe)
qed

lemma sync_producer_safe:
  assumes "benign env" and "safe st"
  shows "safe (sync_producer env st)"
proof -
  obtain r st1 where s: "call_Subscribe env ''sync-producer-events'' OnSync st = (r, st1)" by fastforce
  from subscribe_safe [OF assms(2) _ s] have s1: "safe st1" by simp
  define json where "json = json_strings (env_order env (waits st1))"
  define n where "n = ticks (b st1)"
  obtain e sp w where e: "SendValue (im_publish (env_rt env)) NoopTranslator json (uuid_New (env_rt env) n)
      (time_Now (env_rt env) n) (time_Now (env_rt env) (Suc n)) (runner_ctx env) ''sync-producer-events''
      (Some sync_payload) (sp_SetSerializer (Some (JSONSerializer json)) (NewSyncProducer 0)) ((b st1)\<lparr>ticks := n + 2\<rparr>) =
      (e, sp, w)" by (metis prod_cases3)
  have "harmless (dom (cgCounts st1)) ((b st1)\<lparr>ticks := n + 2\<rparr>)" using safe_harmless [OF s1] by simp
  from runner_broker.good_SendValue [OF this] e have "harmless (dom (cgCounts st1)) w" by (metis snd_conv)
  then have s2: "safe (st1\<lparr>b := w\<rparr>)" by (rule safe_broker [OF s1])
  then have "safe (sync_check env (poll env 1 (\<lambda>st. length (spReceived st)) (st1\<lparr>b := w\<rparr>)))"
    using poll_safe [OF assms(1) s2] by (simp add: sync_check_def Let_def split: prod.splits option.splits)
  then have c: "safe (case e of Some err \<Rightarrow> fail SyncSendValue (st1\<lparr>b := w\<rparr>)
      | None \<Rightarrow> sync_check env (poll env 1 (\<lambda>st. length (spReceived st)) (st1\<lparr>b := w\<rparr>)))"
    using s2 by (cases e) simp_all
  show ?thesis
  proof (cases r)
    case (Inl err)
    with s s1 show ?thesis by (simp add: sync_producer_def)
  next
    case (Inr sub)
    show ?thesis
      unfolding sync_producer_def s Inr prod.case sum.case Let_def json_def [symmetric] n_def [symmetric] e
      using c by (rule unsubscribe_safe)
  qed
qed

lemma shutdown_safe: "safe st \<Longrightarrow> \<not> crashed (shutdown st) \<and> tallied (shutdown st)"
  by (auto simp: shutdown_def Close_def safe_def tallied_def harmless_def pass_def fail_def)

section \<open>Properties\<close>

definition accepted_fixtures :: "environment \<Rightarrow> bool" where
  "accepted_fixtures env \<longleftrightarrow>
     (\<exists>data inputs. env_file env = Some data \<and> fixtureFile data = Inr inputs \<and> 3 \<le> length inputs)"

text \<open>
  C6: the runner is safe in every environment, whatever the scheduler, the sleeps, the polls and the
  map order are. It exits with 2 exactly when the fixture file cannot be read or decoded or has
  fewer than three payloads. Otherwise it runs to its end without a panic; the two totals it prints
  are the numbers of its \<open>PASS\<close> and \<open>FAIL\<close> lines, and it exits with 0 if no line is
  a \<open>FAIL\<close> and with 1 if one is.
\<close>

theorem runner_safe_everywhere:
  assumes "benign env"
  shows "(fst (main env) = 2 \<longleftrightarrow> \<not> accepted_fixtures env) \<and>
    (accepted_fixtures env \<longrightarrow> (\<exists>st. main env = (if \<forall>x \<in> set (printed st). fst x then 0 else 1, Some st) \<and> \<not> crashed st \<and>
       totalPass st = int (length (filter fst (printed st))) \<and>
       totalFail st = int (length (filter (\<lambda>x. \<not> fst x) (printed st)))))"
proof (cases "accepted_fixtures env")
  case True
  then obtain data inputs where f: "env_file env = Some data" "fixtureFile data = Inr inputs" "3 \<le> length inputs"
    by (auto simp: accepted_fixtures_def)
  obtain st0 where st0: "lifecycle env (new_runner env) = Inr st0" "safe st0" using lifecycle_safe by blast
  define st where "st = sections env inputs st0"
  have "\<not> crashed st \<and> tallied st"
    unfolding st_def sections_def
    by (intro shutdown_safe) (simp add: sync_producer_safe retry_safe group_safe batches_safe pubsub_safe assms st0(2))
  then have t: "\<not> crashed st" "totalPass st = int (length (filter fst (printed st)))"
    "totalFail st = int (length (filter (\<lambda>x. \<not> fst x) (printed st)))" by (simp_all add: tallied_def)
  have "totalFail st > 0 \<longleftrightarrow> \<not> (\<forall>x \<in> set (printed st). fst x)" unfolding t(3) by (auto simp: filter_empty_conv)
  with f st0(1) t(1) have "main env = (if \<forall>x \<in> set (printed st). fst x then 0 else 1, Some st)"
    by (simp add: main_def st_def)
  with t True show ?thesis by auto
next
  case False
  then have "fst (main env) = 2" by (auto simp: main_def accepted_fixtures_def split: option.splits sum.splits)
  with False show ?thesis by simp
qed

text \<open>An environment for the witness in which no goroutine ever runs.\<close>

theorem runner_safe_everywhere_witness:
  "fst (main (demo_environment\<lparr>env_schedule := \<lambda>t n. []\<rparr>)) \<in> {0, 1} \<and>
   fst (main (demo_environment\<lparr>env_file := None\<rparr>)) = 2"
proof -
  have "benign (demo_environment\<lparr>env_schedule := \<lambda>t n. []\<rparr>)" "benign (demo_environment\<lparr>env_file := None\<rparr>)"
    by (auto simp: benign_def demo_environment_def recorded_def)
  moreover have "accepted_fixtures (demo_environment\<lparr>env_schedule := \<lambda>t n. []\<rparr>)"
    unfolding accepted_fixtures_def by (simp add: demo_environment_def demo_fixtures_decode)
  moreover have "\<not> accepted_fixtures (demo_environment\<lparr>env_file := None\<rparr>)" by (simp add: accepted_fixtures_def)
  ultimately obtain st where
    "main (demo_environment\<lparr>env_schedule := \<lambda>t n. []\<rparr>) = (if \<forall>x \<in> set (printed st). fst x then 0 else 1, Some st)"
    "fst (main (demo_environment\<lparr>env_file := None\<rparr>)) = 2"
    using runner_safe_everywhere [of "demo_environment\<lparr>env_schedule := \<lambda>t n. []\<rparr>"]
      runner_safe_everywhere [of "demo_environment\<lparr>env_file := None\<rparr>"] by blast
  then show ?thesis by simp
qed

end
