(* ===== verification/Spec2Isabelle.thy ===== *)
theory Spec2Isabelle
  imports AsyncHeap Interfaces Liveness RunnerSafe
begin

text \<open>
  A model of the Go module \<open>digital.vasic.messaging\<close> and the theorems that make it correct.

  \<^bold>\<open>The program.\<close> The module is a library for publish/subscribe messaging. A broker
  (\<open>pkg/broker\<close>) accepts messages on topics and hands them to the handlers subscribed there;
  the in-memory broker is complete, the Kafka and RabbitMQ adapters (\<open>pkg/kafka\<close>,
  \<open>pkg/rabbitmq\<close>) are the configuration and the connection and subscription state around a
  publish function that the user injects. On top of a broker stand the consumer side
  (\<open>pkg/consumer\<close>: groups, retry, dead letters, batches) and the producer side
  (\<open>pkg/producer\<close>: serializers, compressors, a synchronous and an asynchronous producer).
  Texts go through a translation seam (\<open>pkg/i18n\<close>). \<open>challenges/runner\<close> is a program
  that exercises the library.

  \<^bold>\<open>Theories and sources.\<close>

  \<^item> \<open>Messaging_Prelude\<close>: words of 64 bits, byte slices (nil and empty kept apart), Go
    maps and their arbitrary iteration orders, channels and their panics, and the locales
    \<open>step_invariant\<close>, by which an invariant of a step relation holds in every reachable state,
    \<open>forward_simulation\<close>, by which one system refines another, and \<open>functional_refinement\<close>,
    by which an object answers every sequence of calls as its specification does.
  \<^item> \<open>I18n\<close>: \<open>pkg/i18n/translator.go\<close> and \<open>pkg/broker/i18n_wiring.go\<close>, with the
    consistent-type rule of \<open>atomic.Value\<close>.
  \<^item> \<open>Errors\<close>: \<open>pkg/broker/errors.go\<close>, with \<open>errors.Is\<close>, \<open>errors.As\<close> and
    wrapping.
  \<^item> \<open>Message\<close>: the types of \<open>pkg/broker/broker.go\<close>.
  \<^item> \<open>Base64\<close>, \<open>GoTime\<close>, \<open>Json\<close>, \<open>MessageJson\<close>: \<open>Message.MarshalJSON\<close> and
    \<open>UnmarshalJSON\<close>, with what they use of \<open>encoding/json\<close>, \<open>encoding/base64\<close> and
    the text form of \<open>time.Time\<close>.
  \<^item> \<open>InMemory\<close>, \<open>InMemory_Spec\<close>, \<open>Delivery\<close>: \<open>pkg/broker/inmemory.go\<close> and
    \<open>metrics.go\<close>; the broker and its subscription objects, the abstract publish/subscribe
    service it implements (\<open>pubsub\<close>, and as a labelled step relation \<open>svc_step\<close>), and the runs in
    which delivery goroutines interleave with calls.
  \<^item> \<open>MessageHeap\<close>: \<open>Message\<close> and \<open>InMemoryBroker.Publish\<close> once more, with messages as
    pointers to structs whose slices and map are references, on a heap that clients and handlers
    keep writing to.
  \<^item> \<open>Broker_Interface\<close>: what clients rely on, as the locales \<open>publishing\<close> and
    \<open>subscribing\<close>, interpreted on the in-memory broker (\<open>subscribing\<close> also on the consumers of
    the adapters, in their theories), and \<open>closing\<close>, interpreted on the producers of the adapters.
  \<^item> \<open>Interfaces\<close>: the Go interfaces \<open>MessageBroker\<close> and \<open>Subscription\<close> as records of
    methods, the option types of \<open>options.go\<close>, client programs over the interfaces, with nil
    handlers and the delivery goroutines scheduled between their calls, and the locale
    \<open>handles\<close>, the contract of subscription objects, interpreted on all three brokers.
  \<^item> \<open>ConsumerGroup\<close> (with the locales \<open>keeping\<close> and \<open>selective\<close>, the latter
    interpreted on the in-memory broker and on the \<open>Subscribe\<close> methods of the adapters' consumers), \<open>Retry\<close> (over the float64 arithmetic of \<open>Float64\<close>),
    \<open>DeadLetter\<close>, \<open>BatchConsumer\<close>: the four parts of \<open>pkg/consumer/consumer.go\<close>.
  \<^item> \<open>Codecs\<close> (with the locale \<open>compressor\<close>), \<open>SyncProducer\<close>, \<open>AsyncProducer\<close>:
    the parts of \<open>pkg/producer/producer.go\<close>. \<open>AsyncHeap\<close>: the asynchronous producer with
    pointers for messages, over the broker of \<open>MessageHeap\<close>.
  \<^item> \<open>Kafka\<close>, \<open>RabbitMQ\<close>: the adapters. \<open>Registry\<close>: the registry of subscriptions that the
    consumers of both implement. They are no \<open>MessageBroker\<close>s; that they keep the contract of
    \<open>subscribing\<close> is proved for whoever wraps them in one.
  \<^item> \<open>Fairness\<close>, \<open>Liveness\<close>: infinite runs and weak fairness, the rules of the helpful
    action as the locales \<open>fair_progress\<close> and \<open>handover\<close>, and their interpretations on the
    runs of the broker, the batch consumer and the asynchronous producer.
  \<^item> \<open>Runner\<close>, \<open>RunnerMain\<close>, \<open>RunnerCorrect\<close>, \<open>RunnerSafe\<close>:
    \<open>challenges/runner/main.go\<close>; the comparisons and the composed handler, the whole program
    from the fixture file to the exit code, its run when the goroutines get their turn, and its
    runs in every environment.

  \<^bold>\<open>How code becomes definitions.\<close> A struct is a record with its fields in order, a method a
  function that returns the updated record, a returned error an \<open>option\<close>, a panic the left
  side of a sum. An object that several owners share (a subscription) lives on a heap and is named
  by its address. A method that holds a lock from start to end is one step; one that does not is
  split where it gives the lock up, and the concurrent components are inductive step relations
  in which the pieces of all callers and goroutines interleave. History variables record what was
  accepted, handled or published. Messages are values except in \<open>MessageHeap\<close>, where it is
  proved that for the in-memory broker this loses nothing, because \<open>Publish\<close> copies deeply.
  \<open>AsyncProducer.Send\<close> and \<open>BatchConsumer.Add\<close> keep the pointer they are given. Their models
  do not look at messages and are polymorphic in them: the theorems hold for values and for
  pointers, and \<open>AsyncHeap\<close> says what they mean for the values behind the pointers.

  \<^bold>\<open>Parameters.\<close> UUIDs and the clock (\<open>runtime\<close>; where it matters, the hypothesis that
  UUIDs do not repeat), \<open>math.Pow\<close> and the conversion of an out-of-range float64 to an
  integer (which Go leaves to the implementation), \<open>encoding/json\<close> at the arbitrary values a
  serializer is given (at the types the sources fix it is modelled), \<open>compress/gzip\<close>
  (with the hypothesis that it is lossless), handlers, callbacks and the injected publish
  functions. The order in which Go iterates over a map is an argument: any list of its keys
  without repetition. The runner gets an \<open>environment\<close>: its file, the clock, the schedule of
  the goroutines during each sleep, the number of polls that fit before a deadline.

  \<^bold>\<open>Loops.\<close> Loops over slices and maps are structural recursions. The retry loop counts in
  64 bits and is a \<open>partial_function\<close>: that it returns below the largest \<open>MaxRetries\<close>, and
  that it does not at it, are theorems. The select loops are step relations; that they make
  progress is proved on every fair run. The polling loops of the runner end by their deadline,
  which the environment gives as a number of polls, any number. No definition uses fuel.

  \<^bold>\<open>What the theorems show.\<close>

  \<^item> The in-memory broker refines the abstract service, also when messages are pointers that
    everyone keeps writing to; every publish reaches every live subscription of its topic exactly
    once, in any schedule of the goroutines, with its content, and on a fair run it does get there;
    a cancelled subscription receives nothing more; a disconnected broker does nothing. Order is
    kept in the queues and not in the deliveries.
  \<^item> \<open>Clone\<close> is a deep copy, and the other methods of \<open>Message\<close> do on the heap what
    the value model says.
  \<^item> A message encoded as JSON and decoded again is the same message, whatever bytes its value
    holds; what becomes of text that is not UTF-8, in the headers too.
  \<^item> A program over the interface \<open>MessageBroker\<close> that publishes no nil message, subscribes no
    nil handler and closes once does not panic, nor does a delivery; subscription objects of all brokers keep one contract.
  \<^item> A consumer group subscribes all its topics or, on an error, none, over every broker with
    the contract, and reports the broker's error; \<open>Stop\<close> undoes \<open>Start\<close>.
  \<^item> \<open>WithRetry\<close>: which attempts are made, what is waited for and returned, how many calls
    an error costs, bounds of the delays as computed in float64.
  \<^item> Dead letters carry content and reason and are counted; composed with retry, no message
    whose handler keeps failing is lost.
  \<^item> The batch consumer and the asynchronous producer neither lose nor duplicate a message, in
    any interleaving, and on a fair run every accepted message is handled or published, a
    \<open>Stop\<close> of the producer in between included: a send loop returns only when it has drained the
    channel, unless its context ends, which strands what is queued. With pointers, the producer publishes what \<open>Send\<close>
    was given if the client leaves a pending message alone, and what the client wrote since if not.
  \<^item> What the synchronous producer sends can be recovered; its counters are exact.
  \<^item> The adapters: both consumers answer every sequence of calls as the registry does; closing a
    producer is final, RabbitMQ channels are never closed twice.
  \<^item> The error searches follow the chain of an error, and what the classification helpers accept.
  \<^item> The runner passes all its checks when the goroutines it waits for get their turn, and in
    every environment it ends without a panic, with an exit code that says what it printed.
  \<^item> Where the code does less than its documents promise, a theorem says exactly what it does:
    translators that cannot be set, closing a reconnected broker, handles that stay active,
    concurrent starts, negative retry limits, stranded and doubly compressed messages, leaked
    subscriptions.

  \<^bold>\<open>Not modelled.\<close> Time passing as such (a ticker may fire, and a context end, at any step);
  nil messages handed to a producer or a batch consumer (for the broker they are modelled); data
  races in the sense of Go's memory model (every read and write of a message is one step); the
  wording of what the runner prints and its command line flags; scripts, tests and documents. In
  the runner a retried handler runs with all its waits as one step of the sleep in which it is
  scheduled, and a slice is taken to have no stale elements beyond its length when JSON is decoded
  into it.
\<close>

section \<open>Properties across components\<close>

text \<open>
  A batch consumer's handler behind the composition of retry and dead letters: it accepts every
  message, so there is one attempt, no wait and no dead letter, and the message is in the buffer.
\<close>

lemma batch_handler_is_never_dead_lettered:
  assumes "0 \<le> sint (MaxRetries p)"
  shows "wrapped pow conv wait publish tn now
      (\<lambda>ctx m (bc, w). let (e, bc') = AsHandler ctx m bc in (e, m, (bc', w))) (Some p) dlh ctx m (bc, w) =
    Some (Inr (None, dlh, (bc_Add m bc, w)))"
  unfolding wrapped_def WithRetry_def
  by (subst retry_loop.simps) (use assms in \<open>simp add: AsHandler_def\<close>)

end
